(* ===== verification/Prelude.thy ===== *)
theory Prelude
  imports Main "HOL-Library.Word" "HOL-Library.Monad_Syntax"
begin

unbundle bit_operations_syntax

text \<open>
  The prelude of the HeliumOS development: the integer types of the Rust sources, the
  arithmetic of a debug build (every overflow panics), indexing that panics out of range,
  a loop combinator, and the list and counting lemmas the components share.

  A computation of type \<open>'a option\<close> in the model of a kernel function is a run of that
  function: \<^const>\<open>None\<close> is a panic (the kernel's panic handler in \<open>kernel/src/sys.rs\<close>
  halts the core for ever, so no state survives it), \<open>Some r\<close> is a normal return of \<open>r\<close>.
  A Rust \<open>Option\<close> or \<open>Result\<close> that the function returns is a value inside \<open>r\<close>.
  \<open>u64\<close> and \<open>usize\<close> values that are only added, multiplied and compared are
  \<^typ>\<open>nat\<close>, kept below \<open>2 ^ 64\<close> by the checked operations below; values on which the code
  works bit by bit are words.
\<close>

section \<open>Types\<close>

type_synonym u8 = "8 word"
type_synonym u16 = "16 word"
type_synonym u32 = "32 word"
type_synonym u64 = "64 word"

named_theorems rust_simps \<open>unfolding of the checked operations of the Rust model\<close>

section \<open>Arithmetic of a debug build\<close>

definition add64 :: "nat \<Rightarrow> nat \<Rightarrow> nat option" where
  "add64 a b = (if a + b < 2 ^ 64 then Some (a + b) else None)"

definition sub64 :: "nat \<Rightarrow> nat \<Rightarrow> nat option" where
  "sub64 a b = (if b \<le> a then Some (a - b) else None)"

definition mul64 :: "nat \<Rightarrow> nat \<Rightarrow> nat option" where
  "mul64 a b = (if a * b < 2 ^ 64 then Some (a * b) else None)"

definition add16 :: "nat \<Rightarrow> nat \<Rightarrow> nat option" where
  "add16 a b = (if a + b < 2 ^ 16 then Some (a + b) else None)"

definition rassert :: "bool \<Rightarrow> unit option" where
  "rassert b = (if b then Some () else None)"

definition get :: "'a list \<Rightarrow> nat \<Rightarrow> 'a option" where
  "get xs i = (if i < length xs then Some (xs ! i) else None)"

definition put :: "'a list \<Rightarrow> nat \<Rightarrow> 'a \<Rightarrow> 'a list option" where
  "put xs i v = (if i < length xs then Some (xs[i := v]) else None)"

lemma add64_Some [rust_simps]: "add64 a b = Some c \<longleftrightarrow> c = a + b \<and> a + b < 2 ^ 64"
  by (auto simp: add64_def)

lemma sub64_Some [rust_simps]: "sub64 a b = Some c \<longleftrightarrow> b \<le> a \<and> c = a - b"
  by (auto simp: sub64_def)

lemma mul64_Some [rust_simps]: "mul64 a b = Some c \<longleftrightarrow> c = a * b \<and> a * b < 2 ^ 64"
  by (auto simp: mul64_def)

lemma add16_Some [rust_simps]: "add16 a b = Some c \<longleftrightarrow> c = a + b \<and> a + b < 2 ^ 16"
  by (auto simp: add16_def)

lemma rassert_Some [rust_simps]: "rassert b = Some u \<longleftrightarrow> b"
  by (auto simp: rassert_def)

lemma get_Some [rust_simps]: "get xs i = Some v \<longleftrightarrow> i < length xs \<and> v = xs ! i"
  by (auto simp: get_def)

lemma put_Some [rust_simps]: "put xs i v = Some ys \<longleftrightarrow> i < length xs \<and> ys = xs[i := v]"
  by (auto simp: put_def)

lemma bind_Some_iff [rust_simps]:
  "Option.bind m f = Some r \<longleftrightarrow> (\<exists>x. m = Some x \<and> f x = Some r)"
  by (cases m) auto

lemma get_ok [simp]: "i < length xs \<Longrightarrow> get xs i = Some (xs ! i)"
  by (simp add: get_def)

lemma put_ok [simp]: "i < length xs \<Longrightarrow> put xs i v = Some (xs[i := v])"
  by (simp add: put_def)

lemma rassert_True [simp]: "rassert True = Some ()"
  by (simp add: rassert_def)

lemma rassert_False [simp]: "rassert False = None"
  by (simp add: rassert_def)

section \<open>Loops\<close>

text \<open>
  \<open>fold_opt f xs s\<close> is a \<open>for x in xs\<close> loop whose body \<open>f x\<close> changes the state \<open>s\<close>
  and may panic.
\<close>

fun fold_opt :: "('a \<Rightarrow> 's \<Rightarrow> 's option) \<Rightarrow> 'a list \<Rightarrow> 's \<Rightarrow> 's option" where
  "fold_opt f [] s = Some s"
| "fold_opt f (x # xs) s = Option.bind (f x s) (fold_opt f xs)"

lemma fold_opt_append:
  "fold_opt f (xs @ ys) s = Option.bind (fold_opt f xs s) (fold_opt f ys)"
proof (induction xs arbitrary: s)
  case (Cons x xs)
  then show ?case by (cases "f x s") simp_all
qed simp

lemma fold_opt_inv:
  assumes "fold_opt f xs s = Some t" and "P s"
    and "\<And>x s t. x \<in> set xs \<Longrightarrow> P s \<Longrightarrow> f x s = Some t \<Longrightarrow> P t"
  shows "P t"
  using assms by (induction xs arbitrary: s) (auto simp: rust_simps)

lemma fold_opt_total:
  assumes "P s" and "\<And>x s. x \<in> set xs \<Longrightarrow> P s \<Longrightarrow> \<exists>t. f x s = Some t \<and> P t"
  shows "\<exists>t. fold_opt f xs s = Some t \<and> P t"
  using assms
proof (induction xs arbitrary: s)
  case (Cons x xs)
  then obtain t where "f x s = Some t" "P t" by fastforce
  moreover from Cons.IH [OF \<open>P t\<close>] Cons.prems(2)
  obtain u where "fold_opt f xs t = Some u" "P u" by auto
  ultimately show ?case by auto
qed simp

text \<open>A loop whose body may panic, return from the function (\<^const>\<open>Inl\<close>) or continue.\<close>

fun fold_ret :: "('a \<Rightarrow> 's \<Rightarrow> ('r + 's) option) \<Rightarrow> 'a list \<Rightarrow> 's \<Rightarrow> ('r + 's) option" where
  "fold_ret body [] s = Some (Inr s)"
| "fold_ret body (x # xs) s =
     (case body x s of None \<Rightarrow> None | Some (Inl r) \<Rightarrow> Some (Inl r) | Some (Inr s') \<Rightarrow> fold_ret body xs s')"

lemma fold_ret_append:
  "fold_ret f (xs @ ys) s =
     (case fold_ret f xs s of None \<Rightarrow> None | Some (Inl r) \<Rightarrow> Some (Inl r) | Some (Inr s') \<Rightarrow> fold_ret f ys s')"
  by (induction xs arbitrary: s) (auto split: option.splits sum.splits)

section \<open>Lists and counting\<close>

text \<open>The first index at which a predicate holds: \<open>iter().enumerate().find(..)\<close>.\<close>

definition find_index :: "('a \<Rightarrow> bool) \<Rightarrow> 'a list \<Rightarrow> nat option" where
  "find_index P xs = List.find (\<lambda>i. P (xs ! i)) [0..<length xs]"

lemma find_upt_Some:
  "List.find P [0..<n] = Some i \<longleftrightarrow> i < n \<and> P i \<and> (\<forall>j<i. \<not> P j)"
proof (cases "i < n")
  case True
  then show ?thesis
    by (auto simp: find_Some_iff)
next
  case False
  then show ?thesis by (auto simp: find_Some_iff)
qed

lemma find_index_Some:
  "find_index P xs = Some i \<longleftrightarrow> i < length xs \<and> P (xs ! i) \<and> (\<forall>j<i. \<not> P (xs ! j))"
  by (simp add: find_index_def find_upt_Some)

lemma find_index_None: "find_index P xs = None \<longleftrightarrow> (\<forall>x \<in> set xs. \<not> P x)"
  by (simp add: find_index_def find_None_iff) (metis in_set_conv_nth)

text \<open>The number of list elements with a property, as \<open>length (filter P xs)\<close>.\<close>

definition count_if :: "('a \<Rightarrow> bool) \<Rightarrow> 'a list \<Rightarrow> nat" where
  "count_if P xs = length (filter P xs)"

lemma count_if_simps [simp]:
  "count_if P [] = 0"
  "count_if P (x # xs) = (if P x then Suc (count_if P xs) else count_if P xs)"
  by (simp_all add: count_if_def)

lemma count_if_le: "count_if P xs \<le> length xs"
  by (simp add: count_if_def)

lemma count_if_0: "count_if P xs = 0 \<longleftrightarrow> (\<forall>x \<in> set xs. \<not> P x)"
  by (auto simp: count_if_def filter_empty_conv)

lemma count_if_pos: "0 < count_if P xs \<longleftrightarrow> (\<exists>x \<in> set xs. P x)"
  using count_if_0 [of P xs] by auto

lemma count_if_replicate: "count_if P (replicate n x) = (if P x then n else 0)"
  by (induction n) auto

lemma count_if_update:
  "i < length xs \<Longrightarrow>
   count_if P (xs[i := v]) + (if P (xs ! i) then 1 else 0) = count_if P xs + (if P v then 1 else 0)"
proof (induction xs arbitrary: i)
  case (Cons x xs)
  then show ?case by (cases i) (auto split: if_splits)
qed simp

lemma count_if_update_same:
  "i < length xs \<Longrightarrow> P v = P (xs ! i) \<Longrightarrow> count_if P (xs[i := v]) = count_if P xs"
  using count_if_update [of i xs P v] by (simp split: if_splits)

lemma count_if_cong:
  "length xs = length ys \<Longrightarrow> (\<And>i. i < length xs \<Longrightarrow> P (xs ! i) = Q (ys ! i)) \<Longrightarrow>
   count_if P xs = count_if Q ys"
proof (induction xs ys rule: list_induct2')
  case (4 x xs y ys)
  have "P x = Q y" using 4(3) [of 0] by simp
  moreover have "count_if P xs = count_if Q ys"
    using 4(2) 4(3) [of "Suc i" for i] by (intro 4(1)) auto
  ultimately show ?case by simp
qed auto

lemma nth_list_update_If: "i < length xs \<Longrightarrow> xs[i := v] ! j = (if i = j then v else xs ! j)"
  by (auto simp: nth_list_update)

section \<open>Rounding\<close>

definition round_up :: "nat \<Rightarrow> nat \<Rightarrow> nat" where
  "round_up a n = (a + n - 1) div n * n"

definition round_down :: "nat \<Rightarrow> nat \<Rightarrow> nat" where
  "round_down a n = a div n * n"

lemma round_up_eq:
  assumes "0 < n"
  shows "round_up a n = a + (if a mod n = 0 then 0 else n - a mod n)"
proof -
  define q r where "q = a div n" and "r = a mod n"
  have a: "a = n * q + r" and r: "r < n" using assms by (simp_all add: q_def r_def)
  show ?thesis
  proof (cases "r = 0")
    case True
    have "(n * q + (n - 1)) div n = q" using assms by (simp add: div_nat_eqI)
    with True assms show ?thesis unfolding r_def [symmetric] by (simp add: round_up_def a)
  next
    case False
    with r have "a + n - 1 = n * (q + 1) + (r - 1)" unfolding a by simp
    moreover have "(n * (q + 1) + (r - 1)) div n = q + 1"
      using r False by (intro div_nat_eqI) auto
    ultimately have "round_up a n = n * (q + 1)" by (simp only: round_up_def) simp
    with False r show ?thesis unfolding r_def [symmetric] by (simp add: a)
  qed
qed

lemma round_down_le: "round_down a n \<le> a"
  by (simp add: round_down_def)

lemma round_down_dvd [simp]: "n dvd round_down a n"
  by (simp add: round_down_def)

lemma round_up_dvd [simp]: "n dvd round_up a n"
  by (simp add: round_up_def)

lemma round_up_ge: "0 < n \<Longrightarrow> a \<le> round_up a n"
proof -
  assume n: "0 < n"
  have "(a + n - 1) mod n < n" using n by simp
  moreover have "round_up a n + (a + n - 1) mod n = a + n - 1"
    by (simp add: round_up_def)
  ultimately show ?thesis using n by linarith
qed

lemma round_up_less: "0 < n \<Longrightarrow> round_up a n < a + n"
proof -
  assume n: "0 < n"
  have "round_up a n \<le> a + n - 1" by (simp add: round_up_def)
  with n show ?thesis by linarith
qed

lemma round_up_id: "n dvd a \<Longrightarrow> round_up a n = a"
proof (cases "n = 0")
  case False
  assume "n dvd a"
  then obtain k where a: "a = n * k" by (elim dvdE)
  from False have "(n * k + n - 1) div n = k"
    by (intro div_nat_eqI) (auto simp: algebra_simps)
  then show ?thesis by (simp add: round_up_def a)
qed (simp add: round_up_def)

lemma round_up_mono: "a \<le> b \<Longrightarrow> round_up a n \<le> round_up b n"
  by (simp add: round_up_def div_le_mono)

lemma round_down_id: "n dvd a \<Longrightarrow> round_down a n = a"
  by (simp add: round_down_def)

end
