(* ===== verification/X86_Crate.thy ===== *)
theory X86_Crate
  imports Prelude
begin

text \<open>
  The \<open>x86_64\<close> crate (version 0.15.1 in \<open>kernel/Cargo.toml\<close>) is not part of the
  repository. The operations the kernel calls are the fields of the record \<open>x86\<close>, an
  argument of every definition that uses them, and the behaviour the crate documents for
  them is the locale \<open>x86_crate\<close>, whose predicate is the hypothesis \<open>x86_crate X\<close> of
  the theorems. A \<open>VirtAddr\<close>, \<open>PhysAddr\<close>, \<open>Page\<close> or \<open>PhysFrame\<close> is its address, a
  \<open>PageTableEntry\<close> is the 64-bit entry, \<open>PageTableFlags\<close> is a set of flags: those the
  kernel names, and \<open>HUGE_PAGE\<close>, which decides what \<open>PageTableEntry::frame\<close> returns.
  \<open>PageTableEntry::set_frame\<close> refuses \<open>HUGE_PAGE\<close>; no caller passes it, and the laws say
  nothing of that case.
  \<open>x86_ref\<close> is the instance with the layout of the processor manuals; the witnesses of
  the development are evaluated with it.
\<close>

section \<open>The operations\<close>

datatype pflag = PRESENT | WRITABLE | USER_ACCESSIBLE | HUGE_PAGE | GLOBAL

type_synonym pflags = "pflag set"

record x86 =
  align_up :: "nat \<Rightarrow> nat \<Rightarrow> nat option"
  align_down :: "nat \<Rightarrow> nat \<Rightarrow> nat option"
  virt_try_new :: "nat \<Rightarrow> nat option"
  virt_new_truncate :: "nat \<Rightarrow> nat"
  virt_add :: "nat \<Rightarrow> nat \<Rightarrow> nat option"
  p1_index :: "nat \<Rightarrow> nat"
  p2_index :: "nat \<Rightarrow> nat"
  p3_index :: "nat \<Rightarrow> nat"
  p4_index :: "nat \<Rightarrow> nat"
  phys_new :: "nat \<Rightarrow> nat option"
  phys_add :: "nat \<Rightarrow> nat \<Rightarrow> nat option"
  page_containing :: "nat \<Rightarrow> nat"
  page_from_start :: "nat \<Rightarrow> nat option"
  page_add :: "nat \<Rightarrow> nat \<Rightarrow> nat option"
  frame_containing :: "nat \<Rightarrow> nat"
  frame_from_start :: "nat \<Rightarrow> nat option"
  frame_add :: "nat \<Rightarrow> nat \<Rightarrow> nat option"
  pte_new :: u64
  pte_is_unused :: "u64 \<Rightarrow> bool"
  pte_frame :: "u64 \<Rightarrow> nat option"
  pte_flags :: "u64 \<Rightarrow> pflags"
  pte_set_frame :: "u64 \<Rightarrow> nat \<Rightarrow> pflags \<Rightarrow> u64"
  pte_set_flags :: "u64 \<Rightarrow> pflags \<Rightarrow> u64"

text \<open>
  A virtual address is canonical when bits 48 to 63 repeat bit 47; a physical address has
  at most 52 bits.
\<close>

definition canonical :: "nat \<Rightarrow> bool" where
  "canonical a \<longleftrightarrow> a < 2 ^ 47 \<or> 2 ^ 64 - 2 ^ 47 \<le> a \<and> a < 2 ^ 64"

definition sign_extend47 :: "nat \<Rightarrow> nat" where
  "sign_extend47 a =
     (let low = a mod 2 ^ 48 in if low < 2 ^ 47 then low else low + (2 ^ 64 - 2 ^ 48))"

abbreviation page_aligned :: "nat \<Rightarrow> bool" where
  "page_aligned a \<equiv> a mod 4096 = 0"

section \<open>The documented behaviour\<close>

locale x86_crate =
  fixes X :: x86
  assumes align_up_eq:
      "k < 64 \<Longrightarrow> align_up X a (2 ^ k) =
         (if round_up a (2 ^ k) < 2 ^ 64 then Some (round_up a (2 ^ k)) else None)"
    and align_down_eq: "k < 64 \<Longrightarrow> align_down X a (2 ^ k) = Some (round_down a (2 ^ k))"
    and virt_try_new_eq: "virt_try_new X a = (if canonical a then Some a else None)"
    and virt_new_truncate_eq: "virt_new_truncate X a = sign_extend47 a"
    and virt_add_eq: "virt_add X a n = (if canonical (a + n) then Some (a + n) else None)"
    and p1_index_eq: "p1_index X a = a div 2 ^ 12 mod 512"
    and p2_index_eq: "p2_index X a = a div 2 ^ 21 mod 512"
    and p3_index_eq: "p3_index X a = a div 2 ^ 30 mod 512"
    and p4_index_eq: "p4_index X a = a div 2 ^ 39 mod 512"
    and phys_new_eq: "phys_new X a = (if a < 2 ^ 52 then Some a else None)"
    and phys_add_eq: "phys_add X a n = (if a + n < 2 ^ 52 then Some (a + n) else None)"
    and page_containing_eq: "page_containing X a = round_down a 4096"
    and page_from_start_eq: "page_from_start X a = (if page_aligned a then Some a else None)"
    and page_add_eq:
      "page_add X a n = (if canonical (a + n * 4096) then Some (a + n * 4096) else None)"
    and frame_containing_eq: "frame_containing X a = round_down a 4096"
    and frame_from_start_eq: "frame_from_start X a = (if page_aligned a then Some a else None)"
    and frame_add_eq:
      "frame_add X a n = (if a + n * 4096 < 2 ^ 52 then Some (a + n * 4096) else None)"
    and pte_new_eq: "pte_new X = 0"
    and pte_is_unused_eq: "pte_is_unused X e \<longleftrightarrow> e = 0"
    and pte_flags_unused: "pte_flags X 0 = {}"
    and pte_frame_None: "PRESENT \<notin> pte_flags X e \<or> HUGE_PAGE \<in> pte_flags X e \<Longrightarrow> pte_frame X e = None"
    and pte_frame_present:
      "PRESENT \<in> pte_flags X e \<Longrightarrow> HUGE_PAGE \<notin> pte_flags X e \<Longrightarrow> pte_frame X e \<noteq> None"
    and pte_frame_aligned: "pte_frame X e = Some f \<Longrightarrow> page_aligned f \<and> f < 2 ^ 52"
    and pte_frame_set_frame:
      "page_aligned f \<Longrightarrow> f < 2 ^ 52 \<Longrightarrow> PRESENT \<in> fl \<Longrightarrow> HUGE_PAGE \<notin> fl \<Longrightarrow>
       pte_frame X (pte_set_frame X e f fl) = Some f"
    and pte_flags_set_frame:
      "page_aligned f \<Longrightarrow> f < 2 ^ 52 \<Longrightarrow> HUGE_PAGE \<notin> fl \<Longrightarrow> pte_flags X (pte_set_frame X e f fl) = fl"
    and pte_flags_set_flags: "pte_flags X (pte_set_flags X e fl) = fl"
begin

lemma pte_frame_Some_flags:
  "pte_frame X e = Some f \<Longrightarrow> PRESENT \<in> pte_flags X e \<and> HUGE_PAGE \<notin> pte_flags X e"
  using pte_frame_None by fastforce

lemma pte_set_frame_used:
  "page_aligned f \<Longrightarrow> f < 2 ^ 52 \<Longrightarrow> PRESENT \<in> fl \<Longrightarrow> HUGE_PAGE \<notin> fl \<Longrightarrow> pte_set_frame X e f fl \<noteq> 0"
  using pte_flags_set_frame [of f fl e] pte_flags_unused by force

lemma pte_frame_unused: "pte_frame X 0 = None"
  using pte_frame_None [of 0] by (simp add: pte_flags_unused)

lemmas crate_eqs =
  virt_try_new_eq virt_new_truncate_eq virt_add_eq phys_new_eq phys_add_eq page_containing_eq
  page_from_start_eq page_add_eq frame_containing_eq frame_from_start_eq frame_add_eq
  pte_new_eq pte_is_unused_eq

lemma align_up_4096:
  "align_up X a 4096 = (if round_up a 4096 < 2 ^ 64 then Some (round_up a 4096) else None)"
  using align_up_eq [of 12 a] by simp

lemma align_up_64:
  "align_up X a 64 = (if round_up a 64 < 2 ^ 64 then Some (round_up a 64) else None)"
  using align_up_eq [of 6 a] by simp

lemma align_up_512:
  "align_up X a 512 = (if round_up a 512 < 2 ^ 64 then Some (round_up a 512) else None)"
  using align_up_eq [of 9 a] by simp

lemma align_down_4096: "align_down X a 4096 = Some (round_down a 4096)"
  using align_down_eq [of 12 a] by simp

end

section \<open>The reference instance\<close>

fun flag_bit :: "pflag \<Rightarrow> nat" where
  "flag_bit PRESENT = 0"
| "flag_bit WRITABLE = 1"
| "flag_bit USER_ACCESSIBLE = 2"
| "flag_bit HUGE_PAGE = 7"
| "flag_bit GLOBAL = 8"

definition all_flags :: "pflag list" where
  "all_flags = [PRESENT, WRITABLE, USER_ACCESSIBLE, HUGE_PAGE, GLOBAL]"

definition flags_word :: "pflags \<Rightarrow> u64" where
  "flags_word fl = foldr (\<lambda>g w. if g \<in> fl then set_bit (flag_bit g) w else w) all_flags 0"

definition ref_flags :: "u64 \<Rightarrow> pflags" where
  "ref_flags e = set (filter (\<lambda>g. bit e (flag_bit g)) all_flags)"

definition addr_mask :: u64 where
  "addr_mask = 0x000FFFFFFFFFF000"

definition pow2 :: "nat \<Rightarrow> bool" where
  "pow2 n \<longleftrightarrow> n \<in> set (map (\<lambda>k. 2 ^ k) [0..<64])"

definition x86_ref :: x86 where
  "x86_ref = \<lparr>
     align_up = (\<lambda>a n. if pow2 n \<and> round_up a n < 2 ^ 64 then Some (round_up a n) else None),
     align_down = (\<lambda>a n. if pow2 n then Some (round_down a n) else None),
     virt_try_new = (\<lambda>a. if canonical a then Some a else None),
     virt_new_truncate = sign_extend47,
     virt_add = (\<lambda>a n. if canonical (a + n) then Some (a + n) else None),
     p1_index = (\<lambda>a. a div 2 ^ 12 mod 512),
     p2_index = (\<lambda>a. a div 2 ^ 21 mod 512),
     p3_index = (\<lambda>a. a div 2 ^ 30 mod 512),
     p4_index = (\<lambda>a. a div 2 ^ 39 mod 512),
     phys_new = (\<lambda>a. if a < 2 ^ 52 then Some a else None),
     phys_add = (\<lambda>a n. if a + n < 2 ^ 52 then Some (a + n) else None),
     page_containing = (\<lambda>a. round_down a 4096),
     page_from_start = (\<lambda>a. if page_aligned a then Some a else None),
     page_add = (\<lambda>a n. if canonical (a + n * 4096) then Some (a + n * 4096) else None),
     frame_containing = (\<lambda>a. round_down a 4096),
     frame_from_start = (\<lambda>a. if page_aligned a then Some a else None),
     frame_add = (\<lambda>a n. if a + n * 4096 < 2 ^ 52 then Some (a + n * 4096) else None),
     pte_new = 0,
     pte_is_unused = (\<lambda>e. e = 0),
     pte_frame = (\<lambda>e. if bit e 0 \<and> \<not> bit e 7 then Some (unat (e AND addr_mask)) else None),
     pte_flags = ref_flags,
     pte_set_frame = (\<lambda>e f fl. word_of_nat f AND addr_mask OR flags_word fl),
     pte_set_flags = (\<lambda>e fl. e AND addr_mask OR flags_word fl)\<rparr>"

lemma bit_addr_mask: "bit addr_mask n \<longleftrightarrow> 12 \<le> n \<and> n < 52"
proof -
  have "addr_mask = push_bit 12 (mask 40)"
    by (simp add: addr_mask_def push_bit_eq_mult mask_eq_exp_minus_1)
  then have "bit addr_mask n \<longleftrightarrow> bit (push_bit 12 (mask 40) :: u64) n" by simp
  also have "\<dots> \<longleftrightarrow> 12 \<le> n \<and> n < 52" by (auto simp: bit_simps)
  finally show ?thesis .
qed

lemma flag_bit_less: "flag_bit g < 12"
  by (cases g) auto

lemma mem_all_flags: "g \<in> set all_flags"
  by (cases g) (auto simp: all_flags_def)

lemma bit_foldr_set_bit:
  "bit (foldr (\<lambda>g w. if g \<in> fl then set_bit (flag_bit g) w else w) gs (0 :: u64)) n \<longleftrightarrow>
   (\<exists>g \<in> set gs. g \<in> fl \<and> n = flag_bit g)"
proof (induction gs)
  case (Cons g gs)
  have "flag_bit g < 64" using flag_bit_less [of g] by simp
  with Cons show ?case by (auto simp: bit_simps)
qed simp

lemma bit_flags_word: "bit (flags_word fl) n \<longleftrightarrow> (\<exists>g \<in> fl. n = flag_bit g)"
  by (auto simp: flags_word_def bit_foldr_set_bit mem_all_flags)

lemma inj_flag_bit: "flag_bit g = flag_bit h \<longleftrightarrow> g = h"
  by (cases g; cases h) auto

lemma ref_flags_iff: "g \<in> ref_flags e \<longleftrightarrow> bit e (flag_bit g)"
  by (auto simp: ref_flags_def mem_all_flags)

lemma ref_flags_or_mask: "ref_flags (e AND addr_mask OR flags_word fl) = fl"
proof (rule set_eqI)
  fix g show "g \<in> ref_flags (e AND addr_mask OR flags_word fl) \<longleftrightarrow> g \<in> fl"
    using flag_bit_less [of g]
    by (auto simp: ref_flags_iff bit_simps bit_addr_mask bit_flags_word inj_flag_bit)
qed

lemma and_mask_or_flags: "(e AND addr_mask OR flags_word fl) AND addr_mask = e AND addr_mask"
proof (rule bit_word_eqI)
  fix n assume "n < LENGTH(64)"
  show "bit ((e AND addr_mask OR flags_word fl) AND addr_mask) n = bit (e AND addr_mask) n"
    using flag_bit_less by (auto simp: bit_simps bit_addr_mask bit_flags_word dest: leD)
qed

lemma bit_aligned_addr:
  assumes "page_aligned f" "f < 2 ^ 52" "bit f n"
  shows "12 \<le> n \<and> n < 52"
proof -
  have "take_bit 12 f = 0" using assms(1) by (simp add: take_bit_eq_mod)
  then have "\<not> (n < 12 \<and> bit f n)" by (metis bit_take_bit_iff bit_0_eq bot_apply bot_bool_def)
  moreover have "take_bit 52 f = f" using assms(2) by (simp add: take_bit_nat_eq_self)
  then have "n < 52" using assms(3) by (metis bit_take_bit_iff)
  ultimately show ?thesis using assms(3) by simp
qed

lemma unat_of_nat_and_mask:
  assumes "page_aligned f" "f < 2 ^ 52"
  shows "unat (word_of_nat f AND addr_mask) = f"
proof -
  have u: "unat (word_of_nat f :: u64) = f"
    using assms(2) by (simp add: unsigned_of_nat take_bit_nat_eq_self)
  then have "bit (word_of_nat f :: u64) n \<Longrightarrow> bit f n" for n
    by (metis bit_unsigned_iff possible_bit_nat)
  then have "(word_of_nat f :: u64) AND addr_mask = word_of_nat f"
    using bit_aligned_addr [OF assms]
    by (intro bit_word_eqI) (auto simp: bit_and_iff bit_addr_mask)
  with u show ?thesis by simp
qed

lemma unat_and_mask: "page_aligned (unat (e AND addr_mask)) \<and> unat (e AND addr_mask) < 2 ^ 52"
proof
  have "take_bit 12 (e AND addr_mask) = 0"
    by (rule bit_word_eqI) (auto simp: bit_simps bit_addr_mask)
  then have "take_bit 12 (unat (e AND addr_mask)) = 0"
    by (simp flip: unsigned_take_bit_eq)
  then show "page_aligned (unat (e AND addr_mask))"
    by (simp add: take_bit_eq_mod)
next
  have "take_bit 52 (e AND addr_mask) = e AND addr_mask"
    by (rule bit_word_eqI) (auto simp: bit_simps bit_addr_mask)
  then have "take_bit 52 (unat (e AND addr_mask)) = unat (e AND addr_mask)"
    by (simp flip: unsigned_take_bit_eq)
  then show "unat (e AND addr_mask) < 2 ^ 52"
    by (metis take_bit_nat_less_exp)
qed

interpretation ref: x86_crate x86_ref
proof (unfold_locales, goal_cases)
  case (20) then show ?case by (simp add: x86_ref_def ref_flags_def)
next
  case (21 e) then show ?case by (auto simp: x86_ref_def ref_flags_iff)
next
  case (22 e) then show ?case by (auto simp: x86_ref_def ref_flags_iff)
next
  case (23 e f) then show ?case
    using unat_and_mask [of e] by (auto simp: x86_ref_def split: if_splits)
next
  case (24 f fl e)
  then have "PRESENT \<in> ref_flags (word_of_nat f AND addr_mask OR flags_word fl)"
    "HUGE_PAGE \<notin> ref_flags (word_of_nat f AND addr_mask OR flags_word fl)"
    by (simp_all add: ref_flags_or_mask)
  then show ?case using 24
    by (simp add: x86_ref_def ref_flags_iff and_mask_or_flags unat_of_nat_and_mask)
qed (simp_all add: x86_ref_def ref_flags_or_mask pow2_def)

end
