(* ===== verification/Bootboot.thy ===== *)
theory Bootboot
  imports X86_Crate
begin

text \<open>
  The boot information of \<open>kernel/src/bootboot.rs\<close>: the fields of \<open>BootBoot\<close>, the
  memory map that follows the structure in memory (\<open>bb_mmap i\<close> is the entry the code
  reaches with \<open>mmap_start.add(i)\<close>), and the accessors of a memory map entry.
\<close>

definition PAGE_SIZE :: nat where
  [simp]: "PAGE_SIZE = 0x1000"

section \<open>Memory map entries\<close>

record MMapEnt =
  ent_ptr :: u64
  ent_size :: u64

datatype MMapType = Used | Free | Acpi | MemoryMappedIO

definition get_type :: "MMapEnt \<Rightarrow> MMapType option" where
  "get_type e =
     (let t = ent_size e AND 0xF in
      if t = 0 then Some Used
      else if t = 1 then Some Free
      else if t = 2 then Some Acpi
      else if t = 3 then Some MemoryMappedIO
      else None)"

definition raw_size :: "MMapEnt \<Rightarrow> nat" where
  "raw_size e = unat (ent_size e AND 0xFFFFFFFFFFFFFFF0)"

definition phyadr :: "x86 \<Rightarrow> MMapEnt \<Rightarrow> nat option" where
  "phyadr X e = do {
     a \<leftarrow> align_up X (unat (ent_ptr e)) PAGE_SIZE;
     phys_new X a }"

definition mmap_size :: "x86 \<Rightarrow> MMapEnt \<Rightarrow> nat option" where
  "mmap_size X e = align_down X (raw_size e) PAGE_SIZE"

section \<open>The boot information\<close>

record BootBoot =
  bb_magic :: "u8 list"
  bb_size :: nat
  bb_protocol :: u8
  bb_fb_type :: u8
  bb_numcores :: nat
  bb_bspid :: nat
  bb_timezone :: int
  bb_datetime :: "u8 list"
  bb_initrd_ptr :: nat
  bb_initrd_size :: nat
  bb_fb_ptr :: nat
  bb_fb_size :: nat
  bb_fb_width :: nat
  bb_fb_height :: nat
  bb_fb_scanline :: nat
  bb_acpi_ptr :: nat
  bb_mmap :: "nat \<Rightarrow> MMapEnt"

text \<open>The sizes of the two packed structures, as the declarations lay them out.\<close>

definition sizeof_MMapEnt :: nat where
  [simp]: "sizeof_MMapEnt = 8 + 8"

definition sizeof_BootBoot :: nat where
  [simp]: "sizeof_BootBoot =
     4 + 4 + 1 + 1 + 2 + 2 + 2 + 8 + 8 + 8 + 8 + 4 + 4 + 4 + 4 + 64 + sizeof_MMapEnt"

section \<open>Behaviour of the accessors\<close>

lemma raw_size_eq: "raw_size e = unat (ent_size e) div 16 * 16"
proof -
  have "ent_size e AND 0xFFFFFFFFFFFFFFF0 = push_bit 4 (drop_bit 4 (ent_size e))"
  proof (rule bit_word_eqI)
    fix n assume "n < LENGTH(64)"
    have eq: "(0xFFFFFFFFFFFFFFF0 :: u64) = push_bit 4 (mask 60)"
      by (simp add: push_bit_eq_mult mask_eq_exp_minus_1)
    have "bit (0xFFFFFFFFFFFFFFF0 :: u64) n \<longleftrightarrow> 4 \<le> n"
      unfolding eq using \<open>n < LENGTH(64)\<close> by (auto simp: bit_simps)
    then show "bit (ent_size e AND 0xFFFFFFFFFFFFFFF0) n =
        bit (push_bit 4 (drop_bit 4 (ent_size e))) n"
      using \<open>n < LENGTH(64)\<close> by (auto simp: bit_simps)
  qed
  then have "raw_size e = unat (push_bit 4 (drop_bit 4 (ent_size e)))"
    by (simp add: raw_size_def)
  also have "\<dots> = push_bit 4 (drop_bit 4 (unat (ent_size e)))"
    by (rule bit_eqI) (auto simp only: bit_push_bit_iff bit_drop_bit_eq bit_unsigned_iff o_def
        possible_bit_nat possible_bit_word dest: bit_imp_le_length)
  also have "\<dots> = unat (ent_size e) div 16 * 16"
    by (simp add: push_bit_eq_mult drop_bit_eq_div)
  finally show ?thesis .
qed

context x86_crate
begin

lemma phyadr_Some:
  "phyadr X e = Some a \<longleftrightarrow> a = round_up (unat (ent_ptr e)) 4096 \<and> a < 2 ^ 52"
  by (auto simp: phyadr_def rust_simps align_up_4096 crate_eqs split: if_splits)

lemma mmap_size_eq: "mmap_size X e = Some (round_down (raw_size e) 4096)"
  by (simp add: mmap_size_def align_down_4096)

end

end
