(* ===== verification/Frame_Allocator.thy ===== *)
theory Frame_Allocator
  imports Prelude
begin

text \<open>
  The interface between the physical frame allocator and its clients (the page mapper, the
  task loader, the kernel heap): \<open>FrameAllocator\<close> and \<open>FrameDeallocator\<close> as
  \<open>kernel/src/mem/mod.rs\<close> calls them. \<open>avail s\<close> are the frames the allocator may hand
  out, \<open>owned s\<close> the frames it manages, \<open>inv\<close> its invariant. A client that keeps to this
  contract can never be given a frame twice.
\<close>

locale frame_allocator =
  fixes alloc :: "'s \<Rightarrow> (nat option \<times> 's) option"
    and free :: "nat \<Rightarrow> 's \<Rightarrow> 's option"
    and avail :: "'s \<Rightarrow> nat set"
    and owned :: "'s \<Rightarrow> nat set"
    and inv :: "'s \<Rightarrow> bool"
  assumes alloc_frame:
      "inv s \<Longrightarrow> avail s \<noteq> {} \<Longrightarrow>
       \<exists>f s'. alloc s = Some (Some f, s') \<and> f \<in> avail s \<and> avail s' = avail s - {f} \<and>
              owned s' = owned s \<and> inv s'"
    and alloc_none:
      "inv s \<Longrightarrow> avail s = {} \<Longrightarrow>
       \<exists>s'. alloc s = Some (None, s') \<and> avail s' = {} \<and> owned s' = owned s \<and> inv s'"
    and free_frame:
      "inv s \<Longrightarrow> f \<in> owned s \<Longrightarrow>
       \<exists>s'. free f s = Some s' \<and> avail s' = insert f (avail s) \<and> owned s' = owned s \<and> inv s'"
    and avail_owned: "inv s \<Longrightarrow> avail s \<subseteq> owned s"
    and avail_finite: "finite (avail s)"
begin

lemma alloc_total: "inv s \<Longrightarrow> \<exists>r s'. alloc s = Some (r, s') \<and> inv s' \<and> owned s' = owned s"
  using alloc_frame alloc_none by metis

lemma alloc_Some:
  assumes "inv s" "alloc s = Some (Some f, s')"
  shows "f \<in> avail s" "avail s' = avail s - {f}" "owned s' = owned s" "inv s'"
  using alloc_frame [OF assms(1)] alloc_none [OF assms(1)] assms(2)
  by (cases "avail s = {}"; fastforce)+

lemma alloc_None:
  assumes "inv s" "alloc s = Some (None, s')"
  shows "avail s = {}" "avail s' = {}" "owned s' = owned s" "inv s'"
  using alloc_frame [OF assms(1)] alloc_none [OF assms(1)] assms(2)
  by (cases "avail s = {}"; fastforce)+

lemma alloc_fresh:
  "inv s \<Longrightarrow> alloc s = Some (Some f, s') \<Longrightarrow> f \<in> owned s \<and> f \<notin> avail s'"
  using alloc_Some avail_owned by fastforce

text \<open>Two allocations in a row give different frames.\<close>

lemma alloc_twice:
  assumes "inv s" "alloc s = Some (Some f, s')" "alloc s' = Some (Some g, s'')"
  shows "f \<noteq> g"
  using alloc_Some [OF assms(1,2)] alloc_Some [OF _ assms(3)] by auto

text \<open>Giving back a list of frames makes exactly these available again.\<close>

lemma free_all:
  assumes "inv s" "set fs \<subseteq> owned s"
  shows "\<exists>s'. fold_opt free fs s = Some s' \<and> avail s' = avail s \<union> set fs \<and>
              owned s' = owned s \<and> inv s'"
  using assms
proof (induction fs arbitrary: s)
  case (Cons f fs)
  from free_frame [of s f] Cons.prems obtain t where t:
    "free f s = Some t" "avail t = insert f (avail s)" "owned t = owned s" "inv t" by auto
  with Cons.IH [of t] Cons.prems show ?case by auto
qed simp

text \<open>An allocated frame that is freed again leaves the allocator as it was.\<close>

lemma alloc_free:
  assumes "inv s" "alloc s = Some (Some f, s')"
  shows "\<exists>s''. free f s' = Some s'' \<and> avail s'' = avail s \<and> owned s'' = owned s \<and> inv s''"
  using alloc_Some [OF assms] avail_owned [OF assms(1)] free_frame [of s' f]
  by (metis insert_Diff subsetD)

end

end
