(* ===== verification/Phys.thy ===== *)
theory Phys
  imports Bootboot Frame_Allocator
begin

text \<open>
  The physical frame allocator of \<open>kernel/src/mem/phys.rs\<close>. A segment is a header
  followed in memory by its bitmap (\<open>bitmap()\<close> is the slice right behind the header), so
  the record \<open>segment\<close> has the bitmap as its last field; \<open>segments\<close> is the vector of
  references, each the address of the header and what it points to. \<open>init\<close> builds the
  headers from the memory map of the boot loader, \<open>allocate_frame\<close> and
  \<open>deallocate_frame\<close> are the two operations, \<open>palloc\<close>, \<open>pfree\<close> and \<open>pfree_all\<close> of
  \<open>kernel/src/mem/mod.rs\<close> take the lock (uncontended here) and call them.

  The abstraction is \<open>free_list\<close>: the frames whose bit is clear, in the order the
  allocator looks at them. Under the invariant \<open>phys_inv\<close> allocation pops the head of
  this list and freeing puts the frame back.
\<close>

section \<open>Segments\<close>

record segment =
  seg_magic :: nat
  seg_address :: nat
  seg_size :: nat
  seg_bitmap :: "u64 list"

definition MAGIC :: nat where
  "MAGIC = 0xA55AA55AA55AA55A"

definition sizeof_SegmentHeader :: nat where
  [simp]: "sizeof_SegmentHeader = 8 + 8 + 8"

definition segment_new :: "nat \<Rightarrow> nat \<Rightarrow> segment" where
  "segment_new address sz =
     \<lparr>seg_magic = MAGIC, seg_address = address, seg_size = sz, seg_bitmap = []\<rparr>"

definition segment_check :: "segment \<Rightarrow> unit option" where
  "segment_check s = rassert (seg_magic s = MAGIC)"

definition bitmap_size :: "x86 \<Rightarrow> segment \<Rightarrow> nat option" where
  "bitmap_size X s = do {
     n \<leftarrow> align_up X (seg_size s div PAGE_SIZE) 64;
     Some (n div 8) }"

definition bitmap_u64len :: "x86 \<Rightarrow> segment \<Rightarrow> nat option" where
  "bitmap_u64len X s = do { n \<leftarrow> bitmap_size X s; Some (n div 8) }"

definition in_range :: "x86 \<Rightarrow> segment \<Rightarrow> nat \<Rightarrow> bool option" where
  "in_range X s addr =
     (if seg_address s \<le> addr
      then do { e \<leftarrow> phys_add X (seg_address s) (seg_size s); Some (addr < e) }
      else Some False)"

record PhysicalFrameAllocator =
  segments :: "(nat \<times> segment) list"
  pfa_size :: nat
  phyframe :: nat

section \<open>Initialisation\<close>

text \<open>The first loop of \<open>init\<close>: one usable region of the memory map becomes one segment.\<close>

definition scan_entry ::
  "x86 \<Rightarrow> BootBoot \<Rightarrow> nat \<Rightarrow> segment list \<times> nat \<Rightarrow> (segment list \<times> nat) option" where
  "scan_entry X bb i = (\<lambda>(mmap_usable, header_total_size). do {
     let mmap = bb_mmap bb i;
     t \<leftarrow> get_type mmap;
     if t = Free \<and> PAGE_SIZE \<le> raw_size mmap then do {
       a \<leftarrow> phyadr X mmap;
       sz \<leftarrow> mmap_size X mmap;
       let segment_header = segment_new a sz;
       b \<leftarrow> bitmap_size X segment_header;
       n \<leftarrow> add64 b sizeof_SegmentHeader;
       total_size \<leftarrow> add64 header_total_size n;
       Some (mmap_usable @ [segment_header], total_size) }
     else Some (mmap_usable, header_total_size) })"

text \<open>The second loop: the first segment that is large enough gives its start to the header.\<close>

fun place_header :: "x86 \<Rightarrow> nat \<Rightarrow> segment list \<Rightarrow> (nat option \<times> segment list) option" where
  "place_header X header_total_size [] = Some (None, [])"
| "place_header X header_total_size (s # ss) = do {
     aligned \<leftarrow> align_up X header_total_size PAGE_SIZE;
     if aligned \<le> seg_size s then do {
       a \<leftarrow> phys_add X (seg_address s) aligned;
       sz \<leftarrow> sub64 (seg_size s) aligned;
       Some (Some (seg_address s), s\<lparr>seg_address := a, seg_size := sz\<rparr> # ss) }
     else do {
       (r, ss') \<leftarrow> place_header X header_total_size ss;
       Some (r, s # ss') } }"

text \<open>The third loop: every header is written at the cursor and its bitmap initialised.\<close>

definition setup_segment ::
  "x86 \<Rightarrow> nat \<Rightarrow> segment \<Rightarrow> nat \<times> (nat \<times> segment) list \<Rightarrow> (nat \<times> (nat \<times> segment) list) option" where
  "setup_segment X pmm_header segment_tmp = (\<lambda>(header_cursor, refs). do {
     ptr \<leftarrow> phys_add X pmm_header header_cursor;
     rassert (ptr \<noteq> 0);
     len \<leftarrow> bitmap_u64len X segment_tmp;
     let bitmap = replicate len (0 :: u64);
     rassert (bitmap \<noteq> []);
     let bitmap = bitmap[length bitmap - 1 := push_bit (seg_size segment_tmp div PAGE_SIZE mod 64) (- 1)];
     b \<leftarrow> bitmap_size X segment_tmp;
     n \<leftarrow> add64 b sizeof_SegmentHeader;
     cursor \<leftarrow> add64 header_cursor n;
     Some (cursor, refs @ [(ptr, segment_tmp\<lparr>seg_bitmap := bitmap\<rparr>)]) })"

definition phys_init :: "x86 \<Rightarrow> BootBoot \<Rightarrow> PhysicalFrameAllocator option" where
  "phys_init X bb = do {
     rest \<leftarrow> sub64 (bb_size bb) sizeof_BootBoot;
     let mmap_len = rest div sizeof_MMapEnt + 1;
     (mmap_usable, header_total_size) \<leftarrow> fold_opt (scan_entry X bb) (rev [0..<mmap_len]) ([], 0);
     (pmm, mmap_usable) \<leftarrow> place_header X header_total_size mmap_usable;
     pmm_header \<leftarrow> pmm;
     (header_cursor, refs) \<leftarrow> fold_opt (setup_segment X pmm_header) mmap_usable (0, []);
     f \<leftarrow> frame_from_start X pmm_header;
     Some \<lparr>segments = refs, pfa_size = header_total_size, phyframe = f\<rparr> }"

section \<open>Allocation\<close>

text \<open>\<open>u64::trailing_ones\<close>: the number of one bits before the lowest zero bit.\<close>

definition trailing_ones :: "u64 \<Rightarrow> nat" where
  "trailing_ones w = length (takeWhile (bit w) [0..<64])"

fun alloc_segments ::
  "x86 \<Rightarrow> (nat \<times> segment) list \<Rightarrow> (nat option \<times> (nat \<times> segment) list) option" where
  "alloc_segments X [] = Some (None, [])"
| "alloc_segments X ((p, s) # rest) = do {
     segment_check s;
     (case find_index (\<lambda>w. w \<noteq> - 1) (seg_bitmap s) of
        None \<Rightarrow> do {
          (r, rest') \<leftarrow> alloc_segments X rest;
          Some (r, (p, s) # rest') }
      | Some page_windex \<Rightarrow> do {
          let control_word = seg_bitmap s ! page_windex;
          let page_bitindex = trailing_ones control_word;
          rassert (page_bitindex \<noteq> 64);
          w64 \<leftarrow> mul64 64 page_windex;
          page_index \<leftarrow> add64 w64 page_bitindex;
          let s' = s\<lparr>seg_bitmap := (seg_bitmap s)[page_windex := control_word OR push_bit page_bitindex 1]\<rparr>;
          off \<leftarrow> mul64 page_index PAGE_SIZE;
          frame_start \<leftarrow> phys_add X (seg_address s) off;
          Some (Some (frame_containing X frame_start), (p, s') # rest) }) }"

definition allocate_frame ::
  "x86 \<Rightarrow> PhysicalFrameAllocator \<Rightarrow> (nat option \<times> PhysicalFrameAllocator) option" where
  "allocate_frame X pfa = do {
     (r, segs) \<leftarrow> alloc_segments X (segments pfa);
     Some (r, pfa\<lparr>segments := segs\<rparr>) }"

section \<open>Deallocation\<close>

definition clear_page :: "x86 \<Rightarrow> nat \<Rightarrow> segment \<Rightarrow> segment option" where
  "clear_page X frame s = do {
     frame_offset \<leftarrow> sub64 frame (seg_address s);
     let page_index = frame_offset div PAGE_SIZE;
     let page_windex = page_index div 64;
     let page_bitindex = page_index mod 64;
     control_word \<leftarrow> get (seg_bitmap s) page_windex;
     bm \<leftarrow> put (seg_bitmap s) page_windex (control_word AND NOT (push_bit page_bitindex 1));
     Some (s\<lparr>seg_bitmap := bm\<rparr>) }"

fun dealloc_segments ::
  "x86 \<Rightarrow> nat \<Rightarrow> (nat \<times> segment) list \<Rightarrow> (nat \<times> segment) list option" where
  "dealloc_segments X frame [] = Some []"
| "dealloc_segments X frame ((p, s) # rest) = do {
     inside \<leftarrow> in_range X s frame;
     if inside then do { s' \<leftarrow> clear_page X frame s; Some ((p, s') # rest) }
     else do { rest' \<leftarrow> dealloc_segments X frame rest; Some ((p, s) # rest') } }"

definition deallocate_frame ::
  "x86 \<Rightarrow> nat \<Rightarrow> PhysicalFrameAllocator \<Rightarrow> PhysicalFrameAllocator option" where
  "deallocate_frame X frame pfa = do {
     segs \<leftarrow> dealloc_segments X frame (segments pfa);
     Some (pfa\<lparr>segments := segs\<rparr>) }"

section \<open>The free list\<close>

definition seg_pages :: "segment \<Rightarrow> nat" where
  "seg_pages s = seg_size s div 4096"

definition seg_bit :: "segment \<Rightarrow> nat \<Rightarrow> bool" where
  "seg_bit s i \<longleftrightarrow> bit (seg_bitmap s ! (i div 64)) (i mod 64)"

definition seg_frame :: "segment \<Rightarrow> nat \<Rightarrow> nat" where
  "seg_frame s i = seg_address s + i * 4096"

definition seg_free :: "segment \<Rightarrow> nat list" where
  "seg_free s = map (seg_frame s) (filter (\<lambda>i. \<not> seg_bit s i) [0..<seg_pages s])"

fun segs_free :: "(nat \<times> segment) list \<Rightarrow> nat list" where
  "segs_free [] = []"
| "segs_free ((p, s) # segs) = seg_free s @ segs_free segs"

definition free_list :: "PhysicalFrameAllocator \<Rightarrow> nat list" where
  "free_list pfa = segs_free (segments pfa)"

definition seg_managed :: "segment \<Rightarrow> nat list" where
  "seg_managed s = map (seg_frame s) [0..<seg_pages s]"

fun segs_managed :: "(nat \<times> segment) list \<Rightarrow> nat list" where
  "segs_managed [] = []"
| "segs_managed ((p, s) # segs) = seg_managed s @ segs_managed segs"

definition managed_list :: "PhysicalFrameAllocator \<Rightarrow> nat list" where
  "managed_list pfa = segs_managed (segments pfa)"

definition managed :: "PhysicalFrameAllocator \<Rightarrow> nat set" where
  "managed pfa = set (managed_list pfa)"

definition free_frames :: "PhysicalFrameAllocator \<Rightarrow> nat set" where
  "free_frames pfa = set (free_list pfa)"

definition used_frames :: "PhysicalFrameAllocator \<Rightarrow> nat set" where
  "used_frames pfa = managed pfa - free_frames pfa"

text \<open>
  A segment is well formed when its magic is intact, its bounds are page aligned physical
  addresses, its bitmap has one bit for every page rounded up to whole words, and the bits
  beyond the last page are set.
\<close>

definition seg_ok :: "segment \<Rightarrow> bool" where
  "seg_ok s \<longleftrightarrow>
     seg_magic s = MAGIC \<and> page_aligned (seg_address s) \<and> page_aligned (seg_size s) \<and>
     seg_address s + seg_size s < 2 ^ 52 \<and>
     length (seg_bitmap s) * 64 = round_up (seg_pages s) 64 \<and>
     (\<forall>i \<in> {seg_pages s..<length (seg_bitmap s) * 64}. seg_bit s i)"

definition seg_disjoint :: "segment \<Rightarrow> segment \<Rightarrow> bool" where
  "seg_disjoint s t \<longleftrightarrow>
     seg_address s + seg_size s \<le> seg_address t \<or> seg_address t + seg_size t \<le> seg_address s"

definition phys_inv :: "PhysicalFrameAllocator \<Rightarrow> bool" where
  "phys_inv pfa \<longleftrightarrow>
     (\<forall>(p, s) \<in> set (segments pfa). seg_ok s) \<and>
     sorted_wrt (\<lambda>(p, s) (q, t). seg_disjoint s t) (segments pfa)"

subsection \<open>Bits of a bitmap\<close>

lemma word_not_max: "w \<noteq> - 1 \<longleftrightarrow> (\<exists>i<64. \<not> bit w i)" for w :: u64
proof
  assume "w \<noteq> - 1"
  then obtain n where "n < LENGTH(64)" "bit w n \<noteq> bit (- 1 :: u64) n"
    by (metis bit_word_eqI)
  then show "\<exists>i<64. \<not> bit w i" by (auto simp: bit_minus_1_iff)
qed (auto simp: bit_minus_1_iff)

lemma trailing_ones_first_zero:
  fixes w :: u64
  assumes "w \<noteq> - 1"
  shows "trailing_ones w < 64" "\<not> bit w (trailing_ones w)" "j < trailing_ones w \<Longrightarrow> bit w j"
proof -
  from assms obtain i where i: "i < 64" "\<not> bit w i" by (auto simp: word_not_max)
  then have "takeWhile (bit w) [0..<64] \<noteq> [0..<64]"
    by (auto simp: takeWhile_eq_all_conv)
  then show lt: "trailing_ones w < 64"
    using length_takeWhile_le [of "bit w" "[0..<64]"] takeWhile_eq_take [of "bit w" "[0..<64]"]
    unfolding trailing_ones_def by (metis diff_zero length_upt nat_less_le take_all_iff)
  show "\<not> bit w (trailing_ones w)"
    using nth_length_takeWhile [of "bit w" "[0..<64]"] lt by (simp add: trailing_ones_def)
  show "bit w j" if "j < trailing_ones w" for j
  proof -
    have "takeWhile (bit w) [0..<64] ! j = j"
      using that lt takeWhile_nth [of j "bit w" "[0..<64]"] by (simp add: trailing_ones_def)
    then show ?thesis
      using that by (metis nth_mem set_takeWhileD trailing_ones_def)
  qed
qed

lemma seg_bit_update:
  assumes "w < length (seg_bitmap s)"
  shows "seg_bit (s\<lparr>seg_bitmap := (seg_bitmap s)[w := v]\<rparr>) i =
         (if i div 64 = w then bit v (i mod 64) else seg_bit s i)"
  using assms by (auto simp: seg_bit_def nth_list_update)

lemma split64: "(i :: nat) div 64 = w \<and> i mod 64 = b \<longleftrightarrow> b < 64 \<and> i = 64 * w + b"
  by auto

lemma filter_upt_least:
  fixes P :: "nat \<Rightarrow> bool"
  assumes "i < n" "P i" "\<And>j. j < i \<Longrightarrow> \<not> P j"
  shows "filter P [0..<n] = i # filter P [Suc i..<n]"
    and "filter (\<lambda>j. P j \<and> j \<noteq> i) [0..<n] = filter P [Suc i..<n]"
proof -
  have upt: "[0..<n] = [0..<i] @ i # [Suc i..<n]"
    using assms(1) upt_add_eq_append [of 0 i "n - i"] by (simp add: upt_conv_Cons)
  have e: "filter P [0..<i] = []" using assms(3) by (auto simp: filter_empty_conv)
  show "filter P [0..<n] = i # filter P [Suc i..<n]"
    unfolding upt using e assms(2) by simp
  have "filter (\<lambda>j. P j \<and> j \<noteq> i) [0..<i] = []" using assms(3) by (auto simp: filter_empty_conv)
  moreover have "filter (\<lambda>j. P j \<and> j \<noteq> i) [Suc i..<n] = filter P [Suc i..<n]"
    by (rule filter_cong) auto
  ultimately show "filter (\<lambda>j. P j \<and> j \<noteq> i) [0..<n] = filter P [Suc i..<n]"
    unfolding upt by simp
qed

lemma seg_ok_bitmap_bounds:
  assumes "seg_ok s"
  shows "seg_pages s \<le> length (seg_bitmap s) * 64"
    and "i < seg_pages s \<Longrightarrow> seg_frame s i < 2 ^ 52 \<and> page_aligned (seg_frame s i)"
    and "seg_pages s * 4096 = seg_size s"
proof -
  show "seg_pages s \<le> length (seg_bitmap s) * 64"
    using assms round_up_ge [of 64 "seg_pages s"] by (simp add: seg_ok_def)
  show sz: "seg_pages s * 4096 = seg_size s"
    using assms by (auto simp: seg_ok_def seg_pages_def)
  assume "i < seg_pages s"
  then have "i * 4096 < seg_size s" unfolding sz [symmetric] by simp
  then show "seg_frame s i < 2 ^ 52 \<and> page_aligned (seg_frame s i)"
    using assms by (auto simp: seg_ok_def seg_frame_def)
qed

subsection \<open>Allocation inside one segment\<close>

lemma first_clear_bit:
  assumes "seg_ok s" and w: "find_index (\<lambda>w. w \<noteq> - 1) (seg_bitmap s) = Some w"
  defines "b \<equiv> trailing_ones (seg_bitmap s ! w)"
  shows "64 * w + b < seg_pages s" "\<not> seg_bit s (64 * w + b)" "j < 64 * w + b \<Longrightarrow> seg_bit s j"
    and "w < length (seg_bitmap s)" "b < 64"
proof -
  from w have wl: "w < length (seg_bitmap s)" and nm: "seg_bitmap s ! w \<noteq> - 1"
    and full: "\<And>v. v < w \<Longrightarrow> seg_bitmap s ! v = - 1"
    by (auto simp: find_index_Some)
  note t = trailing_ones_first_zero [OF nm, folded b_def]
  show "w < length (seg_bitmap s)" "b < 64" by (fact wl t(1))+
  show clear: "\<not> seg_bit s (64 * w + b)" using t(1,2) by (simp add: seg_bit_def)
  have "64 * w + b < length (seg_bitmap s) * 64" using wl t(1) by linarith
  with clear assms(1) show "64 * w + b < seg_pages s"
    by (auto simp: seg_ok_def not_less)
  show "seg_bit s j" if "j < 64 * w + b" for j
  proof (cases "j div 64 < w")
    case True
    then show ?thesis by (simp add: seg_bit_def full bit_minus_1_iff)
  next
    case False
    have "j div 64 < Suc w" using that t(1) by (simp add: less_mult_imp_div_less)
    with False have "j div 64 = w" by simp
    moreover from this have "j mod 64 < b" using that by (metis div_mult_mod_eq mult.commute nat_add_left_cancel_less)
    ultimately show ?thesis using t(3) by (simp add: seg_bit_def)
  qed
qed

lemma seg_take_first:
  assumes "seg_ok s" and w: "find_index (\<lambda>w. w \<noteq> - 1) (seg_bitmap s) = Some w"
  defines "b \<equiv> trailing_ones (seg_bitmap s ! w)"
  defines "s' \<equiv> s\<lparr>seg_bitmap := (seg_bitmap s)[w := seg_bitmap s ! w OR push_bit b 1]\<rparr>"
  shows "seg_free s = seg_frame s (64 * w + b) # seg_free s'" and "seg_ok s'"
proof -
  note f = first_clear_bit [OF assms(1) w, folded b_def]
  have bit': "seg_bit s' i \<longleftrightarrow> seg_bit s i \<or> i = 64 * w + b" for i
  proof (cases "i div 64 = w")
    case True
    have "(64 * w + b) mod 64 = b" using f(5) by simp
    with True have "i = 64 * w + b \<longleftrightarrow> i mod 64 = b"
      using mult_div_mod_eq [of 64 i] by metis
    with True f(4,5) show ?thesis
      by (simp add: s'_def seg_bit_def bit_or_iff bit_exp_iff)
  next
    case False
    with f(4,5) show ?thesis by (auto simp: s'_def seg_bit_def)
  qed
  have same: "seg_pages s' = seg_pages s" "seg_frame s' = seg_frame s"
    by (auto simp: s'_def seg_pages_def seg_frame_def)
  have "filter (\<lambda>i. \<not> seg_bit s i) [0..<seg_pages s] =
      (64 * w + b) # filter (\<lambda>i. \<not> seg_bit s i) [Suc (64 * w + b)..<seg_pages s]"
    using f by (intro filter_upt_least(1)) auto
  moreover have "filter (\<lambda>i. \<not> seg_bit s' i) [0..<seg_pages s] =
      filter (\<lambda>i. \<not> seg_bit s i) [Suc (64 * w + b)..<seg_pages s]"
    using filter_upt_least(2) [of "64 * w + b" "seg_pages s" "\<lambda>i. \<not> seg_bit s i"] f
    by (simp add: bit')
  ultimately show "seg_free s = seg_frame s (64 * w + b) # seg_free s'"
    by (simp add: seg_free_def same)
  show "seg_ok s'"
    using assms(1) by (auto simp: seg_ok_def bit' same) (auto simp: s'_def)
qed

lemma seg_free_full:
  assumes "seg_ok s" and "find_index (\<lambda>w. w \<noteq> - 1) (seg_bitmap s) = None"
  shows "seg_free s = []"
proof -
  have "seg_bit s i" if "i < seg_pages s" for i
  proof -
    have "i div 64 < length (seg_bitmap s)"
      using that seg_ok_bitmap_bounds(1) [OF assms(1)] by (simp add: less_mult_imp_div_less)
    then have "seg_bitmap s ! (i div 64) = - 1"
      using assms(2) by (auto simp: find_index_None)
    then show ?thesis by (simp add: seg_bit_def bit_minus_1_iff)
  qed
  then show ?thesis by (simp add: seg_free_def filter_empty_conv)
qed

subsection \<open>The whole list of segments\<close>

text \<open>What an operation on the bitmaps leaves alone: the header addresses, bounds and magics.\<close>

definition seg_shape :: "nat \<times> segment \<Rightarrow> nat \<times> segment" where
  "seg_shape = (\<lambda>(p, s). (p, s\<lparr>seg_bitmap := []\<rparr>))"

lemma shape_fields:
  assumes "seg_shape (p, s) = seg_shape (q, t)"
  shows "p = q" "seg_address s = seg_address t" "seg_size s = seg_size t" "seg_magic s = seg_magic t"
  using assms by (cases s, cases t, simp add: seg_shape_def)+

lemma shape_managed:
  "map seg_shape xs = map seg_shape ys \<Longrightarrow>
   segs_managed xs = segs_managed ys"
proof (induction xs ys rule: list_induct2')
  case (4 x xs y ys)
  obtain p s q t where xy: "x = (p, s)" "y = (q, t)" by (metis surj_pair)
  from 4 shape_fields [of p s q t] have "seg_managed s = seg_managed t"
    by (simp add: xy seg_managed_def seg_pages_def seg_frame_def fun_eq_iff)
  with 4 show ?case by (simp add: xy)
qed auto

lemma shape_disjoint:
  assumes "map seg_shape xs = map seg_shape ys"
    and "sorted_wrt (\<lambda>(p, s) (q, t). seg_disjoint s t) xs"
  shows "sorted_wrt (\<lambda>(p, s) (q, t). seg_disjoint s t) ys"
proof -
  let ?R = "\<lambda>(p, s) (q, t). seg_disjoint s t"
  have eq: "?R (seg_shape x) (seg_shape y) = ?R x y" for x y
    by (auto simp: seg_shape_def seg_disjoint_def split: prod.splits)
  have "sorted_wrt ?R (map seg_shape zs) = sorted_wrt ?R zs" for zs
    by (simp only: sorted_wrt_map eq)
  with assms show ?thesis by metis
qed

context x86_crate
begin

lemma alloc_segments_spec:
  assumes "\<forall>(p, s) \<in> set segs. seg_ok s"
  shows "\<exists>segs'. alloc_segments X segs =
           Some (case segs_free segs of [] \<Rightarrow> None | f # _ \<Rightarrow> Some f, segs') \<and>
         segs_free segs' = tl (segs_free segs) \<and>
         (\<forall>(p, s) \<in> set segs'. seg_ok s) \<and> map seg_shape segs' = map seg_shape segs"
  using assms
proof (induction segs)
  case (Cons x segs)
  obtain p s where x: "x = (p, s)" by (cases x)
  with Cons.prems have ok: "seg_ok s" by simp
  then have chk: "segment_check s = Some ()"
    by (simp add: segment_check_def seg_ok_def)
  show ?case
  proof (cases "find_index (\<lambda>w. w \<noteq> - 1) (seg_bitmap s)")
    case None
    with Cons ok chk show ?thesis
      by (auto simp: x seg_free_full)
  next
    case (Some w)
    define b where "b = trailing_ones (seg_bitmap s ! w)"
    note f = first_clear_bit [OF ok Some, folded b_def]
    note t = seg_take_first [OF ok Some, folded b_def]
    have fr: "seg_frame s (64 * w + b) < 2 ^ 52 \<and> page_aligned (seg_frame s (64 * w + b))"
      using f(1) seg_ok_bitmap_bounds(2) [OF ok] by blast
    then have fits: "(64 * w + b) * 4096 < 2 ^ 52" and "64 * w + b < 2 ^ 52"
      by (simp_all add: seg_frame_def)
    then have "mul64 64 w = Some (64 * w)" "add64 (64 * w) b = Some (64 * w + b)"
      "mul64 (64 * w + b) 4096 = Some ((64 * w + b) * 4096)"
      by (auto simp: rust_simps)
    moreover have "phys_add X (seg_address s) ((64 * w + b) * 4096) = Some (seg_frame s (64 * w + b))"
      using fr by (simp add: crate_eqs seg_frame_def)
    moreover have "frame_containing X (seg_frame s (64 * w + b)) = seg_frame s (64 * w + b)"
      using fr by (simp add: crate_eqs round_down_id mod_0_imp_dvd)
    ultimately show ?thesis
      using Some chk f(5) t Cons.prems
      by (simp add: x Let_def rassert_def flip: b_def) (auto simp: seg_shape_def)
  qed
qed simp

lemma allocate_frame_spec:
  assumes "phys_inv pfa"
  obtains pfa' where
    "allocate_frame X pfa = Some (case free_list pfa of [] \<Rightarrow> None | f # _ \<Rightarrow> Some f, pfa')"
    "free_list pfa' = tl (free_list pfa)" "managed_list pfa' = managed_list pfa" "phys_inv pfa'"
    "map seg_shape (segments pfa') = map seg_shape (segments pfa)"
proof -
  from assms have "\<forall>(p, s) \<in> set (segments pfa). seg_ok s" by (simp add: phys_inv_def)
  from alloc_segments_spec [OF this] obtain segs' where segs':
    "alloc_segments X (segments pfa) = Some (case free_list pfa of [] \<Rightarrow> None | f # _ \<Rightarrow> Some f, segs')"
    "segs_free segs' = tl (free_list pfa)"
    "\<forall>(p, s) \<in> set segs'. seg_ok s" "map seg_shape segs' = map seg_shape (segments pfa)"
    by (auto simp: free_list_def)
  show ?thesis
  proof (rule that [of "pfa\<lparr>segments := segs'\<rparr>"])
    show "phys_inv (pfa\<lparr>segments := segs'\<rparr>)"
      using assms segs'(3) shape_disjoint [OF segs'(4) [symmetric]] by (simp add: phys_inv_def)
  qed (use segs' shape_managed [OF segs'(4)] in
      \<open>simp_all add: allocate_frame_def free_list_def managed_list_def\<close>)
qed

end

subsection \<open>Frames of different segments are different\<close>

lemma seg_managed_range:
  "seg_ok s \<Longrightarrow> f \<in> set (seg_managed s) \<Longrightarrow> seg_address s \<le> f \<and> f + 4096 \<le> seg_address s + seg_size s"
  using seg_ok_bitmap_bounds(3) [of s] by (auto simp: seg_managed_def seg_frame_def)

lemma seg_managed_iff:
  assumes "seg_ok s" "page_aligned f"
  shows "f \<in> set (seg_managed s) \<longleftrightarrow> seg_address s \<le> f \<and> f < seg_address s + seg_size s"
proof
  assume "f \<in> set (seg_managed s)"
  with seg_managed_range [OF assms(1)] show "seg_address s \<le> f \<and> f < seg_address s + seg_size s"
    by fastforce
next
  assume r: "seg_address s \<le> f \<and> f < seg_address s + seg_size s"
  define i where "i = (f - seg_address s) div 4096"
  have "page_aligned (seg_address s)" using assms(1) by (simp add: seg_ok_def)
  then have "page_aligned (f - seg_address s)"
    using assms(2) r by (metis dvd_diff_nat mod_eq_0_iff_dvd)
  then have f: "f = seg_frame s i" using r by (auto simp: i_def seg_frame_def)
  moreover have "i < seg_pages s"
    using r f seg_ok_bitmap_bounds(3) [OF assms(1)] by (simp add: seg_frame_def)
  ultimately show "f \<in> set (seg_managed s)" by (auto simp: seg_managed_def)
qed

lemma distinct_seg_managed: "distinct (seg_managed s)"
  by (auto simp: seg_managed_def distinct_map inj_on_def seg_frame_def)

lemma seg_free_subset: "set (seg_free s) \<subseteq> set (seg_managed s)"
  by (auto simp: seg_free_def seg_managed_def)

lemma distinct_seg_free: "distinct (seg_free s)"
  by (auto simp: seg_free_def distinct_map inj_on_def seg_frame_def)

lemma managed_disjoint:
  assumes "seg_ok s" "seg_ok t" "seg_disjoint s t"
  shows "set (seg_managed s) \<inter> set (seg_managed t) = {}"
  using assms seg_managed_range [OF assms(1)] seg_managed_range [OF assms(2)]
  by (fastforce simp: seg_disjoint_def)

lemma distinct_concat_segs:
  assumes "\<forall>(p, s) \<in> set segs. seg_ok s"
    and "sorted_wrt (\<lambda>(p, s) (q, t). seg_disjoint s t) segs"
    and "\<And>s. distinct (g s)" "\<And>s. set (g s) \<subseteq> set (seg_managed s)"
  shows "distinct (concat (map (\<lambda>(p, s). g s) segs))"
  using assms(1,2)
proof (induction segs)
  case (Cons x segs)
  obtain p s where x: "x = (p, s)" by (cases x)
  have "set (g s) \<inter> set (g t) = {}" if "(q, t) \<in> set segs" for q t
  proof -
    have "seg_ok s" "seg_ok t" "seg_disjoint s t" using Cons.prems that by (auto simp: x)
    from managed_disjoint [OF this] assms(4) show ?thesis by blast
  qed
  with Cons show ?case by (auto simp: x assms(3))
qed simp

lemma segs_free_concat: "segs_free segs = concat (map (\<lambda>(p, s). seg_free s) segs)"
  by (induction segs rule: segs_free.induct) auto

lemma segs_managed_concat: "segs_managed segs = concat (map (\<lambda>(p, s). seg_managed s) segs)"
  by (induction segs rule: segs_managed.induct) auto

lemma distinct_managed_list: "phys_inv pfa \<Longrightarrow> distinct (managed_list pfa)"
  unfolding managed_list_def segs_managed_concat phys_inv_def
  by (rule distinct_concat_segs) (auto simp: distinct_seg_managed)

lemma distinct_free_list: "phys_inv pfa \<Longrightarrow> distinct (free_list pfa)"
  unfolding free_list_def segs_free_concat phys_inv_def
  by (rule distinct_concat_segs) (auto simp: distinct_seg_free dest: subsetD [OF seg_free_subset])

lemma free_subset_managed: "free_frames pfa \<subseteq> managed pfa"
  using seg_free_subset
  by (fastforce simp: free_frames_def managed_def free_list_def managed_list_def segs_free_concat
      segs_managed_concat)

lemma managed_frame: "phys_inv pfa \<Longrightarrow> f \<in> managed pfa \<Longrightarrow> f < 2 ^ 52 \<and> page_aligned f"
  using seg_ok_bitmap_bounds(2)
  by (fastforce simp: phys_inv_def managed_def managed_list_def segs_managed_concat seg_managed_def)

subsection \<open>Freeing\<close>

lemma seg_clear:
  assumes "seg_ok s" "i < seg_pages s"
  defines "w \<equiv> i div 64" and "b \<equiv> i mod 64"
  defines "s' \<equiv> s\<lparr>seg_bitmap := (seg_bitmap s)[w := seg_bitmap s ! w AND NOT (push_bit b 1)]\<rparr>"
  shows "set (seg_free s') = insert (seg_frame s i) (set (seg_free s))" "seg_ok s'"
    "w < length (seg_bitmap s)"
proof -
  show w: "w < length (seg_bitmap s)"
    using assms(2) seg_ok_bitmap_bounds(1) [OF assms(1)]
    by (simp add: w_def less_mult_imp_div_less)
  have b: "b < 64" by (simp add: b_def)
  have bit': "seg_bit s' j \<longleftrightarrow> seg_bit s j \<and> j \<noteq> i" for j
  proof (cases "j div 64 = w")
    case True
    then have "j = i \<longleftrightarrow> j mod 64 = b"
      unfolding w_def b_def by (metis mult_div_mod_eq)
    with True w b show ?thesis
      by (simp add: s'_def seg_bit_def bit_and_iff bit_not_iff bit_exp_iff)
  next
    case False
    then have "j \<noteq> i" by (auto simp: w_def)
    with False w show ?thesis by (simp add: s'_def seg_bit_def)
  qed
  have same: "seg_pages s' = seg_pages s" "seg_frame s' = seg_frame s"
    by (auto simp: s'_def seg_pages_def seg_frame_def)
  show "set (seg_free s') = insert (seg_frame s i) (set (seg_free s))"
    using assms(2) by (auto simp: seg_free_def same bit')
  show "seg_ok s'"
    using assms(1,2) by (auto simp: seg_ok_def bit' same) (auto simp: s'_def)
qed

context x86_crate
begin

lemma in_range_eq:
  "seg_ok s \<Longrightarrow> in_range X s f = Some (seg_address s \<le> f \<and> f < seg_address s + seg_size s)"
  by (auto simp: in_range_def crate_eqs seg_ok_def)

lemma clear_page_spec:
  assumes "seg_ok s" "page_aligned f" "f \<in> set (seg_managed s)"
  obtains s' where "clear_page X f s = Some s'" "seg_ok s'"
    "set (seg_free s') = insert f (set (seg_free s))" "seg_shape (p, s') = seg_shape (p, s)"
proof -
  from assms(3) obtain i where i: "i < seg_pages s" "f = seg_frame s i"
    by (auto simp: seg_managed_def)
  note c = seg_clear [OF assms(1) i(1)]
  have "sub64 f (seg_address s) = Some (i * 4096)"
    by (simp add: i(2) seg_frame_def sub64_def)
  with c(3) show ?thesis
    by (intro that [OF _ c(2)]) (simp_all add: clear_page_def Let_def c(1) i(2) seg_shape_def del: push_bit_of_1)
qed

lemma dealloc_segments_spec:
  assumes "\<forall>(p, s) \<in> set segs. seg_ok s" "page_aligned f"
  shows "\<exists>segs'. dealloc_segments X f segs = Some segs' \<and>
         (\<forall>(p, s) \<in> set segs'. seg_ok s) \<and> map seg_shape segs' = map seg_shape segs \<and>
         (f \<in> set (segs_managed segs) \<longrightarrow> set (segs_free segs') = insert f (set (segs_free segs))) \<and>
         (f \<notin> set (segs_managed segs) \<longrightarrow> segs' = segs)"
  using assms(1)
proof (induction segs)
  case (Cons x segs)
  obtain p s where x: "x = (p, s)" by (cases x)
  with Cons.prems have ok: "seg_ok s" by simp
  note iff = seg_managed_iff [OF ok assms(2)]
  show ?case
  proof (cases "f \<in> set (seg_managed s)")
    case True
    from clear_page_spec [OF ok assms(2) True, of p] obtain s' where s':
      "clear_page X f s = Some s'" "seg_ok s'" "set (seg_free s') = insert f (set (seg_free s))"
      "seg_shape (p, s') = seg_shape (p, s)" by metis
    with True iff Cons.prems show ?thesis by (auto simp: x in_range_eq [OF ok])
  next
    case False
    with iff have "in_range X s f = Some False" by (simp add: in_range_eq [OF ok])
    moreover from Cons obtain segs' where "dealloc_segments X f segs = Some segs'"
      "\<forall>(p, s) \<in> set segs'. seg_ok s" "map seg_shape segs' = map seg_shape segs"
      "f \<in> set (segs_managed segs) \<longrightarrow> set (segs_free segs') = insert f (set (segs_free segs))"
      "f \<notin> set (segs_managed segs) \<longrightarrow> segs' = segs" by auto
    ultimately show ?thesis
      using False ok by (intro exI [of _ "(p, s) # segs'"]) (auto simp: x)
  qed
qed simp

lemma deallocate_frame_spec:
  assumes "phys_inv pfa" "page_aligned f"
  obtains pfa' where "deallocate_frame X f pfa = Some pfa'" "phys_inv pfa'"
    "managed_list pfa' = managed_list pfa"
    "f \<in> managed pfa \<Longrightarrow> free_frames pfa' = insert f (free_frames pfa)"
    "f \<notin> managed pfa \<Longrightarrow> pfa' = pfa"
    "map seg_shape (segments pfa') = map seg_shape (segments pfa)"
proof -
  from assms(1) have "\<forall>(p, s) \<in> set (segments pfa). seg_ok s" by (simp add: phys_inv_def)
  from dealloc_segments_spec [OF this assms(2)] obtain segs' where segs':
    "dealloc_segments X f (segments pfa) = Some segs'" "\<forall>(p, s) \<in> set segs'. seg_ok s"
    "map seg_shape segs' = map seg_shape (segments pfa)"
    "f \<in> managed pfa \<Longrightarrow> set (segs_free segs') = insert f (free_frames pfa)"
    "f \<notin> managed pfa \<Longrightarrow> segs' = segments pfa"
    by (auto simp: managed_def managed_list_def free_frames_def free_list_def)
  show ?thesis
  proof (rule that [of "pfa\<lparr>segments := segs'\<rparr>"])
    show "phys_inv (pfa\<lparr>segments := segs'\<rparr>)"
      using assms(1) segs'(2) shape_disjoint [OF segs'(3) [symmetric]] by (simp add: phys_inv_def)
    show "free_frames (pfa\<lparr>segments := segs'\<rparr>) = insert f (free_frames pfa)" if "f \<in> managed pfa"
      using segs'(4) [OF that] by (simp add: free_frames_def free_list_def)
  qed (use segs' shape_managed [OF segs'(3)] in
      \<open>simp_all add: deallocate_frame_def managed_list_def\<close>)
qed

end

sublocale x86_crate \<subseteq> phys: frame_allocator
  "allocate_frame X" "deallocate_frame X" free_frames managed phys_inv
proof (unfold_locales, goal_cases)
  case (1 pfa)
  from allocate_frame_spec [OF 1(1)] obtain pfa' where p:
    "allocate_frame X pfa = Some (case free_list pfa of [] \<Rightarrow> None | f # _ \<Rightarrow> Some f, pfa')"
    "free_list pfa' = tl (free_list pfa)" "managed_list pfa' = managed_list pfa" "phys_inv pfa'"
    by metis
  from 1(2) obtain f fs where "free_list pfa = f # fs"
    by (auto simp: free_frames_def neq_Nil_conv)
  with p distinct_free_list [OF 1(1)] show ?case
    by (auto simp: free_frames_def managed_def)
next
  case (2 pfa)
  from allocate_frame_spec [OF 2(1)] obtain pfa' where
    "allocate_frame X pfa = Some (case free_list pfa of [] \<Rightarrow> None | f # _ \<Rightarrow> Some f, pfa')"
    "free_list pfa' = tl (free_list pfa)" "managed_list pfa' = managed_list pfa" "phys_inv pfa'"
    by metis
  with 2(2) show ?case by (auto simp: free_frames_def managed_def)
next
  case (3 pfa f)
  with deallocate_frame_spec [of pfa f] managed_frame [of pfa f] show ?case
    by (metis managed_def)
qed (simp add: free_subset_managed, simp add: free_frames_def)

context x86_crate
begin

lemmas phys_alloc_Some = phys.alloc_Some
lemmas phys_alloc_None = phys.alloc_None
lemmas phys_free_frame = phys.free_frame

end

section \<open>Properties\<close>

text \<open>A small allocator for the witnesses: one segment of three pages at 1 MiB.\<close>

definition demo_pfa :: PhysicalFrameAllocator where
  "demo_pfa = \<lparr>segments = [(0x4000,
       \<lparr>seg_magic = MAGIC, seg_address = 0x100000, seg_size = 0x3000, seg_bitmap = [push_bit 3 (- 1)]\<rparr>)],
     pfa_size = 32, phyframe = 0x4000\<rparr>"

lemma demo_pfa_inv: "phys_inv demo_pfa"
  by (auto simp: phys_inv_def demo_pfa_def seg_ok_def seg_pages_def seg_bit_def round_up_def
      bit_not_iff bit_mask_iff)

lemma demo_pfa_free: "free_list demo_pfa = [0x100000, 0x101000, 0x102000]"
  by (simp add: free_list_def demo_pfa_def seg_free_def seg_pages_def seg_bit_def seg_frame_def
      upt_rec bit_not_iff bit_mask_iff)

lemma demo_pfa_managed: "managed demo_pfa = {0x100000, 0x101000, 0x102000}"
  by (auto simp: managed_def managed_list_def demo_pfa_def seg_managed_def seg_pages_def seg_frame_def
      upt_rec)

text \<open>
  C4. Allocation is a pop of the free list. On a well-formed allocator \<open>allocate_frame\<close> never
  panics; it returns the first frame, in segment order and then by address, whose bit is clear
  (\<open>None\<close> exactly when there is none), and afterwards the free list has lost exactly that frame,
  the managed frames are the same and the invariant holds.
\<close>

theorem allocate_frame_pops:
  assumes "x86_crate X" and "phys_inv pfa"
  shows "\<exists>pfa'. allocate_frame X pfa = Some (case free_list pfa of [] \<Rightarrow> None | f # _ \<Rightarrow> Some f, pfa') \<and>
           free_list pfa' = tl (free_list pfa) \<and> managed pfa' = managed pfa \<and> phys_inv pfa'"
  using x86_crate.allocate_frame_spec [OF assms] unfolding managed_def by metis

theorem allocate_frame_pops_witness:
  "\<exists>pfa'. allocate_frame x86_ref demo_pfa = Some (Some 0x100000, pfa') \<and>
     free_list pfa' = [0x101000, 0x102000] \<and> phys_inv pfa'"
  using allocate_frame_pops [OF ref.x86_crate_axioms demo_pfa_inv] by (auto simp: demo_pfa_free)

text \<open>
  C23. Freeing is the inverse of allocation. On a well-formed allocator \<open>deallocate_frame\<close> of a
  page-aligned frame never panics; a managed frame becomes available and nothing else changes
  in the set of available frames; a frame of no segment leaves the allocator unchanged.
\<close>

theorem deallocate_frame_frees:
  assumes "x86_crate X" and "phys_inv pfa" and "page_aligned f"
  shows "\<exists>pfa'. deallocate_frame X f pfa = Some pfa' \<and> phys_inv pfa' \<and> managed pfa' = managed pfa \<and>
           (if f \<in> managed pfa then free_frames pfa' = insert f (free_frames pfa) else pfa' = pfa)"
  using x86_crate.deallocate_frame_spec [OF assms] unfolding managed_def by metis

theorem deallocate_frame_frees_witness:
  "\<exists>pfa'. deallocate_frame x86_ref 0x102000 demo_pfa = Some pfa' \<and> phys_inv pfa' \<and>
     free_frames pfa' = {0x100000, 0x101000, 0x102000}"
proof -
  have "0x102000 \<in> managed demo_pfa" by (simp add: demo_pfa_managed)
  then show ?thesis
    using deallocate_frame_frees [OF ref.x86_crate_axioms demo_pfa_inv, of "0x102000"]
    by (auto simp: free_frames_def demo_pfa_free)
qed



end
