(* ===== verification/Phys_Init.thy ===== *)
theory Phys_Init
  imports Phys
begin

text \<open>
  What \<open>phys::init\<close> of \<open>kernel/src/mem/phys.rs\<close> builds from the memory map of the boot
  loader: the segments it makes, where it puts their headers, and that the result satisfies
  the invariant of the allocator when the usable regions start on page boundaries.
\<close>

section \<open>The three loops in closed form\<close>

definition usable_entry :: "MMapEnt \<Rightarrow> bool" where
  "usable_entry e \<longleftrightarrow> get_type e = Some Free \<and> 4096 \<le> raw_size e"

definition entry_segment :: "MMapEnt \<Rightarrow> segment" where
  "entry_segment e = segment_new (round_up (unat (ent_ptr e)) 4096) (round_down (raw_size e) 4096)"

definition usable_segments :: "BootBoot \<Rightarrow> nat list \<Rightarrow> segment list" where
  "usable_segments bb is = map entry_segment (filter usable_entry (map (bb_mmap bb) is))"

definition bitmap_words :: "segment \<Rightarrow> nat" where
  "bitmap_words s = round_up (seg_pages s) 64 div 64"

definition header_bytes :: "segment \<Rightarrow> nat" where
  "header_bytes s = bitmap_words s * 8 + 24"

definition fresh_bitmap :: "segment \<Rightarrow> u64 list" where
  "fresh_bitmap s =
     (replicate (bitmap_words s) 0)[bitmap_words s - 1 := push_bit (seg_pages s mod 64) (- 1)]"

definition mmap_indices :: "BootBoot \<Rightarrow> nat list" where
  "mmap_indices bb = rev [0..<(bb_size bb - sizeof_BootBoot) div sizeof_MMapEnt + 1]"

lemma round_up_64: "round_up n 64 div 8 = round_up n 64 div 64 * 8"
proof -
  have "(64 :: nat) dvd round_up n 64" by simp
  then obtain k where "round_up n 64 = 64 * k" by (rule dvdE)
  then show ?thesis by simp
qed

context x86_crate
begin

lemma bitmap_size_Some:
  "bitmap_size X s = Some n \<Longrightarrow> n = bitmap_words s * 8"
  by (auto simp: bitmap_size_def rust_simps align_up_64 bitmap_words_def seg_pages_def
      round_up_64 split: if_splits)

lemma bitmap_size_small:
  assumes "seg_size s < 2 ^ 64"
  shows "bitmap_size X s = Some (bitmap_words s * 8)"
proof -
  have "seg_size s div 4096 + 64 \<le> 2 ^ 64" using assms by (simp add: div_le_mono)
  then have "round_up (seg_size s div 4096) 64 < 2 ^ 64"
    using round_up_less [of 64 "seg_size s div 4096"] by linarith
  then show ?thesis
    by (simp add: bitmap_size_def align_up_64 bitmap_words_def seg_pages_def round_up_64)
qed

lemma bitmap_u64len_Some: "bitmap_u64len X s = Some n \<Longrightarrow> n = bitmap_words s"
  by (auto simp: bitmap_u64len_def rust_simps dest!: bitmap_size_Some)

lemma scan_entry_Some:
  assumes "scan_entry X bb i (us, tot) = Some (us', tot')"
  shows "us' = us @ usable_segments bb [i]"
    and "tot' = tot + sum_list (map header_bytes (usable_segments bb [i]))"
  using assms
  by (auto simp: scan_entry_def rust_simps Let_def usable_segments_def usable_entry_def
      entry_segment_def phyadr_Some mmap_size_eq header_bytes_def
      dest!: bitmap_size_Some split: if_splits)

lemma scan_entries_Some:
  assumes "fold_opt (scan_entry X bb) is (us, tot) = Some (us', tot')"
  shows "us' = us @ usable_segments bb is \<and>
         tot' = tot + sum_list (map header_bytes (usable_segments bb is))"
  using assms
proof (induction "is" arbitrary: us tot)
  case Nil
  then show ?case by (simp add: usable_segments_def)
next
  case (Cons i "is")
  from Cons.prems obtain u t where ut: "scan_entry X bb i (us, tot) = Some (u, t)"
    and rest: "fold_opt (scan_entry X bb) is (u, t) = Some (us', tot')"
    by (auto simp: rust_simps)
  have "usable_segments bb (i # is) = usable_segments bb [i] @ usable_segments bb is"
    by (simp add: usable_segments_def)
  with scan_entry_Some [OF ut] Cons.IH [OF rest] show ?case by simp
qed

lemma place_header_Some:
  assumes "place_header X tot ss = Some (Some a, ss')"
  shows "\<exists>pre s post. ss = pre @ s # post \<and> a = seg_address s \<and> round_up tot 4096 \<le> seg_size s \<and>
    ss' = pre @ s\<lparr>seg_address := seg_address s + round_up tot 4096,
                   seg_size := seg_size s - round_up tot 4096\<rparr> # post"
  using assms
proof (induction ss arbitrary: ss')
  case (Cons t ts)
  show ?case
  proof (cases "round_up tot 4096 \<le> seg_size t")
    case True
    with Cons.prems have "a = seg_address t"
      "ss' = t\<lparr>seg_address := seg_address t + round_up tot 4096,
               seg_size := seg_size t - round_up tot 4096\<rparr> # ts"
      by (auto simp: rust_simps align_up_4096 crate_eqs split: if_splits)
    with True show ?thesis by (intro exI [of _ "[]"]) auto
  next
    case False
    with Cons.prems obtain ts' where "place_header X tot ts = Some (Some a, ts')" "ss' = t # ts'"
      by (auto simp: rust_simps align_up_4096 split: if_splits)
    with Cons.IH [OF this(1)] show ?thesis by (metis append_Cons)
  qed
qed simp

lemma setup_segment_Some:
  assumes "setup_segment X pmm s (c, refs) = Some (c', refs')"
  shows "c' = c + header_bytes s" "refs' = refs @ [(pmm + c, s\<lparr>seg_bitmap := fresh_bitmap s\<rparr>)]"
    and "bitmap_words s \<noteq> 0"
  using assms
  by (auto simp: setup_segment_def rust_simps Let_def crate_eqs header_bytes_def fresh_bitmap_def
      seg_pages_def dest!: bitmap_size_Some bitmap_u64len_Some split: if_splits)

end

text \<open>Where the third loop puts the headers, from the cursor \<open>c\<close> on.\<close>

fun header_layout :: "nat \<Rightarrow> nat \<Rightarrow> segment list \<Rightarrow> (nat \<times> segment) list" where
  "header_layout pmm c [] = []"
| "header_layout pmm c (s # ss) =
     (pmm + c, s\<lparr>seg_bitmap := fresh_bitmap s\<rparr>) # header_layout pmm (c + header_bytes s) ss"

context x86_crate
begin

lemma setup_segments_Some:
  assumes "fold_opt (setup_segment X pmm) ss (c, refs) = Some (c', refs')"
  shows "refs' = refs @ header_layout pmm c ss \<and> c' = c + sum_list (map header_bytes ss) \<and>
         (\<forall>s \<in> set ss. bitmap_words s \<noteq> 0)"
  using assms
proof (induction ss arbitrary: c refs)
  case (Cons s ss)
  from Cons.prems obtain d r where dr: "setup_segment X pmm s (c, refs) = Some (d, r)"
    and rest: "fold_opt (setup_segment X pmm) ss (d, r) = Some (c', refs')"
    by (auto simp: rust_simps)
  from setup_segment_Some [OF dr] Cons.IH [OF rest] show ?case by simp
qed simp

end

section \<open>A fresh bitmap\<close>

lemma bitmap_words_bounds:
  assumes "bitmap_words s \<noteq> 0"
  shows "seg_pages s \<le> 64 * bitmap_words s" "64 * (bitmap_words s - 1) < seg_pages s"
    "64 * bitmap_words s = round_up (seg_pages s) 64"
proof -
  show eq: "64 * bitmap_words s = round_up (seg_pages s) 64"
    by (simp add: bitmap_words_def)
  show "seg_pages s \<le> 64 * bitmap_words s" "64 * (bitmap_words s - 1) < seg_pages s"
    using round_up_ge [of 64 "seg_pages s"] round_up_less [of 64 "seg_pages s"] assms
    unfolding eq [symmetric] by simp_all
qed

lemma fresh_bit:
  assumes "bitmap_words s \<noteq> 0" "i < 64 * bitmap_words s"
  shows "seg_bit (s\<lparr>seg_bitmap := fresh_bitmap s\<rparr>) i \<longleftrightarrow>
         i div 64 = bitmap_words s - 1 \<and> seg_pages s mod 64 \<le> i mod 64"
proof -
  have "i div 64 < bitmap_words s" using assms(2) by (simp add: less_mult_imp_div_less mult.commute)
  then show ?thesis
    using assms(1)
    by (auto simp: seg_bit_def fresh_bitmap_def nth_list_update bit_not_iff bit_mask_iff)
qed

lemma same_block_mod:
  fixes i p k :: nat
  assumes "p \<le> i" "64 * k < p" "i < 64 * k + 64"
  shows "p mod 64 \<le> i mod 64"
proof -
  have "i div 64 = k" "p div 64 = k" using assms by (auto intro!: div_nat_eqI)
  with assms(1) show ?thesis
    by (metis div_mult_mod_eq nat_add_left_cancel_le)
qed

lemma fresh_segment_ok:
  assumes "seg_magic s = MAGIC" "page_aligned (seg_address s)" "page_aligned (seg_size s)"
    "seg_address s + seg_size s < 2 ^ 52" "bitmap_words s \<noteq> 0"
  shows "seg_ok (s\<lparr>seg_bitmap := fresh_bitmap s\<rparr>)"
proof -
  let ?t = "s\<lparr>seg_bitmap := fresh_bitmap s\<rparr>"
  have len: "length (fresh_bitmap s) = bitmap_words s" by (simp add: fresh_bitmap_def)
  have pages: "seg_pages ?t = seg_pages s" by (simp add: seg_pages_def)
  note b = bitmap_words_bounds [OF assms(5)]
  have "seg_bit ?t i" if "seg_pages s \<le> i" "i < bitmap_words s * 64" for i
  proof -
    have lt: "i < 64 * (bitmap_words s - 1) + 64" using that(2) assms(5) by (cases "bitmap_words s") auto
    have "64 * (bitmap_words s - 1) \<le> i" using that(1) b(2) by simp
    then have "i div 64 = bitmap_words s - 1" using lt by (intro div_nat_eqI) auto
    moreover have "seg_pages s mod 64 \<le> i mod 64" by (rule same_block_mod [OF that(1) b(2) lt])
    ultimately show ?thesis using fresh_bit [OF assms(5)] that(2) by (simp add: mult.commute)
  qed
  then show ?thesis
    using assms b(3) by (simp add: seg_ok_def len pages mult.commute)
qed

text \<open>The pages a fresh segment can hand out: all of them, unless their number is a multiple of 64.\<close>

definition fresh_pages :: "segment \<Rightarrow> nat" where
  "fresh_pages s = (if seg_pages s mod 64 = 0 then seg_pages s - 64 else seg_pages s)"

lemma fresh_segment_free:
  assumes "bitmap_words s \<noteq> 0"
  shows "seg_free (s\<lparr>seg_bitmap := fresh_bitmap s\<rparr>) = map (seg_frame s) [0..<fresh_pages s]"
proof -
  let ?t = "s\<lparr>seg_bitmap := fresh_bitmap s\<rparr>"
  note b = bitmap_words_bounds [OF assms]
  have bit: "seg_bit ?t i \<longleftrightarrow> fresh_pages s \<le> i" if "i < seg_pages s" for i
  proof -
    have fb: "seg_bit ?t i \<longleftrightarrow> i div 64 = bitmap_words s - 1 \<and> seg_pages s mod 64 \<le> i mod 64"
      using fresh_bit [OF assms] that b(1) by simp
    show ?thesis
    proof (cases "seg_pages s mod 64 = 0")
      case True
      then have "seg_pages s = 64 * bitmap_words s"
        using round_up_id [of 64 "seg_pages s"] b(3) by (simp add: mod_eq_0_iff_dvd)
      moreover from this that have "i div 64 = bitmap_words s - 1 \<longleftrightarrow> 64 * (bitmap_words s - 1) \<le> i"
        using assms by (auto intro!: div_nat_eqI)
      ultimately show ?thesis
        using fb True by (simp add: fresh_pages_def algebra_simps)
    next
      case False
      have "\<not> seg_pages s mod 64 \<le> i mod 64" if "i div 64 = bitmap_words s - 1"
      proof
        assume le: "seg_pages s mod 64 \<le> i mod 64"
        have "seg_pages s \<noteq> 64 * bitmap_words s" using False by auto
        then have "seg_pages s div 64 = bitmap_words s - 1"
          using b(1,2) assms by (intro div_nat_eqI) auto
        with le that have "seg_pages s \<le> i" by (metis div_mult_mod_eq nat_add_left_cancel_le)
        with \<open>i < seg_pages s\<close> show False by simp
      qed
      with fb False that show ?thesis by (auto simp: fresh_pages_def)
    qed
  qed
  have "filter (\<lambda>i. \<not> seg_bit ?t i) [0..<seg_pages s] = filter (\<lambda>i. i < fresh_pages s) [0..<seg_pages s]"
    by (rule filter_cong) (auto simp: bit not_le)
  also have "\<dots> = [0..<fresh_pages s]"
  proof -
    have "[0..<seg_pages s] = [0..<fresh_pages s] @ [fresh_pages s..<seg_pages s]"
      using upt_add_eq_append [of 0 "fresh_pages s" "seg_pages s - fresh_pages s"]
      by (simp add: fresh_pages_def)
    then show ?thesis by (simp add: filter_empty_conv filter_id_conv)
  qed
  finally show ?thesis
    by (simp add: seg_free_def seg_pages_def seg_frame_def [abs_def])
qed

section \<open>The memory map and the allocator built from it\<close>

definition ent_end :: "MMapEnt \<Rightarrow> nat" where
  "ent_end e = unat (ent_ptr e) + raw_size e"

text \<open>
  A memory map as the boot loader should hand it over: its usable regions start on page
  boundaries, are physical memory and do not overlap.
\<close>

definition mmap_ok :: "BootBoot \<Rightarrow> bool" where
  "mmap_ok bb \<longleftrightarrow>
     (\<forall>e \<in> set (filter usable_entry (map (bb_mmap bb) (mmap_indices bb))).
        page_aligned (unat (ent_ptr e)) \<and> ent_end e < 2 ^ 52) \<and>
     sorted_wrt (\<lambda>d e. ent_end d \<le> unat (ent_ptr e) \<or> ent_end e \<le> unat (ent_ptr d))
       (filter usable_entry (map (bb_mmap bb) (mmap_indices bb)))"

definition header_total :: "BootBoot \<Rightarrow> nat" where
  "header_total bb = sum_list (map header_bytes (usable_segments bb (mmap_indices bb)))"

definition seg_prepared :: "segment \<Rightarrow> bool" where
  "seg_prepared s \<longleftrightarrow> seg_magic s = MAGIC \<and> page_aligned (seg_address s) \<and> page_aligned (seg_size s) \<and>
     seg_address s + seg_size s < 2 ^ 52"

lemma entry_segment_fields:
  assumes "page_aligned (unat (ent_ptr e))"
  shows "seg_address (entry_segment e) = unat (ent_ptr e)"
    "seg_size (entry_segment e) = round_down (raw_size e) 4096"
    "seg_magic (entry_segment e) = MAGIC"
  using assms by (simp_all add: entry_segment_def segment_new_def round_up_id mod_0_imp_dvd)

lemma entry_segment_within:
  assumes "page_aligned (unat (ent_ptr e))"
  shows "seg_address (entry_segment e) + seg_size (entry_segment e) \<le> ent_end e"
  using assms by (simp add: entry_segment_fields ent_end_def round_down_le)

lemma usable_segments_prepared:
  assumes "mmap_ok bb" "s \<in> set (usable_segments bb (mmap_indices bb))"
  shows "seg_prepared s"
proof -
  from assms(2) obtain e where e: "s = entry_segment e"
    "e \<in> set (filter usable_entry (map (bb_mmap bb) (mmap_indices bb)))"
    by (auto simp: usable_segments_def)
  with assms(1) have "page_aligned (unat (ent_ptr e))" "ent_end e < 2 ^ 52"
    unfolding mmap_ok_def by blast+
  with entry_segment_within [of e] show ?thesis
    using round_down_dvd [of 4096 "raw_size e"]
    by (simp add: seg_prepared_def e(1) entry_segment_fields mod_eq_0_iff_dvd)
qed

lemma usable_segments_disjoint:
  assumes "mmap_ok bb"
  shows "sorted_wrt seg_disjoint (usable_segments bb (mmap_indices bb))"
proof -
  let ?es = "filter usable_entry (map (bb_mmap bb) (mmap_indices bb))"
  have "sorted_wrt (\<lambda>d e. seg_disjoint (entry_segment d) (entry_segment e)) ?es"
  proof (rule sorted_wrt_mono_rel)
    show "sorted_wrt (\<lambda>d e. ent_end d \<le> unat (ent_ptr e) \<or> ent_end e \<le> unat (ent_ptr d)) ?es"
      using assms by (simp add: mmap_ok_def)
    fix d e assume de: "d \<in> set ?es" "e \<in> set ?es"
      and or: "ent_end d \<le> unat (ent_ptr e) \<or> ent_end e \<le> unat (ent_ptr d)"
    from de assms have al: "page_aligned (unat (ent_ptr d))" "page_aligned (unat (ent_ptr e))"
      unfolding mmap_ok_def by blast+
    with or entry_segment_within [OF al(1)] entry_segment_within [OF al(2)]
    show "seg_disjoint (entry_segment d) (entry_segment e)"
      by (auto simp: seg_disjoint_def entry_segment_fields)
  qed
  then show ?thesis by (simp add: usable_segments_def sorted_wrt_map)
qed

lemma sorted_wrt_replace:
  assumes "sorted_wrt R (pre @ x # post)"
    and "\<And>z. R z x \<Longrightarrow> R z y" "\<And>z. R x z \<Longrightarrow> R y z"
  shows "sorted_wrt R (pre @ y # post)"
  using assms by (auto simp: sorted_wrt_append)

lemma header_layout_snd:
  "map snd (header_layout pmm c ss) = map (\<lambda>s. s\<lparr>seg_bitmap := fresh_bitmap s\<rparr>) ss"
  by (induction ss arbitrary: c) auto

lemma header_layout_disjoint:
  assumes "sorted_wrt seg_disjoint ss"
  shows "sorted_wrt (\<lambda>(p, s) (q, t). seg_disjoint s t) (header_layout pmm c ss)"
proof -
  have "sorted_wrt seg_disjoint (map snd (header_layout pmm c ss))"
    unfolding header_layout_snd sorted_wrt_map using assms by (simp add: seg_disjoint_def [abs_def])
  then show ?thesis by (simp add: sorted_wrt_map case_prod_unfold)
qed

text \<open>What a successful run of \<open>init\<close> has done, in one place.\<close>

context x86_crate
begin

lemma phys_init_Some:
  assumes "phys_init X bb = Some pfa"
  obtains pre s s' post where
    "usable_segments bb (mmap_indices bb) = pre @ s # post"
    "round_up (header_total bb) 4096 \<le> seg_size s"
    "phyframe pfa = seg_address s" "pfa_size pfa = header_total bb"
    "segments pfa = header_layout (seg_address s) 0 (pre @ s' # post)"
    "seg_magic s' = seg_magic s" "seg_address s' = seg_address s + round_up (header_total bb) 4096"
    "seg_size s' = seg_size s - round_up (header_total bb) 4096"
    "\<forall>t \<in> set (pre @ s' # post). bitmap_words t \<noteq> 0"
proof -
  from assms obtain us tot a us' c refs where
    us: "fold_opt (scan_entry X bb) (mmap_indices bb) ([], 0) = Some (us, tot)"
    and place: "place_header X tot us = Some (Some a, us')"
    and fill: "fold_opt (setup_segment X a) us' (0, []) = Some (c, refs)"
    and pfa: "frame_from_start X a = Some (phyframe pfa)" "segments pfa = refs" "pfa_size pfa = tot"
    by (auto simp: phys_init_def rust_simps Let_def mmap_indices_def)
  from scan_entries_Some [OF us] have us_eq: "us = usable_segments bb (mmap_indices bb)"
    and tot: "tot = header_total bb" by (simp_all add: header_total_def)
  from place_header_Some [OF place] obtain pre s post where p:
    "us = pre @ s # post" "a = seg_address s" "round_up tot 4096 \<le> seg_size s"
    "us' = pre @ s\<lparr>seg_address := seg_address s + round_up tot 4096,
                   seg_size := seg_size s - round_up tot 4096\<rparr> # post" by blast
  from setup_segments_Some [OF fill] have l: "refs = header_layout a 0 us'"
    "\<forall>s \<in> set us'. bitmap_words s \<noteq> 0" by auto
  have "phyframe pfa = a" using pfa(1) by (simp add: crate_eqs split: if_splits)
  with p l pfa(2,3) us_eq tot show ?thesis
    by (intro that [of pre s post "s\<lparr>seg_address := seg_address s + round_up tot 4096,
                   seg_size := seg_size s - round_up tot 4096\<rparr>"]) simp_all
qed

lemma shrunk_prepared:
  assumes "seg_prepared s" "r \<le> seg_size s" "page_aligned r"
    "seg_magic s' = seg_magic s" "seg_address s' = seg_address s + r" "seg_size s' = seg_size s - r"
  shows "seg_prepared s'"
  using assms by (auto simp: seg_prepared_def mod_eq_0_iff_dvd)

lemma round_up_aligned: "page_aligned (round_up n 4096)"
  using round_up_dvd [of 4096 n] by (simp add: mod_eq_0_iff_dvd)

lemma phys_init_inv_lemma:
  assumes "mmap_ok bb" "phys_init X bb = Some pfa"
  shows "phys_inv pfa"
proof -
  let ?r = "round_up (header_total bb) 4096"
  from phys_init_Some [OF assms(2)] obtain pre s s' post where i:
    "usable_segments bb (mmap_indices bb) = pre @ s # post" "?r \<le> seg_size s"
    "segments pfa = header_layout (seg_address s) 0 (pre @ s' # post)"
    "seg_magic s' = seg_magic s" "seg_address s' = seg_address s + ?r" "seg_size s' = seg_size s - ?r"
    "\<forall>t \<in> set (pre @ s' # post). bitmap_words t \<noteq> 0" by metis
  have prep: "seg_prepared t" if "t \<in> set (pre @ s # post)" for t
    using usable_segments_prepared [OF assms(1)] that i(1) by simp
  then have prep': "seg_prepared t" if "t \<in> set (pre @ s' # post)" for t
    using that shrunk_prepared [OF _ i(2) round_up_aligned i(4,5,6)] by auto
  have "sorted_wrt seg_disjoint (pre @ s # post)"
    using usable_segments_disjoint [OF assms(1)] i(1) by simp
  then have "sorted_wrt seg_disjoint (pre @ s' # post)"
    by (rule sorted_wrt_replace) (use i(2,5,6) in \<open>auto simp: seg_disjoint_def\<close>)
  then have "sorted_wrt (\<lambda>(p, s) (q, t). seg_disjoint s t) (segments pfa)"
    unfolding i(3) by (rule header_layout_disjoint)
  moreover have "seg_ok t" if "(p, t) \<in> set (segments pfa)" for p t
  proof -
    from that have "t \<in> snd ` set (segments pfa)" by force
    then have "t \<in> set (map (\<lambda>s. s\<lparr>seg_bitmap := fresh_bitmap s\<rparr>) (pre @ s' # post))"
      unfolding i(3) set_map [symmetric] header_layout_snd .
    then obtain u where u: "u \<in> set (pre @ s' # post)" "t = u\<lparr>seg_bitmap := fresh_bitmap u\<rparr>"
      unfolding set_map by blast
    from prep' [OF u(1)] i(7) u(1) show ?thesis
      unfolding u(2) seg_prepared_def by (intro fresh_segment_ok) auto
  qed
  ultimately show ?thesis by (auto simp: phys_inv_def)
qed

end

lemma segs_managed_set: "set (segs_managed segs) = (\<Union>s \<in> snd ` set segs. set (seg_managed s))"
  by (induction segs rule: segs_managed.induct) auto

lemma segs_free_map: "segs_free segs = concat (map seg_free (map snd segs))"
  by (induction segs rule: segs_free.induct) auto

section \<open>Where the managed frames and the headers are\<close>

lemma header_bytes_mono: "seg_size s \<le> seg_size t \<Longrightarrow> header_bytes s \<le> header_bytes t"
  by (simp add: header_bytes_def bitmap_words_def seg_pages_def div_le_mono round_up_mono)

lemma header_layout_bounds:
  assumes "(p, t) \<in> set (header_layout pmm c ss)"
  shows "pmm + c \<le> p \<and> p + header_bytes t \<le> pmm + c + sum_list (map header_bytes ss)"
  using assms
proof (induction ss arbitrary: c)
  case (Cons s ss)
  have "header_bytes (s\<lparr>seg_bitmap := fresh_bitmap s\<rparr>) = header_bytes s"
    by (simp add: header_bytes_def bitmap_words_def seg_pages_def)
  with Cons show ?case by fastforce
qed simp

lemma header_layout_apart:
  "sorted_wrt (\<lambda>(p, s) (q, t). p + header_bytes s \<le> q) (header_layout pmm c ss)"
proof (induction ss arbitrary: c)
  case (Cons s ss)
  have "header_bytes (s\<lparr>seg_bitmap := fresh_bitmap s\<rparr>) = header_bytes s"
    by (simp add: header_bytes_def bitmap_words_def seg_pages_def)
  with Cons header_layout_bounds [of _ _ pmm "c + header_bytes s" ss] show ?case by fastforce
qed simp

lemma seg_managed_bounds:
  "seg_prepared s \<Longrightarrow> f \<in> set (seg_managed s) \<Longrightarrow>
   seg_address s \<le> f \<and> f + 4096 \<le> seg_address s + seg_size s"
  by (auto simp: seg_prepared_def seg_managed_def seg_frame_def seg_pages_def)

context x86_crate
begin

lemma phys_init_managed_lemma:
  assumes "mmap_ok bb" "phys_init X bb = Some pfa" "f \<in> managed pfa"
  shows "(\<exists>e \<in> set (map (bb_mmap bb) (mmap_indices bb)).
            usable_entry e \<and> unat (ent_ptr e) \<le> f \<and> f + 4096 \<le> ent_end e) \<and>
         (f + 4096 \<le> phyframe pfa \<or> phyframe pfa + round_up (pfa_size pfa) 4096 \<le> f)"
proof -
  let ?r = "round_up (header_total bb) 4096"
  from phys_init_Some [OF assms(2)] obtain pre s s' post where i:
    "usable_segments bb (mmap_indices bb) = pre @ s # post" "?r \<le> seg_size s"
    "phyframe pfa = seg_address s" "pfa_size pfa = header_total bb"
    "segments pfa = header_layout (seg_address s) 0 (pre @ s' # post)"
    "seg_magic s' = seg_magic s" "seg_address s' = seg_address s + ?r" "seg_size s' = seg_size s - ?r"
    by metis
  have "f \<in> (\<Union>t \<in> set (map (\<lambda>s. s\<lparr>seg_bitmap := fresh_bitmap s\<rparr>) (pre @ s' # post)). set (seg_managed t))"
    using assms(3)
    unfolding managed_def managed_list_def segs_managed_set i(5) set_map [symmetric] header_layout_snd .
  then obtain t where t: "t \<in> set (pre @ s' # post)" "f \<in> set (seg_managed (t\<lparr>seg_bitmap := fresh_bitmap t\<rparr>))"
    unfolding set_map by blast
  then have t2: "f \<in> set (seg_managed t)"
    by (simp add: seg_managed_def seg_pages_def seg_frame_def [abs_def])
  have prep: "seg_prepared u" if "u \<in> set (pre @ s # post)" for u
    using usable_segments_prepared [OF assms(1)] that i(1) by simp
  have prep': "seg_prepared s'"
    using shrunk_prepared [OF _ i(2) round_up_aligned i(6,7,8)] prep by auto
  have "sorted_wrt seg_disjoint (pre @ s # post)"
    using usable_segments_disjoint [OF assms(1)] i(1) by simp
  then have dis: "seg_disjoint u s" if "u \<in> set pre \<union> set post" for u
    using that by (auto simp: sorted_wrt_append seg_disjoint_def)
  obtain u where u: "u \<in> set (pre @ s # post)" "seg_address u \<le> f" "f + 4096 \<le> seg_address u + seg_size u"
    "f + 4096 \<le> seg_address s \<or> seg_address s + ?r \<le> f"
  proof (cases "t = s'")
    case True
    with t2 have "f \<in> set (seg_managed s')" by simp
    from seg_managed_bounds [OF prep' this] i(2,7,8) show ?thesis by (intro that [of s]) auto
  next
    case False
    with t(1) have t': "t \<in> set pre \<union> set post" by auto
    with t2 seg_managed_bounds [OF prep, of t f] dis [OF t'] i(2) show ?thesis
      by (intro that [of t]) (auto simp: seg_disjoint_def)
  qed
  from u(1) i(1) obtain e where e: "u = entry_segment e"
    "e \<in> set (filter usable_entry (map (bb_mmap bb) (mmap_indices bb)))"
    unfolding usable_segments_def by (metis (no_types, lifting) imageE set_map)
  with assms(1) have "page_aligned (unat (ent_ptr e))" unfolding mmap_ok_def by blast
  with e u(2,3) entry_segment_within [of e] entry_segment_fields(1) [of e]
  have "e \<in> set (map (bb_mmap bb) (mmap_indices bb)) \<and> usable_entry e \<and>
      unat (ent_ptr e) \<le> f \<and> f + 4096 \<le> ent_end e" by auto
  with u(4) i(3,4) show ?thesis by auto
qed

lemma phys_init_headers_lemma:
  assumes "phys_init X bb = Some pfa"
  shows "sorted_wrt (\<lambda>(p, s) (q, t). p + header_bytes s \<le> q) (segments pfa) \<and>
         (\<forall>(p, s) \<in> set (segments pfa).
            phyframe pfa \<le> p \<and> p + header_bytes s \<le> phyframe pfa + pfa_size pfa)"
proof -
  let ?r = "round_up (header_total bb) 4096"
  from phys_init_Some [OF assms] obtain pre s s' post where i:
    "usable_segments bb (mmap_indices bb) = pre @ s # post"
    "phyframe pfa = seg_address s" "pfa_size pfa = header_total bb"
    "segments pfa = header_layout (seg_address s) 0 (pre @ s' # post)"
    "seg_size s' = seg_size s - ?r" by metis
  have "sum_list (map header_bytes (pre @ s' # post)) \<le> sum_list (map header_bytes (pre @ s # post))"
    using header_bytes_mono [of s' s] i(5) by simp
  also have "\<dots> = header_total bb" by (simp add: header_total_def i(1))
  finally show ?thesis
    using header_layout_bounds [of _ _ "seg_address s" 0 "pre @ s' # post"]
      header_layout_apart [of "seg_address s" 0 "pre @ s' # post"]
    unfolding i(2,3,4) by fastforce
qed

lemma phys_init_free_lemma:
  assumes "phys_init X bb = Some pfa"
  shows "free_list pfa = concat (map (\<lambda>(p, s). map (seg_frame s) [0..<fresh_pages s]) (segments pfa))"
proof -
  from phys_init_Some [OF assms] obtain pmm ss where i:
    "segments pfa = header_layout pmm 0 ss" "\<forall>t \<in> set ss. bitmap_words t \<noteq> 0" by metis
  have "seg_free t = map (seg_frame t) [0..<fresh_pages t]" if "t \<in> set (map snd (segments pfa))" for t
  proof -
    from that obtain u where u: "u \<in> set ss" "t = u\<lparr>seg_bitmap := fresh_bitmap u\<rparr>"
      unfolding i(1) header_layout_snd by auto
    then have "fresh_pages t = fresh_pages u" "seg_frame t = seg_frame u"
      by (simp_all add: fresh_pages_def seg_pages_def seg_frame_def [abs_def])
    with u i(2) fresh_segment_free show ?thesis by simp
  qed
  then show ?thesis
    unfolding free_list_def segs_free_concat
    by (intro arg_cong [where f = concat] map_cong) force+
qed

end

section \<open>When initialisation returns\<close>

lemma header_bytes_pos: "24 \<le> header_bytes s"
  by (simp add: header_bytes_def)

lemma seg_pages_pos_words: "0 < seg_pages s \<Longrightarrow> bitmap_words s \<noteq> 0"
proof -
  assume "0 < seg_pages s"
  moreover have "64 * bitmap_words s = round_up (seg_pages s) 64" by (simp add: bitmap_words_def)
  ultimately show "bitmap_words s \<noteq> 0" using round_up_ge [of 64 "seg_pages s"] by auto
qed

context x86_crate
begin

lemma scan_entry_total:
  assumes "get_type (bb_mmap bb i) \<noteq> None"
    and "usable_entry (bb_mmap bb i) \<Longrightarrow> seg_prepared (entry_segment (bb_mmap bb i))"
    and "tot + sum_list (map header_bytes (usable_segments bb [i])) < 2 ^ 64"
  shows "\<exists>r. scan_entry X bb i (us, tot) = Some r"
proof (cases "usable_entry (bb_mmap bb i)")
  case False
  with assms(1) show ?thesis
    by (auto simp: scan_entry_def usable_entry_def)
next
  case True
  let ?e = "bb_mmap bb i" and ?s = "entry_segment (bb_mmap bb i)"
  have b: "bitmap_size X ?s = Some (bitmap_words ?s * 8)"
    using assms(2) True by (intro bitmap_size_small) (simp add: seg_prepared_def)
  have p: "phyadr X ?e = Some (round_up (unat (ent_ptr ?e)) 4096)"
    using assms(2) True by (simp add: phyadr_Some seg_prepared_def entry_segment_def segment_new_def)
  have "tot + header_bytes ?s < 2 ^ 64" using assms(3) True by (simp add: usable_segments_def)
  then have "add64 (bitmap_words ?s * 8) 24 = Some (header_bytes ?s)"
    "add64 tot (header_bytes ?s) = Some (tot + header_bytes ?s)"
    by (simp_all add: header_bytes_def add64_def)
  with b p True show ?thesis
    by (simp add: scan_entry_def usable_entry_def mmap_size_eq entry_segment_def Let_def)
qed

lemma scan_entries_total:
  assumes "\<forall>i \<in> set is. get_type (bb_mmap bb i) \<noteq> None"
    and "\<forall>s \<in> set (usable_segments bb is). seg_prepared s"
    and "tot + sum_list (map header_bytes (usable_segments bb is)) < 2 ^ 64"
  shows "\<exists>r. fold_opt (scan_entry X bb) is (us, tot) = Some r"
  using assms
proof (induction "is" arbitrary: us tot)
  case (Cons i "is")
  have eq: "usable_segments bb (i # is) = usable_segments bb [i] @ usable_segments bb is"
    by (simp add: usable_segments_def)
  obtain u t where ut: "scan_entry X bb i (us, tot) = Some (u, t)"
    using scan_entry_total [of bb i tot us] Cons.prems
    by (fastforce simp: eq usable_segments_def split: if_splits)
  have "\<exists>r. fold_opt (scan_entry X bb) is (u, t) = Some r"
    using Cons.prems scan_entry_Some(2) [OF ut] by (intro Cons.IH) (auto simp: eq)
  with ut show ?case by auto
qed simp

lemma place_header_total:
  assumes "List.find (\<lambda>s. round_up tot 4096 \<le> seg_size s) ss = Some s"
    and "\<forall>t \<in> set ss. seg_prepared t"
  shows "\<exists>pre post. ss = pre @ s # post \<and>
    place_header X tot ss = Some (Some (seg_address s),
      pre @ s\<lparr>seg_address := seg_address s + round_up tot 4096,
              seg_size := seg_size s - round_up tot 4096\<rparr> # post)"
  using assms
proof (induction ss)
  case (Cons t ts)
  from Cons.prems(1) have "s \<in> set (t # ts)" "round_up tot 4096 \<le> seg_size s"
    unfolding find_Some_iff by (metis nth_mem)+
  with Cons.prems(2) have small: "round_up tot 4096 < 2 ^ 64" by (fastforce simp: seg_prepared_def)
  show ?case
  proof (cases "round_up tot 4096 \<le> seg_size t")
    case True
    with Cons.prems small show ?thesis
      by (intro exI [of _ "[]"] exI [of _ ts])
        (auto simp: align_up_4096 crate_eqs sub64_def seg_prepared_def)
  next
    case False
    with Cons obtain pre post where "ts = pre @ s # post"
      "place_header X tot ts = Some (Some (seg_address s),
        pre @ s\<lparr>seg_address := seg_address s + round_up tot 4096,
                seg_size := seg_size s - round_up tot 4096\<rparr> # post)" by auto
    with False small show ?thesis
      by (intro exI [of _ "t # pre"] exI [of _ post]) (auto simp: align_up_4096)
  qed
qed simp

lemma setup_segments_total:
  assumes "\<forall>s \<in> set ss. bitmap_words s \<noteq> 0 \<and> seg_size s < 2 ^ 52"
    and "0 < pmm" "pmm + c + sum_list (map header_bytes ss) < 2 ^ 52"
  shows "\<exists>r. fold_opt (setup_segment X pmm) ss (c, refs) = Some r"
  using assms
proof (induction ss arbitrary: c refs)
  case (Cons s ss)
  have b: "bitmap_size X s = Some (bitmap_words s * 8)"
    using Cons.prems(1) by (intro bitmap_size_small) auto
  have "add64 (bitmap_words s * 8) 24 = Some (header_bytes s)"
    "add64 c (header_bytes s) = Some (c + header_bytes s)"
    using Cons.prems(3) by (simp_all add: header_bytes_def add64_def)
  with b Cons.prems have "\<exists>refs'. setup_segment X pmm s (c, refs) = Some (c + header_bytes s, refs')"
    by (simp add: setup_segment_def bitmap_u64len_def crate_eqs)
  then obtain refs' where "setup_segment X pmm s (c, refs) = Some (c + header_bytes s, refs')" ..
  with Cons show ?case by (simp add: add.assoc)
qed simp

lemma usable_pages: "s \<in> set (usable_segments bb is) \<Longrightarrow> 0 < seg_pages s"
  by (auto simp: usable_segments_def usable_entry_def entry_segment_def segment_new_def
      seg_pages_def round_down_def div_greater_zero_iff)

lemma aligned_less_pages:
  assumes "page_aligned a" "page_aligned r" "r < a"
  shows "0 < (a - r) div 4096"
proof -
  have "4096 dvd a - r" using assms by (simp add: mod_eq_0_iff_dvd)
  with assms(3) have "4096 \<le> a - r" by (intro dvd_imp_le) auto
  then show ?thesis by (simp add: div_greater_zero_iff)
qed

lemma phys_init_unfold:
  assumes "sizeof_BootBoot \<le> bb_size bb"
  shows "phys_init X bb = do {
     (mmap_usable, header_total_size) \<leftarrow> fold_opt (scan_entry X bb) (mmap_indices bb) ([], 0);
     (pmm, mmap_usable) \<leftarrow> place_header X header_total_size mmap_usable;
     pmm_header \<leftarrow> pmm;
     (header_cursor, refs) \<leftarrow> fold_opt (setup_segment X pmm_header) mmap_usable (0, []);
     f \<leftarrow> frame_from_start X pmm_header;
     Some \<lparr>segments = refs, pfa_size = header_total_size, phyframe = f\<rparr> }"
  using assms by (simp add: phys_init_def mmap_indices_def sub64_def)

lemma phys_init_total:
  assumes "mmap_ok bb" "sizeof_BootBoot \<le> bb_size bb"
    and types: "\<forall>i \<in> set (mmap_indices bb). get_type (bb_mmap bb i) \<noteq> None"
    and fit: "List.find (\<lambda>s. round_up (header_total bb) 4096 \<le> seg_size s)
        (usable_segments bb (mmap_indices bb)) = Some s"
      "round_up (header_total bb) 4096 < seg_size s" "0 < seg_address s"
  shows "\<exists>pfa. phys_init X bb = Some pfa"
proof -
  let ?us = "usable_segments bb (mmap_indices bb)" and ?r = "round_up (header_total bb) 4096"
  let ?s' = "s\<lparr>seg_address := seg_address s + ?r, seg_size := seg_size s - ?r\<rparr>"
  note prep = usable_segments_prepared [OF assms(1)]
  have s: "s \<in> set ?us" using fit(1) unfolding find_Some_iff by (metis nth_mem)
  have small: "seg_address s + ?r < 2 ^ 52" "header_total bb \<le> ?r"
    using prep [OF s] fit(2) round_up_ge [of 4096 "header_total bb"] by (auto simp: seg_prepared_def)
  then obtain us tot where us: "fold_opt (scan_entry X bb) (mmap_indices bb) ([], 0) = Some (us, tot)"
    using scan_entries_total [OF types, of 0 "[]"] prep by (auto simp: header_total_def)
  from scan_entries_Some [OF us] have eqs: "us = ?us" "tot = header_total bb"
    by (simp_all add: header_total_def)
  from place_header_total [OF fit(1)] prep obtain pre post where p: "?us = pre @ s # post"
    "place_header X (header_total bb) ?us = Some (Some (seg_address s), pre @ ?s' # post)" by blast
  have "header_bytes ?s' \<le> header_bytes s" by (rule header_bytes_mono) simp
  then have "sum_list (map header_bytes (pre @ ?s' # post)) \<le> header_total bb"
    by (simp add: header_total_def p(1))
  moreover have "bitmap_words t \<noteq> 0 \<and> seg_size t < 2 ^ 52" if "t \<in> set (pre @ ?s' # post)" for t
  proof (cases "t \<in> set ?us")
    case True
    with prep usable_pages seg_pages_pos_words show ?thesis by (fastforce simp: seg_prepared_def)
  next
    case False
    with that p(1) have "t = ?s'" by auto
    moreover have "0 < (seg_size s - ?r) div 4096"
      using prep [OF s] fit(2) by (intro aligned_less_pages round_up_aligned) (simp_all add: seg_prepared_def)
    ultimately show ?thesis
      using seg_pages_pos_words [of t] prep [OF s] by (auto simp: seg_pages_def seg_prepared_def)
  qed
  ultimately obtain c refs where
    "fold_opt (setup_segment X (seg_address s)) (pre @ ?s' # post) (0, []) = Some (c, refs)"
    using setup_segments_total [of "pre @ ?s' # post" "seg_address s" 0 "[]"] fit(3) small by fastforce
  with us p prep [OF s] show ?thesis
    by (simp add: phys_init_unfold [OF assms(2)] eqs crate_eqs seg_prepared_def)
qed

end

section \<open>Properties\<close>

text \<open>A memory map for the witnesses: five usable pages at 1 MiB, then used memory.\<close>

definition demo_mmap :: "nat \<Rightarrow> MMapEnt" where
  "demo_mmap i = (if i = 0 then \<lparr>ent_ptr = 0x100000, ent_size = 0x5001\<rparr>
                  else \<lparr>ent_ptr = 0x200000, ent_size = 0x8000\<rparr>)"

definition demo_bb :: BootBoot where
  "demo_bb = \<lparr>bb_magic = [], bb_size = 160, bb_protocol = 1, bb_fb_type = 0, bb_numcores = 1,
     bb_bspid = 0, bb_timezone = 0, bb_datetime = [], bb_initrd_ptr = 0, bb_initrd_size = 0,
     bb_fb_ptr = 0, bb_fb_size = 0, bb_fb_width = 0, bb_fb_height = 0, bb_fb_scanline = 0,
     bb_acpi_ptr = 0, bb_mmap = demo_mmap\<rparr>"

lemma demo_indices: "mmap_indices demo_bb = [1, 0]"
  by (simp add: mmap_indices_def demo_bb_def upt_rec)

lemma demo_entries:
  "usable_entry (demo_mmap 0)" "\<not> usable_entry (demo_mmap (Suc 0))" "raw_size (demo_mmap 0) = 0x5000"
  "get_type (demo_mmap 0) = Some Free" "get_type (demo_mmap (Suc 0)) = Some Used"
  by (simp_all add: usable_entry_def demo_mmap_def get_type_def raw_size_eq)

lemma demo_mmap_ok: "mmap_ok demo_bb"
  using demo_entries
  by (simp add: mmap_ok_def demo_indices ent_end_def) (simp add: demo_bb_def demo_mmap_def)

lemma demo_usable: "usable_segments demo_bb (mmap_indices demo_bb) = [segment_new 0x100000 0x5000]"
  using demo_entries
  by (simp add: usable_segments_def demo_indices entry_segment_def)
    (simp add: demo_bb_def demo_mmap_def usable_entry_def get_type_def raw_size_eq round_up_def round_down_def)

lemma demo_header_total: "header_total demo_bb = 32"
  by (simp add: header_total_def demo_usable header_bytes_def bitmap_words_def seg_pages_def
      segment_new_def round_up_def)

lemma demo_first_fit:
  "List.find (\<lambda>s. round_up (header_total demo_bb) 4096 \<le> seg_size s)
     (usable_segments demo_bb (mmap_indices demo_bb)) = Some (segment_new 0x100000 0x5000)"
  by (simp add: demo_usable demo_header_total segment_new_def round_up_def)

lemma demo_types: "\<forall>i \<in> set (mmap_indices demo_bb). get_type (bb_mmap demo_bb i) \<noteq> None"
  by (simp add: demo_indices) (simp add: demo_bb_def demo_mmap_def get_type_def)

lemma demo_bb_size: "sizeof_BootBoot \<le> bb_size demo_bb"
  by (simp add: demo_bb_def)

lemma demo_init: "\<exists>pfa. phys_init x86_ref demo_bb = Some pfa"
  by (rule ref.phys_init_total [OF demo_mmap_ok demo_bb_size demo_types demo_first_fit])
    (simp_all add: demo_header_total segment_new_def round_up_def)



text \<open>
  C17. Initialisation is sound. Whatever \<open>phys::init\<close> returns satisfies the invariant of the
  allocator; every frame it can ever hand out lies inside a usable region of the memory map
  and outside the memory that holds the allocator's own headers; and the headers with their
  bitmaps lie one after the other inside that memory.
\<close>

theorem phys_init_sound:
  assumes "x86_crate X" and "mmap_ok bb" and "phys_init X bb = Some pfa"
  shows "phys_inv pfa \<and>
    (\<forall>f \<in> managed pfa.
       (\<exists>e \<in> set (map (bb_mmap bb) (mmap_indices bb)).
          usable_entry e \<and> unat (ent_ptr e) \<le> f \<and> f + 4096 \<le> ent_end e) \<and>
       (f + 4096 \<le> phyframe pfa \<or> phyframe pfa + round_up (pfa_size pfa) 4096 \<le> f)) \<and>
    sorted_wrt (\<lambda>(p, s) (q, t). p + header_bytes s \<le> q) (segments pfa) \<and>
    (\<forall>(p, s) \<in> set (segments pfa).
       phyframe pfa \<le> p \<and> p + header_bytes s \<le> phyframe pfa + pfa_size pfa)"
  using x86_crate.phys_init_inv_lemma [OF assms] x86_crate.phys_init_managed_lemma [OF assms]
    x86_crate.phys_init_headers_lemma [OF assms(1,3)] by blast

theorem phys_init_sound_witness:
  "\<exists>pfa. phys_init x86_ref demo_bb = Some pfa \<and> phys_inv pfa \<and> managed pfa \<subseteq> {0x100000..<0x105000}"
proof -
  obtain pfa where pfa: "phys_init x86_ref demo_bb = Some pfa"
    using demo_init by blast
  note s = phys_init_sound [OF ref.x86_crate_axioms demo_mmap_ok pfa]
  have "f \<in> {0x100000..<0x105000}" if "f \<in> managed pfa" for f
    using s that by (auto simp: demo_indices ent_end_def demo_entries)
      (auto simp: demo_bb_def demo_mmap_def usable_entry_def get_type_def raw_size_eq)
  with pfa s show ?thesis by blast
qed

text \<open>
  Which frames are free after initialisation. For every segment these are its first
  \<open>fresh_pages\<close> pages: all of them, except that a segment whose number of pages is a
  multiple of 64 loses its last 64 pages, because \<open>u64::MAX << 0\<close> marks its whole last
  bitmap word as used.
\<close>

theorem phys_init_free:
  assumes "x86_crate X" and "phys_init X bb = Some pfa"
  shows "free_list pfa =
    concat (map (\<lambda>(p, s). map (seg_frame s) [0..<if seg_pages s mod 64 = 0 then seg_pages s - 64 else seg_pages s])
      (segments pfa))"
  using x86_crate.phys_init_free_lemma [OF assms] unfolding fresh_pages_def .

theorem phys_init_free_witness:
  "\<exists>pfa. phys_init x86_ref demo_bb = Some pfa \<and>
     free_list pfa = concat (map (\<lambda>(p, s). map (seg_frame s)
       [0..<if seg_pages s mod 64 = 0 then seg_pages s - 64 else seg_pages s]) (segments pfa))"
proof -
  obtain pfa where "phys_init x86_ref demo_bb = Some pfa"
    using demo_init by blast
  with phys_init_free [OF ref.x86_crate_axioms this] show ?thesis by blast
qed

lemma rounded_end:
  fixes p d :: nat
  assumes "a = p + (if d = 0 then 0 else 4096 - d)" and "n = r - c" and "d < 4096" and "c \<le> r"
  shows "p + r < a + n \<longleftrightarrow> 0 < d \<and> d + c < 4096"
  using assms by (auto split: if_splits)

text \<open>
  Regions that do not start on a page boundary. The accessors of a memory map entry
  round the start of the region up and its size down independently, so the segment made
  from them reaches past the end of the region exactly when the start is unaligned and the
  bytes cut off at both ends are together less than a page. This is why the soundness of
  initialisation asks for aligned regions.
\<close>

theorem segment_overrun:
  assumes "x86_crate X" and "phyadr X e = Some a" and "mmap_size X e = Some n"
  shows "ent_end e < a + n \<longleftrightarrow>
    0 < unat (ent_ptr e) mod 4096 \<and> unat (ent_ptr e) mod 4096 + raw_size e mod 4096 < 4096"
proof -
  have a: "a = round_up (unat (ent_ptr e)) 4096" and n: "n = round_down (raw_size e) 4096"
    using assms(2,3) x86_crate.phyadr_Some [OF assms(1)] x86_crate.mmap_size_eq [OF assms(1)] by auto
  have r: "raw_size e = raw_size e div 4096 * 4096 + raw_size e mod 4096" by simp
  have "a = unat (ent_ptr e) + (if unat (ent_ptr e) mod 4096 = 0 then 0 else 4096 - unat (ent_ptr e) mod 4096)"
    by (simp add: a round_up_eq)
  moreover have "n = raw_size e - raw_size e mod 4096"
    unfolding n round_down_def using r by linarith
  moreover have "unat (ent_ptr e) mod 4096 < 4096" "raw_size e mod 4096 \<le> raw_size e" by simp_all
  ultimately show ?thesis
    unfolding ent_end_def by (rule rounded_end)
qed

theorem segment_overrun_witness:
  "\<exists>a n. phyadr x86_ref \<lparr>ent_ptr = 0x100800, ent_size = 0x1001\<rparr> = Some a \<and>
     mmap_size x86_ref \<lparr>ent_ptr = 0x100800, ent_size = 0x1001\<rparr> = Some n \<and>
     ent_end \<lparr>ent_ptr = 0x100800, ent_size = 0x1001\<rparr> < a + n"
proof -
  define e :: MMapEnt where "e = \<lparr>ent_ptr = 0x100800, ent_size = 0x1001\<rparr>"
  have a: "phyadr x86_ref e = Some 0x101000"
    unfolding ref.phyadr_Some by (simp add: e_def round_up_def)
  from segment_overrun [OF ref.x86_crate_axioms a ref.mmap_size_eq]
  have "ent_end e < 0x101000 + round_down (raw_size e) 4096"
    by (simp add: e_def raw_size_eq)
  with a ref.mmap_size_eq show ?thesis unfolding e_def [symmetric] by blast
qed

end
