(* ===== verification/Window_Cache.thy ===== *)
theory Window_Cache
  imports Prelude
begin

text \<open>
  The interface between the cache of mapping windows (\<open>VCache\<close>) and its clients. A window is
  a page through which the kernel reaches a physical frame it names. \<open>held s\<close> are the
  windows given out, \<open>win s p\<close> is the frame the processor is sure to reach through window
  \<open>p\<close>, \<open>room s\<close> bounds the windows that can still be given out, of which window \<open>p\<close>
  takes \<open>cost p\<close>. A client that gives back what it takes finds the same room again.
\<close>

locale window_cache =
  fixes wmap :: "nat \<Rightarrow> 's \<Rightarrow> (nat option \<times> 's) option"
    and wremap :: "nat \<Rightarrow> nat \<Rightarrow> 's \<Rightarrow> (unit option \<times> 's) option"
    and wunmap :: "nat \<Rightarrow> 's \<Rightarrow> 's option"
    and held :: "'s \<Rightarrow> nat set"
    and win :: "'s \<Rightarrow> nat \<Rightarrow> nat option"
    and room :: "'s \<Rightarrow> nat"
    and cost :: "nat \<Rightarrow> nat"
    and okframe :: "nat \<Rightarrow> bool"
    and inv :: "'s \<Rightarrow> bool"
  assumes map_window:
      "inv s \<Longrightarrow> okframe f \<Longrightarrow> 0 < room s \<Longrightarrow>
       \<exists>p s'. wmap f s = Some (Some p, s') \<and> inv s' \<and> p \<notin> held s \<and> held s' = insert p (held s) \<and>
              win s' p = Some f \<and> (\<forall>q \<in> held s. win s' q = win s q) \<and> room s = room s' + cost p"
    and remap_window:
      "inv s \<Longrightarrow> okframe f \<Longrightarrow> p \<in> held s \<Longrightarrow>
       \<exists>s'. wremap p f s = Some (Some (), s') \<and> inv s' \<and> held s' = held s \<and>
            win s' p = Some f \<and> (\<forall>q \<in> held s - {p}. win s' q = win s q) \<and> room s' = room s"
    and unmap_window:
      "inv s \<Longrightarrow> p \<in> held s \<Longrightarrow>
       \<exists>s'. wunmap p s = Some s' \<and> inv s' \<and> held s' = held s - {p} \<and>
            (\<forall>q \<in> held s - {p}. win s' q = win s q) \<and> room s' = room s + cost p"
    and cost_le: "cost p \<le> 1"
begin

text \<open>Two windows at a time, as the page mapper takes them.\<close>

lemma map_two:
  assumes "inv s" "okframe f" "okframe g" "2 \<le> room s"
  shows "\<exists>p q s1 s2. wmap f s = Some (Some p, s1) \<and> wmap g s1 = Some (Some q, s2) \<and> inv s2 \<and>
    p \<notin> held s \<and> q \<notin> held s \<and> p \<noteq> q \<and> held s2 = {p, q} \<union> held s \<and>
    (\<forall>r \<in> held s. win s2 r = win s r) \<and> room s = room s2 + cost p + cost q"
proof -
  from assms have "0 < room s" by simp
  from map_window [OF assms(1,2) this] obtain p s1 where
    1: "wmap f s = Some (Some p, s1)" "inv s1" "p \<notin> held s" "held s1 = insert p (held s)"
      "\<forall>q \<in> held s. win s1 q = win s q" "room s = room s1 + cost p" by blast
  have "0 < room s1" using 1(6) assms(4) cost_le [of p] by simp
  from map_window [OF 1(2) assms(3) this] obtain q s2 where
    2: "wmap g s1 = Some (Some q, s2)" "inv s2" "q \<notin> held s1" "held s2 = insert q (held s1)"
      "\<forall>r \<in> held s1. win s2 r = win s1 r" "room s1 = room s2 + cost q" by blast
  have "held s2 = {p, q} \<union> held s" using 1(4) 2(4) by blast
  moreover have "q \<notin> held s" "p \<noteq> q" "\<forall>r \<in> held s. win s2 r = win s r"
    using 1(4,5) 2(3,5) by simp_all
  ultimately show ?thesis using 1(1,3,6) 2(1,2,6)
    by (intro exI [of _ p] exI [of _ q] exI [of _ s1] exI [of _ s2] conjI) simp_all
qed

lemma unmap_two:
  assumes "inv s" "p \<in> held s" "q \<in> held s" "p \<noteq> q"
  shows "\<exists>s1 s2. wunmap p s = Some s1 \<and> wunmap q s1 = Some s2 \<and> inv s2 \<and>
    held s2 = held s - {p, q} \<and> (\<forall>r \<in> held s - {p, q}. win s2 r = win s r) \<and>
    room s2 = room s + cost p + cost q"
proof -
  from unmap_window [OF assms(1,2)] obtain s1 where
    1: "wunmap p s = Some s1" "inv s1" "held s1 = held s - {p}"
      "\<forall>r \<in> held s - {p}. win s1 r = win s r" "room s1 = room s + cost p" by blast
  from 1(3) assms(3,4) have "q \<in> held s1" by simp
  from unmap_window [OF 1(2) this] obtain s2 where
    2: "wunmap q s1 = Some s2" "inv s2" "held s2 = held s1 - {q}"
      "\<forall>r \<in> held s1 - {q}. win s2 r = win s1 r" "room s2 = room s1 + cost q" by blast
  have "held s2 = held s - {p, q}" using 1(3) 2(3) by blast
  moreover have "\<forall>r \<in> held s - {p, q}. win s2 r = win s r" using 1(3,4) 2(4) by simp
  ultimately show ?thesis using 1(1,5) 2(1,2,5)
    by (intro exI [of _ s1] exI [of _ s2] conjI) simp_all
qed

end

end
