(* ===== verification/VCache.thy ===== *)
theory VCache
  imports X86_Crate Bootboot Window_Cache
begin

text \<open>
  The cache of mapping windows, \<open>kernel/src/mem/virt/vcache.rs\<close>. The first 8 MiB of the
  kernel half of the address space are 2048 pages whose last-level tables the kernel can
  always reach; \<open>map\<close> points one of them at a physical frame, \<open>remap\<close> points it at
  another, \<open>unmap\<close> marks it for reuse without touching the table (it stays \<^emph>\<open>lazy\<close> until
  the windows run out). \<open>vc_stale\<close> is the state of the processor the code has to care
  about: the windows whose entry changed since the processor was told to forget them
  (\<open>MapperFlush\<close>).
\<close>

section \<open>The cache\<close>

definition KVMSPACE :: nat where
  "KVMSPACE = 0xFFFF800000000000"

definition START_ADDR :: nat where
  "START_ADDR = KVMSPACE"

definition P1PAGE_COUNT :: nat where
  [simp]: "P1PAGE_COUNT = 2048"

definition P2PAGE_COUNT :: nat where
  [simp]: "P2PAGE_COUNT = P1PAGE_COUNT div 512"

definition VCACHE_SIZE :: nat where
  [simp]: "VCACHE_SIZE = P1PAGE_COUNT * PAGE_SIZE"

record VCache =
  vc_p1 :: "u64 list list"
  p2_freecount :: "nat list"
  p2_lazycount :: "nat list"
  p1_age :: "nat list list"
  vc_stale :: "nat set"

definition VCacheState_new :: "u64 list list \<Rightarrow> VCache" where
  "VCacheState_new p1 = \<lparr>vc_p1 = p1, p2_freecount = replicate P2PAGE_COUNT 512,
     p2_lazycount = replicate P2PAGE_COUNT 0,
     p1_age = replicate P2PAGE_COUNT (replicate 512 0), vc_stale = {}\<rparr>"

text \<open>Reads and writes of the two-level tables; an index out of bounds panics.\<close>

definition get2 :: "'a list list \<Rightarrow> nat \<Rightarrow> nat \<Rightarrow> 'a option" where
  "get2 xss i j = do { xs \<leftarrow> get xss i; get xs j }"

definition put2 :: "'a list list \<Rightarrow> nat \<Rightarrow> nat \<Rightarrow> 'a \<Rightarrow> 'a list list option" where
  "put2 xss i j v = do { xs \<leftarrow> get xss i; ys \<leftarrow> put xs j v; put xss i ys }"

definition slot_page :: "x86 \<Rightarrow> nat \<Rightarrow> nat \<Rightarrow> nat option" where
  "slot_page X p2i p1i = do {
     a \<leftarrow> virt_add X START_ADDR (PAGE_SIZE * (p2i * 512 + p1i));
     page_from_start X a }"

text \<open>Writing an entry leaves the processor with a stale translation of its page.\<close>

definition write_p1 :: "x86 \<Rightarrow> nat \<Rightarrow> nat \<Rightarrow> u64 \<Rightarrow> VCache \<Rightarrow> VCache option" where
  "write_p1 X p2i p1i e vc = do {
     p1 \<leftarrow> put2 (vc_p1 vc) p2i p1i e;
     page \<leftarrow> slot_page X p2i p1i;
     Some (vc\<lparr>vc_p1 := p1, vc_stale := insert page (vc_stale vc)\<rparr>) }"

definition flush :: "nat \<Rightarrow> VCache \<Rightarrow> VCache" where
  "flush page vc = vc\<lparr>vc_stale := vc_stale vc - {page}\<rparr>"

section \<open>\<open>VCache::map\<close>\<close>

text \<open>The search for a table with a free page.\<close>

fun scan_free :: "VCache \<Rightarrow> nat list \<Rightarrow> nat option \<Rightarrow> (nat option \<times> nat option) option" where
  "scan_free vc [] lazy = Some (lazy, None)"
| "scan_free vc (i # is) lazy = do {
     lazy' \<leftarrow> (case lazy of
       None \<Rightarrow> do { c \<leftarrow> get (p2_lazycount vc) i; Some (Some c) }
     | Some c \<Rightarrow> Some (Some c));
     free \<leftarrow> get (p2_freecount vc) i;
     if free \<noteq> 0 then Some (lazy', Some i) else scan_free vc is lazy' }"

text \<open>The loop that turns the lazy pages of one table into free ones.\<close>

fun reclaim :: "x86 \<Rightarrow> nat \<Rightarrow> nat \<Rightarrow> nat list \<Rightarrow> nat \<Rightarrow> nat option \<Rightarrow> VCache \<Rightarrow>
    (nat \<times> nat option \<times> VCache) option" where
  "reclaim X p2i limit [] found p1index vc = Some (found, p1index, vc)"
| "reclaim X p2i limit (p1i # is) found p1index vc =
     (if limit \<le> found then Some (found, p1index, vc)
      else do {
        age \<leftarrow> get2 (p1_age vc) p2i p1i;
        if age \<noteq> 0 then do {
          found' \<leftarrow> add16 found 1;
          ages \<leftarrow> put2 (p1_age vc) p2i p1i 0;
          e \<leftarrow> get2 (vc_p1 vc) p2i p1i;
          vc' \<leftarrow> write_p1 X p2i p1i (pte_set_flags X e (pte_flags X e - {PRESENT}))
            (vc\<lparr>p1_age := ages\<rparr>);
          reclaim X p2i limit is found' (Some p1i) vc' }
        else reclaim X p2i limit is found p1index vc })"

fun scan_lazy :: "x86 \<Rightarrow> nat option \<Rightarrow> nat list \<Rightarrow> VCache \<Rightarrow>
    (nat option \<times> nat option \<times> VCache) option" where
  "scan_lazy X lazy [] vc = Some (None, None, vc)"
| "scan_lazy X lazy (p2i # is) vc = do {
     c \<leftarrow> get (p2_lazycount vc) p2i;
     if c \<noteq> 0 then do {
       (found, p1index, vc') \<leftarrow>
         reclaim X p2i (case lazy of Some n \<Rightarrow> n | None \<Rightarrow> 0) [0..<512] 0 None vc;
       frees \<leftarrow> put (p2_freecount vc') p2i found;
       lazies \<leftarrow> put (p2_lazycount vc') p2i 0;
       Some (Some p2i, p1index, vc'\<lparr>p2_freecount := frees, p2_lazycount := lazies\<rparr>) }
     else scan_lazy X lazy is vc }"

text \<open>The first entry of a table that is not present.\<close>

fun scan_p1 :: "x86 \<Rightarrow> VCache \<Rightarrow> nat \<Rightarrow> nat list \<Rightarrow> nat option option" where
  "scan_p1 X vc p2i [] = Some None"
| "scan_p1 X vc p2i (p1i # is) = do {
     e \<leftarrow> get2 (vc_p1 vc) p2i p1i;
     if PRESENT \<notin> pte_flags X e then Some (Some p1i) else scan_p1 X vc p2i is }"

text \<open>The part of \<open>map\<close> after the table has been chosen.\<close>

definition map_in_table :: "x86 \<Rightarrow> nat \<Rightarrow> nat \<Rightarrow> nat option \<Rightarrow> VCache \<Rightarrow> (nat option \<times> VCache) option" where
  "map_in_table X physframe p2index p1index vc = do {
     free \<leftarrow> get (p2_freecount vc) p2index;
     free' \<leftarrow> sub64 free 1;
     frees \<leftarrow> put (p2_freecount vc) p2index free';
     let vc = vc\<lparr>p2_freecount := frees\<rparr>;
     (p1index, vc) \<leftarrow> (case p1index of
       Some p1i \<Rightarrow> Some (p1i, vc)
     | None \<Rightarrow> do {
         r \<leftarrow> scan_p1 X vc p2index [0..<512];
         p1i \<leftarrow> r;
         ages \<leftarrow> put2 (p1_age vc) p2index p1i 0;
         Some (p1i, vc\<lparr>p1_age := ages\<rparr>) });
     vc \<leftarrow> write_p1 X p2index p1index
       (pte_set_frame X (pte_new X) physframe {WRITABLE, GLOBAL, PRESENT}) vc;
     page \<leftarrow> slot_page X p2index p1index;
     Some (Some page, flush page vc) }"

definition vc_map :: "x86 \<Rightarrow> nat \<Rightarrow> VCache \<Rightarrow> (nat option \<times> VCache) option" where
  "vc_map X physframe vc = do {
     (lazy, p2index) \<leftarrow> scan_free vc [0..<P2PAGE_COUNT] None;
     case p2index of
       Some p2i \<Rightarrow> map_in_table X physframe p2i None vc
     | None \<Rightarrow>
         if lazy = None then Some (None, vc)
         else do {
           (p2index, p1index, vc) \<leftarrow> scan_lazy X lazy [0..<P2PAGE_COUNT] vc;
           p2i \<leftarrow> p2index;
           map_in_table X physframe p2i p1index vc } }"

section \<open>The other operations\<close>

definition vc_p2_index :: "x86 \<Rightarrow> nat \<Rightarrow> nat option" where
  "vc_p2_index X page = sub64 (p2_index X page) (p2_index X START_ADDR)"

definition unmap :: "x86 \<Rightarrow> nat \<Rightarrow> VCache \<Rightarrow> VCache option" where
  "unmap X page vc = do {
     p2i \<leftarrow> vc_p2_index X page;
     ages \<leftarrow> put2 (p1_age vc) p2i (p1_index X page) 1;
     c \<leftarrow> get (p2_lazycount vc) p2i;
     c' \<leftarrow> add16 c 1;
     lazies \<leftarrow> put (p2_lazycount vc) p2i c';
     Some (vc\<lparr>p1_age := ages, p2_lazycount := lazies\<rparr>) }"

definition unmap_many :: "x86 \<Rightarrow> nat list \<Rightarrow> VCache \<Rightarrow> VCache option" where
  "unmap_many X pages vc = fold_opt (unmap X) pages vc"

fun map_many_loop :: "x86 \<Rightarrow> nat list \<Rightarrow> nat list \<Rightarrow> VCache \<Rightarrow> (nat list option \<times> VCache) option" where
  "map_many_loop X [] result vc = Some (Some result, vc)"
| "map_many_loop X (f # fs) result vc = do {
     (r, vc) \<leftarrow> vc_map X f vc;
     case r of
       Some page \<Rightarrow> map_many_loop X fs (result @ [page]) vc
     | None \<Rightarrow> do { vc \<leftarrow> unmap_many X result vc; Some (None, vc) } }"

definition map_many :: "x86 \<Rightarrow> nat list \<Rightarrow> VCache \<Rightarrow> (nat list option \<times> VCache) option" where
  "map_many X phy_addrs vc = map_many_loop X phy_addrs [] vc"

definition remap :: "x86 \<Rightarrow> nat \<Rightarrow> nat \<Rightarrow> VCache \<Rightarrow> (unit option \<times> VCache) option" where
  "remap X page physframe vc = do {
     limit \<leftarrow> virt_add X START_ADDR VCACHE_SIZE;
     if page < START_ADDR \<or> limit \<le> page then Some (None, vc)
     else do {
       p2i \<leftarrow> vc_p2_index X page;
       e \<leftarrow> get2 (vc_p1 vc) p2i (p1_index X page);
       if \<not> pte_is_unused X e \<and> pte_frame X e = Some physframe then Some (Some (), vc)
       else do {
         vc \<leftarrow> write_p1 X p2i (p1_index X page)
           (pte_set_frame X (pte_new X) physframe {WRITABLE, GLOBAL, PRESENT}) vc;
         Some (Some (), flush page vc) } } }"

section \<open>Invariant and abstraction\<close>

definition entry_present :: "x86 \<Rightarrow> u64 \<Rightarrow> bool" where
  "entry_present X e \<longleftrightarrow> PRESENT \<in> pte_flags X e"

text \<open>
  One table: the counters count, a lazy page is present, and a present page has a frame.
\<close>

definition tab_ok :: "x86 \<Rightarrow> nat \<Rightarrow> nat \<Rightarrow> u64 list \<Rightarrow> nat list \<Rightarrow> bool" where
  "tab_ok X free lazy es as \<longleftrightarrow>
     length es = 512 \<and> length as = 512 \<and>
     free = count_if (\<lambda>e. \<not> entry_present X e) es \<and> lazy = count_if (\<lambda>a. a \<noteq> 0) as \<and>
     (\<forall>j<512. as ! j \<noteq> 0 \<longrightarrow> entry_present X (es ! j)) \<and>
     (\<forall>j<512. entry_present X (es ! j) \<longrightarrow> pte_frame X (es ! j) \<noteq> None)"

definition win_page :: "nat \<Rightarrow> nat \<Rightarrow> nat" where
  "win_page i j = KVMSPACE + 4096 * (i * 512 + j)"

definition is_held :: "x86 \<Rightarrow> VCache \<Rightarrow> nat \<Rightarrow> nat \<Rightarrow> bool" where
  "is_held X vc i j \<longleftrightarrow> entry_present X (vc_p1 vc ! i ! j) \<and> p1_age vc ! i ! j = 0"

definition vc_inv :: "x86 \<Rightarrow> VCache \<Rightarrow> bool" where
  "vc_inv X vc \<longleftrightarrow>
     length (vc_p1 vc) = 4 \<and> length (p2_freecount vc) = 4 \<and> length (p2_lazycount vc) = 4 \<and>
     length (p1_age vc) = 4 \<and>
     (\<forall>i<4. tab_ok X (p2_freecount vc ! i) (p2_lazycount vc ! i) (vc_p1 vc ! i) (p1_age vc ! i)) \<and>
     (\<forall>i<4. \<forall>j<512. is_held X vc i j \<longrightarrow> win_page i j \<notin> vc_stale vc)"

definition vc_held :: "x86 \<Rightarrow> VCache \<Rightarrow> nat set" where
  "vc_held X vc = {win_page i j | i j. i < 4 \<and> j < 512 \<and> is_held X vc i j}"

text \<open>The frame the processor reaches through a window, when its translation is current.\<close>

definition vc_win :: "x86 \<Rightarrow> VCache \<Rightarrow> nat \<Rightarrow> nat option" where
  "vc_win X vc p =
     (if KVMSPACE \<le> p \<and> p < KVMSPACE + VCACHE_SIZE \<and> page_aligned p \<and> p \<notin> vc_stale vc
      then pte_frame X (vc_p1 vc ! ((p - KVMSPACE) div 2 ^ 21) ! ((p - KVMSPACE) div 4096 mod 512))
      else None)"

text \<open>
  The windows of the first table that are not held. \<open>map\<close> can always reuse these; lazy
  windows of the other tables it never finds once the free ones are gone.
\<close>

definition vc_room :: "VCache \<Rightarrow> nat" where
  "vc_room vc = p2_freecount vc ! 0 + p2_lazycount vc ! 0"

definition vc_cost :: "nat \<Rightarrow> nat" where
  "vc_cost p = (if p < KVMSPACE + 2 ^ 21 then 1 else 0)"

section \<open>Slots and pages\<close>

lemma get2_ok [simp]: "i < length xss \<Longrightarrow> j < length (xss ! i) \<Longrightarrow> get2 xss i j = Some (xss ! i ! j)"
  by (simp add: get2_def)

lemma put2_ok [simp]:
  "i < length xss \<Longrightarrow> j < length (xss ! i) \<Longrightarrow> put2 xss i j v = Some (xss[i := (xss ! i)[j := v]])"
  by (simp add: put2_def)

lemma nth2_update:
  "i < length xss \<Longrightarrow> j < length (xss ! i) \<Longrightarrow>
   xss[i := (xss ! i)[j := v]] ! k ! l = (if k = i \<and> l = j then v else xss ! k ! l)"
  by (auto simp: nth_list_update_If)

lemma win_page_split: "win_page i j = KVMSPACE + 2 ^ 21 * i + 4096 * j"
  by (simp add: win_page_def)

lemma win_page_div: "j < 512 \<Longrightarrow> (win_page i j - KVMSPACE) div 2 ^ 21 = i"
  by (simp add: win_page_split div_nat_eqI)

lemma win_page_mod: "j < 512 \<Longrightarrow> (win_page i j - KVMSPACE) div 4096 mod 512 = j"
  by (simp add: win_page_def)

lemma win_page_inj: "j < 512 \<Longrightarrow> l < 512 \<Longrightarrow> win_page i j = win_page k l \<longleftrightarrow> i = k \<and> j = l"
  using win_page_div win_page_mod by metis

lemma win_page_bounds:
  "i < 4 \<Longrightarrow> j < 512 \<Longrightarrow> KVMSPACE \<le> win_page i j \<and> win_page i j < KVMSPACE + VCACHE_SIZE \<and>
   page_aligned (win_page i j)"
  by (auto simp: win_page_def KVMSPACE_def)

lemma win_page_cost: "j < 512 \<Longrightarrow> vc_cost (win_page i j) = (if i = 0 then 1 else 0)"
  by (auto simp: vc_cost_def win_page_split)

lemma vc_win_page:
  "i < 4 \<Longrightarrow> j < 512 \<Longrightarrow>
   vc_win X vc (win_page i j) = (if win_page i j \<in> vc_stale vc then None else pte_frame X (vc_p1 vc ! i ! j))"
  using win_page_bounds [of i j] win_page_div [of j i] by (simp add: vc_win_def win_page_mod)

lemma win_page_held: "i < 4 \<Longrightarrow> j < 512 \<Longrightarrow> win_page i j \<in> vc_held X vc \<longleftrightarrow> is_held X vc i j"
  by (auto simp: vc_held_def win_page_inj)

lemma vc_heldE:
  assumes "p \<in> vc_held X vc"
  obtains i j where "i < 4" "j < 512" "p = win_page i j" "is_held X vc i j"
  using assms by (auto simp: vc_held_def)

lemma tab_okD:
  assumes "vc_inv X vc" "i < 4"
  shows "tab_ok X (p2_freecount vc ! i) (p2_lazycount vc ! i) (vc_p1 vc ! i) (p1_age vc ! i)"
    and "length (vc_p1 vc) = 4" "length (p2_freecount vc) = 4" "length (p2_lazycount vc) = 4"
    and "length (p1_age vc) = 4" "length (vc_p1 vc ! i) = 512" "length (p1_age vc ! i) = 512"
  using assms by (auto simp: vc_inv_def tab_ok_def)

context x86_crate
begin

lemma slot_page_eq: "i < 4 \<Longrightarrow> j < 512 \<Longrightarrow> slot_page X i j = Some (win_page i j)"
  using win_page_bounds [of i j]
  by (simp add: slot_page_def crate_eqs START_ADDR_def win_page_def canonical_def KVMSPACE_def)

lemma vc_p2_index_eq: "i < 4 \<Longrightarrow> j < 512 \<Longrightarrow> vc_p2_index X (win_page i j) = Some i"
proof -
  assume "i < 4" "j < 512"
  have "win_page i j div 2 ^ 21 = KVMSPACE div 2 ^ 21 + i"
    using \<open>j < 512\<close> by (intro div_nat_eqI) (auto simp: win_page_split KVMSPACE_def)
  moreover have "KVMSPACE div 2 ^ 21 = 512 * 17179738112" by (simp add: KVMSPACE_def)
  ultimately have "win_page i j div 2 ^ 21 mod 512 = i"
    using \<open>i < 4\<close> by (simp only: mod_mult_self4) simp
  moreover have "KVMSPACE div 2 ^ 21 mod 512 = 0" by (simp add: KVMSPACE_def)
  ultimately show ?thesis
    by (simp only: vc_p2_index_def p2_index_eq START_ADDR_def) (simp add: sub64_def)
qed

lemma win_page_p1_index: "j < 512 \<Longrightarrow> p1_index X (win_page i j) = j"
proof -
  assume "j < 512"
  have "win_page i j div 2 ^ 12 = 512 * (8796025913344 + i) + j"
    by (simp add: win_page_def KVMSPACE_def)
  with \<open>j < 512\<close> show ?thesis by (simp only: p1_index_eq mod_mult_self4) simp
qed

lemma write_p1_eq:
  "i < 4 \<Longrightarrow> j < 512 \<Longrightarrow> length (vc_p1 vc) = 4 \<Longrightarrow> length (vc_p1 vc ! i) = 512 \<Longrightarrow>
   write_p1 X i j e vc = Some (vc\<lparr>vc_p1 := (vc_p1 vc)[i := (vc_p1 vc ! i)[j := e]],
     vc_stale := insert (win_page i j) (vc_stale vc)\<rparr>)"
  by (simp add: write_p1_def slot_page_eq)

end

section \<open>What the steps of \<open>map\<close> do\<close>

text \<open>The state after a free slot has been pointed at a frame and its page flushed.\<close>

definition window_pte :: "x86 \<Rightarrow> nat \<Rightarrow> u64" where
  "window_pte X f = pte_set_frame X 0 f {WRITABLE, GLOBAL, PRESENT}"

definition occupy :: "x86 \<Rightarrow> nat \<Rightarrow> nat \<Rightarrow> nat \<Rightarrow> VCache \<Rightarrow> VCache" where
  "occupy X f i j vc = vc\<lparr>
     vc_p1 := (vc_p1 vc)[i := (vc_p1 vc ! i)[j := window_pte X f]],
     p2_freecount := (p2_freecount vc)[i := p2_freecount vc ! i - 1],
     vc_stale := insert (win_page i j) (vc_stale vc) - {win_page i j}\<rparr>"

lemma scan_p1_first:
  assumes "\<forall>j \<in> set js. p2i < length (vc_p1 vc) \<and> j < length (vc_p1 vc ! p2i)"
  shows "scan_p1 X vc p2i js = Some (List.find (\<lambda>j. \<not> entry_present X (vc_p1 vc ! p2i ! j)) js)"
  using assms by (induction js) (auto simp: entry_present_def)

lemma scan_free_lazy:
  assumes "\<forall>i \<in> set is. i < length (p2_freecount vc)"
  shows "scan_free vc is (Some c) = Some (Some c, List.find (\<lambda>i. p2_freecount vc ! i \<noteq> 0) is)"
  using assms by (induction "is") auto

lemma scan_free_eq:
  assumes "length (p2_freecount vc) = 4" "length (p2_lazycount vc) = 4"
  shows "scan_free vc [0..<4] None =
    Some (Some (p2_lazycount vc ! 0), List.find (\<lambda>i. p2_freecount vc ! i \<noteq> 0) [0..<4])"
proof -
  have "[0..<4] = 0 # [1..<4 :: nat]" by (simp add: upt_rec)
  then show ?thesis using assms scan_free_lazy [of "[1..<4]" vc "p2_lazycount vc ! 0"]
    by (simp only: scan_free.simps) simp
qed

context x86_crate
begin

lemma window_pte:
  assumes "page_aligned f" "f < 2 ^ 52"
  shows "entry_present X (window_pte X f)" "pte_frame X (window_pte X f) = Some f"
  using assms pte_flags_set_frame pte_frame_set_frame
  by (simp_all add: window_pte_def entry_present_def)

text \<open>Taking the first free slot of a table.\<close>

lemma free_slot:
  assumes "vc_inv X vc" "i < 4" "p2_freecount vc ! i \<noteq> 0"
  shows "\<exists>j<512. List.find (\<lambda>j. \<not> entry_present X (vc_p1 vc ! i ! j)) [0..<512] = Some j \<and>
    \<not> entry_present X (vc_p1 vc ! i ! j)"
proof -
  note t = tab_okD [OF assms(1,2)]
  have "0 < count_if (\<lambda>e. \<not> entry_present X e) (vc_p1 vc ! i)"
    using t(1) assms(3) by (simp add: tab_ok_def)
  then obtain j where "j < 512" "\<not> entry_present X (vc_p1 vc ! i ! j)"
    using t(6) by (auto simp: count_if_pos in_set_conv_nth)
  then have "List.find (\<lambda>j. \<not> entry_present X (vc_p1 vc ! i ! j)) [0..<512] \<noteq> None"
    by (auto simp: find_None_iff)
  then show ?thesis by (auto simp: find_upt_Some)
qed

lemma map_in_table_None:
  assumes "vc_inv X vc" "i < 4" "p2_freecount vc ! i \<noteq> 0"
  shows "\<exists>j<512. \<not> entry_present X (vc_p1 vc ! i ! j) \<and>
    map_in_table X f i None vc = Some (Some (win_page i j), occupy X f i j vc)"
proof -
  obtain j where j: "j < 512" "\<not> entry_present X (vc_p1 vc ! i ! j)"
    "List.find (\<lambda>j. \<not> entry_present X (vc_p1 vc ! i ! j)) [0..<512] = Some j"
    using free_slot [OF assms] by blast
  note t = tab_okD [OF assms(1,2)]
  have "p1_age vc ! i ! j = 0" using t(1) j by (auto simp: tab_ok_def)
  then have age: "(p1_age vc)[i := (p1_age vc ! i)[j := 0]] = p1_age vc"
    by (metis list_update_id)
  have "scan_p1 X (vc\<lparr>p2_freecount := fc\<rparr>) i [0..<512] = Some (Some j)" for fc
    using t j assms(2) by (subst scan_p1_first) auto
  with t j assms(2,3) age show ?thesis
    by (intro exI [of _ j])
      (simp add: map_in_table_def sub64_def write_p1_eq slot_page_eq pte_new_eq occupy_def
        flush_def window_pte_def)
qed

lemma map_in_table_Some:
  assumes "vc_inv X vc" "i < 4" "j < 512" "p2_freecount vc ! i \<noteq> 0"
  shows "map_in_table X f i (Some j) vc = Some (Some (win_page i j), occupy X f i j vc)"
  using tab_okD [OF assms(1,2)] assms
  by (simp add: map_in_table_def sub64_def write_p1_eq slot_page_eq pte_new_eq occupy_def
      flush_def window_pte_def)

lemma occupy_props:
  assumes inv: "vc_inv X vc" and i: "i < 4" and j: "j < 512"
    and free: "\<not> entry_present X (vc_p1 vc ! i ! j)" and f: "page_aligned f" "f < 2 ^ 52"
  shows "vc_inv X (occupy X f i j vc)"
    and "k < 4 \<Longrightarrow> l < 512 \<Longrightarrow> is_held X (occupy X f i j vc) k l \<longleftrightarrow> (k = i \<and> l = j) \<or> is_held X vc k l"
    and "vc_win X (occupy X f i j vc) (win_page i j) = Some f"
    and "k < 4 \<Longrightarrow> l < 512 \<Longrightarrow> (k, l) \<noteq> (i, j) \<Longrightarrow>
      vc_win X (occupy X f i j vc) (win_page k l) = vc_win X vc (win_page k l)"
    and "vc_room vc = vc_room (occupy X f i j vc) + vc_cost (win_page i j)"
proof -
  note t = tab_okD [OF inv i]
  have age: "p1_age vc ! i ! j = 0" using t(1) free j by (auto simp: tab_ok_def)
  have pos: "p2_freecount vc ! i = count_if (\<lambda>e. \<not> entry_present X e) (vc_p1 vc ! i)"
    and pos': "0 < p2_freecount vc ! i"
    using t(1,6) free j nth_mem [of j "vc_p1 vc ! i"] by (auto simp: tab_ok_def count_if_pos)
  show held: "is_held X (occupy X f i j vc) k l \<longleftrightarrow> (k = i \<and> l = j) \<or> is_held X vc k l"
    if "k < 4" "l < 512" for k l
    using that t i j age window_pte [OF f]
    by (auto simp: is_held_def occupy_def nth2_update)
  have "count_if (\<lambda>e. \<not> entry_present X e) ((vc_p1 vc ! i)[j := window_pte X f]) = p2_freecount vc ! i - 1"
    using count_if_update [of j "vc_p1 vc ! i" "\<lambda>e. \<not> entry_present X e" "window_pte X f"]
      t(6) j free pos window_pte [OF f] by simp
  with t(1) j window_pte [OF f]
  have "tab_ok X (p2_freecount vc ! i - 1) (p2_lazycount vc ! i) ((vc_p1 vc ! i)[j := window_pte X f]) (p1_age vc ! i)"
    by (auto simp: tab_ok_def nth_list_update_If)
  then have tabs: "tab_ok X (p2_freecount (occupy X f i j vc) ! k) (p2_lazycount (occupy X f i j vc) ! k)
      (vc_p1 (occupy X f i j vc) ! k) (p1_age (occupy X f i j vc) ! k)" if "k < 4" for k
    using that i t(2-5) tab_okD(1) [OF inv that] by (cases "k = i") (simp_all add: occupy_def)
  have stale: "win_page k l \<in> vc_stale (occupy X f i j vc) \<longleftrightarrow> (k, l) \<noteq> (i, j) \<and> win_page k l \<in> vc_stale vc"
    if "l < 512" for k l
    using that j by (auto simp: occupy_def win_page_inj)
  have "\<forall>k<4. \<forall>l<512. is_held X (occupy X f i j vc) k l \<longrightarrow> win_page k l \<notin> vc_stale (occupy X f i j vc)"
    using held stale inv by (auto simp: vc_inv_def)
  with tabs t(2-5) show "vc_inv X (occupy X f i j vc)"
    unfolding vc_inv_def by (simp add: occupy_def)
  show "vc_win X (occupy X f i j vc) (win_page i j) = Some f"
    using i j t window_pte [OF f] stale [OF j, of i]
    by (simp add: vc_win_page) (simp add: occupy_def)
  show "vc_win X (occupy X f i j vc) (win_page k l) = vc_win X vc (win_page k l)"
    if "k < 4" "l < 512" "(k, l) \<noteq> (i, j)" for k l
    using that i j t stale [of l k] by (simp add: vc_win_page) (auto simp: occupy_def nth2_update)
  show "vc_room vc = vc_room (occupy X f i j vc) + vc_cost (win_page i j)"
    using i j t pos' by (auto simp: vc_room_def win_page_cost) (auto simp: occupy_def)
qed

end

section \<open>Reclaiming lazy pages\<close>

text \<open>
  \<open>cleaned X i J vc vc'\<close>: \<open>vc'\<close> is \<open>vc\<close> with the lazy slots of table \<open>i\<close> whose index is
  in \<open>J\<close> turned into free ones, the counters apart.
\<close>

definition cleaned :: "x86 \<Rightarrow> nat \<Rightarrow> nat set \<Rightarrow> VCache \<Rightarrow> VCache \<Rightarrow> bool" where
  "cleaned X i J vc vc' \<longleftrightarrow>
     p2_freecount vc' = p2_freecount vc \<and> p2_lazycount vc' = p2_lazycount vc \<and>
     length (vc_p1 vc') = length (vc_p1 vc) \<and> length (p1_age vc') = length (p1_age vc) \<and>
     length (vc_p1 vc' ! i) = length (vc_p1 vc ! i) \<and> length (p1_age vc' ! i) = length (p1_age vc ! i) \<and>
     (\<forall>k. k \<noteq> i \<longrightarrow> vc_p1 vc' ! k = vc_p1 vc ! k \<and> p1_age vc' ! k = p1_age vc ! k) \<and>
     (\<forall>j<512. p1_age vc' ! i ! j = (if j \<in> J then 0 else p1_age vc ! i ! j) \<and>
        (if j \<in> J \<and> p1_age vc ! i ! j \<noteq> 0 then \<not> entry_present X (vc_p1 vc' ! i ! j)
         else vc_p1 vc' ! i ! j = vc_p1 vc ! i ! j)) \<and>
     vc_stale vc' = vc_stale vc \<union> {win_page i j | j. j \<in> J \<and> p1_age vc ! i ! j \<noteq> 0}"

lemma cleaned_none:
  "\<forall>j \<in> J. p1_age vc ! i ! j = 0 \<Longrightarrow> cleaned X i J vc vc"
  by (auto simp: cleaned_def)

lemma cleaned_skip:
  assumes "cleaned X i J vc vc'" "p1_age vc ! i ! j = 0"
  shows "cleaned X i (insert j J) vc vc'"
  using assms unfolding cleaned_def by auto

context x86_crate
begin

lemma cleaned_step:
  assumes "i < 4" "j < 512" "length (vc_p1 vc) = 4" "length (vc_p1 vc ! i) = 512"
    "length (p1_age vc) = 4" "length (p1_age vc ! i) = 512" "p1_age vc ! i ! j \<noteq> 0" "j \<notin> J"
    "\<not> entry_present X e"
    and c: "cleaned X i J (vc\<lparr>p1_age := (p1_age vc)[i := (p1_age vc ! i)[j := 0]],
      vc_p1 := (vc_p1 vc)[i := (vc_p1 vc ! i)[j := e]],
      vc_stale := insert (win_page i j) (vc_stale vc)\<rparr>) vc'"
  shows "cleaned X i (insert j J) vc vc'"
proof -
  have "vc_stale vc' = vc_stale vc \<union> {win_page i l | l. l \<in> insert j J \<and> p1_age vc ! i ! l \<noteq> 0}"
    using c assms(1-8) unfolding cleaned_def by (auto simp: nth_list_update_If)
  moreover have "\<forall>l<512. p1_age vc' ! i ! l = (if l \<in> insert j J then 0 else p1_age vc ! i ! l) \<and>
      (if l \<in> insert j J \<and> p1_age vc ! i ! l \<noteq> 0 then \<not> entry_present X (vc_p1 vc' ! i ! l)
       else vc_p1 vc' ! i ! l = vc_p1 vc ! i ! l)"
    using c assms(1-9) unfolding cleaned_def by (auto simp: nth_list_update_If)
  ultimately show ?thesis using c assms(1-6) unfolding cleaned_def by simp
qed

lemma reclaim_eq:
  assumes "i < 4" "distinct js" "set js \<subseteq> {..<512}" "length (vc_p1 vc) = 4"
    "length (vc_p1 vc ! i) = 512" "length (p1_age vc) = 4" "length (p1_age vc ! i) = 512"
    "found + count_if (\<lambda>j. p1_age vc ! i ! j \<noteq> 0) js = limit" "limit < 2 ^ 16"
  shows "\<exists>vc' p1'. reclaim X i limit js found p1index vc = Some (limit, p1', vc') \<and>
    cleaned X i (set js) vc vc' \<and>
    (p1' = p1index \<and> (\<forall>j \<in> set js. p1_age vc ! i ! j = 0) \<or>
     (\<exists>j \<in> set js. p1' = Some j \<and> p1_age vc ! i ! j \<noteq> 0))"
  using assms
proof (induction js arbitrary: found p1index vc)
  case Nil
  then show ?case by (simp add: cleaned_none)
next
  case (Cons j js)
  show ?case
  proof (cases "limit \<le> found")
    case True
    with Cons.prems(8) have "\<forall>l \<in> set (j # js). p1_age vc ! i ! l = 0"
      by (auto simp: count_if_0 split: if_splits)
    with True Cons.prems(8) show ?thesis by (auto simp: cleaned_none)
  next
    case False
    show ?thesis
    proof (cases "p1_age vc ! i ! j = 0")
      case True
      with Cons.prems Cons.IH [of vc found p1index] obtain vc' p1' where
        r: "reclaim X i limit js found p1index vc = Some (limit, p1', vc')" "cleaned X i (set js) vc vc'"
          "p1' = p1index \<and> (\<forall>j \<in> set js. p1_age vc ! i ! j = 0) \<or>
           (\<exists>j \<in> set js. p1' = Some j \<and> p1_age vc ! i ! j \<noteq> 0)" by auto
      have "reclaim X i limit (j # js) found p1index vc = Some (limit, p1', vc')"
        using r(1) True False Cons.prems by simp
      moreover have "cleaned X i (set (j # js)) vc vc'" using cleaned_skip [OF r(2) True] by simp
      moreover have "p1' = p1index \<and> (\<forall>l \<in> set (j # js). p1_age vc ! i ! l = 0) \<or>
          (\<exists>l \<in> set (j # js). p1' = Some l \<and> p1_age vc ! i ! l \<noteq> 0)"
        using r(3) True by auto
      ultimately show ?thesis by blast
    next
      case lazy: False
      define e where "e = pte_set_flags X (vc_p1 vc ! i ! j) (pte_flags X (vc_p1 vc ! i ! j) - {PRESENT})"
      define vc1 where "vc1 = vc\<lparr>p1_age := (p1_age vc)[i := (p1_age vc ! i)[j := 0]],
        vc_p1 := (vc_p1 vc)[i := (vc_p1 vc ! i)[j := e]], vc_stale := insert (win_page i j) (vc_stale vc)\<rparr>"
      have e: "\<not> entry_present X e" by (simp add: e_def entry_present_def pte_flags_set_flags)
      have same: "p1_age vc1 ! i ! l = p1_age vc ! i ! l" if "l \<in> set js" for l
      proof -
        from that Cons.prems(2) have "j \<noteq> l" by auto
        with Cons.prems(1,6) show ?thesis by (simp add: vc1_def)
      qed
      then have "count_if (\<lambda>l. p1_age vc1 ! i ! l \<noteq> 0) js = count_if (\<lambda>l. p1_age vc ! i ! l \<noteq> 0) js"
        by (intro count_if_cong) auto
      with Cons.prems Cons.IH [of vc1 "Suc found" "Some j"] lazy
      obtain vc' p1' where r: "reclaim X i limit js (Suc found) (Some j) vc1 = Some (limit, p1', vc')"
        "cleaned X i (set js) vc1 vc'"
        "p1' = Some j \<or> (\<exists>l \<in> set js. p1' = Some l \<and> p1_age vc1 ! i ! l \<noteq> 0)"
        by (auto simp: vc1_def)
      have "reclaim X i limit (j # js) found p1index vc = Some (limit, p1', vc')"
        using r(1) False lazy Cons.prems
        by (simp add: add16_def write_p1_eq vc1_def e_def)
      moreover have "cleaned X i (set (j # js)) vc vc'"
        using cleaned_step [OF Cons.prems(1) _ Cons.prems(4,5,6,7) lazy _ e r(2) [unfolded vc1_def]]
          Cons.prems(2,3) by simp
      moreover have "\<exists>l \<in> set (j # js). p1' = Some l \<and> p1_age vc ! i ! l \<noteq> 0"
        using r(3) same lazy by auto
      ultimately show ?thesis by blast
    qed
  qed
qed

text \<open>
  When no table has a free page, the pass over the first table's lazy pages gives a state with
  the same held windows in which that table has free pages.
\<close>

lemma reclaimed_props:
  assumes inv: "vc_inv X vc" and full: "p2_freecount vc ! 0 = 0" and c: "cleaned X 0 {..<512} vc vc'"
    and vc2: "vc2 = vc'\<lparr>p2_freecount := (p2_freecount vc')[0 := p2_lazycount vc ! 0],
      p2_lazycount := (p2_lazycount vc')[0 := 0]\<rparr>"
  shows "vc_inv X vc2"
    and "k < 4 \<Longrightarrow> l < 512 \<Longrightarrow> is_held X vc2 k l \<longleftrightarrow> is_held X vc k l"
    and "k < 4 \<Longrightarrow> l < 512 \<Longrightarrow> is_held X vc k l \<Longrightarrow> vc_win X vc2 (win_page k l) = vc_win X vc (win_page k l)"
    and "vc_room vc2 = vc_room vc"
    and "j < 512 \<Longrightarrow> p1_age vc ! 0 ! j \<noteq> 0 \<Longrightarrow> \<not> entry_present X (vc_p1 vc2 ! 0 ! j)"
    and "p2_freecount vc2 ! 0 = p2_lazycount vc ! 0"
proof -
  note t = tab_okD [OF inv, of 0, simplified]
  have all: "entry_present X (vc_p1 vc ! 0 ! j)" if "j < 512" for j
    using t(1,6) full that nth_mem [of j "vc_p1 vc ! 0"] by (auto simp: tab_ok_def count_if_0)
  have fr: "pte_frame X (vc_p1 vc ! 0 ! j) \<noteq> None" if "j < 512" for j
    using t(1) all that by (simp add: tab_ok_def)
  have lens: "length (vc_p1 vc') = 4" "length (p1_age vc') = 4" "length (vc_p1 vc' ! 0) = 512"
    "length (p1_age vc' ! 0) = 512" "p2_freecount vc' = p2_freecount vc" "p2_lazycount vc' = p2_lazycount vc"
    using c t by (auto simp: cleaned_def)
  have age: "p1_age vc' ! 0 ! j = 0" if "j < 512" for j using c that by (simp add: cleaned_def)
  have pres: "entry_present X (vc_p1 vc' ! 0 ! j) \<longleftrightarrow> p1_age vc ! 0 ! j = 0"
    and same: "p1_age vc ! 0 ! j = 0 \<Longrightarrow> vc_p1 vc' ! 0 ! j = vc_p1 vc ! 0 ! j" if "j < 512" for j
    using c all that by (auto simp: cleaned_def split: if_splits)
  have other: "vc_p1 vc' ! k = vc_p1 vc ! k" "p1_age vc' ! k = p1_age vc ! k" if "k \<noteq> 0" for k
    using c that by (auto simp: cleaned_def)
  have "count_if (\<lambda>e. \<not> entry_present X e) (vc_p1 vc' ! 0) = count_if (\<lambda>a. a \<noteq> 0) (p1_age vc ! 0)"
    using lens t(7) pres by (intro count_if_cong) auto
  moreover have "count_if (\<lambda>a. a \<noteq> 0) (p1_age vc' ! 0) = 0"
    using lens age by (auto simp: count_if_0 in_set_conv_nth)
  ultimately have "tab_ok X (p2_lazycount vc ! 0) 0 (vc_p1 vc' ! 0) (p1_age vc' ! 0)"
    using t(1) lens age pres same fr by (simp add: tab_ok_def)
  then have tabs: "\<forall>k<4. tab_ok X (p2_freecount vc2 ! k) (p2_lazycount vc2 ! k) (vc_p1 vc2 ! k) (p1_age vc2 ! k)"
    using lens other t(3,4) tab_okD(1) [OF inv] by (auto simp: vc2 nth_list_update_If)
  show held: "is_held X vc2 k l \<longleftrightarrow> is_held X vc k l" if "k < 4" "l < 512" for k l
    using that age pres other all by (cases "k = 0") (auto simp: is_held_def vc2)
  have stale: "win_page k l \<in> vc_stale vc2 \<longleftrightarrow> win_page k l \<in> vc_stale vc"
    if "k < 4" "l < 512" "is_held X vc k l" for k l
    using c that by (auto simp: cleaned_def vc2 win_page_inj is_held_def)
  have "\<forall>k<4. \<forall>l<512. is_held X vc2 k l \<longrightarrow> win_page k l \<notin> vc_stale vc2"
    using held stale inv by (auto simp: vc_inv_def)
  with tabs lens t show "vc_inv X vc2" by (simp add: vc_inv_def vc2)
  show "vc_win X vc2 (win_page k l) = vc_win X vc (win_page k l)"
    if "k < 4" "l < 512" "is_held X vc k l" for k l
    using that stale [OF that] other same by (cases "k = 0") (auto simp: vc_win_page is_held_def vc2)
  show "vc_room vc2 = vc_room vc" using full lens t by (simp add: vc_room_def vc2)
  show "\<not> entry_present X (vc_p1 vc2 ! 0 ! j)" if "j < 512" "p1_age vc ! 0 ! j \<noteq> 0"
    using that pres by (simp add: vc2)
  show "p2_freecount vc2 ! 0 = p2_lazycount vc ! 0" using lens t by (simp add: vc2)
qed

lemma scan_lazy_first:
  assumes inv: "vc_inv X vc" and lazy: "p2_lazycount vc ! 0 \<noteq> 0" and full: "p2_freecount vc ! 0 = 0"
  shows "\<exists>j vc2. j < 512 \<and> p1_age vc ! 0 ! j \<noteq> 0 \<and>
    scan_lazy X (Some (p2_lazycount vc ! 0)) [0..<4] vc = Some (Some 0, Some j, vc2) \<and>
    (\<exists>vc'. cleaned X 0 {..<512} vc vc' \<and>
      vc2 = vc'\<lparr>p2_freecount := (p2_freecount vc')[0 := p2_lazycount vc ! 0],
        p2_lazycount := (p2_lazycount vc')[0 := 0]\<rparr>)"
proof -
  note t = tab_okD [OF inv, of 0, simplified]
  have n: "p2_lazycount vc ! 0 = count_if (\<lambda>a. a \<noteq> 0) (p1_age vc ! 0)"
    using t(1) by (simp add: tab_ok_def)
  also have "\<dots> = count_if (\<lambda>j. p1_age vc ! 0 ! j \<noteq> 0) [0..<512]"
    using t(7) by (intro count_if_cong) auto
  finally have cnt: "0 + count_if (\<lambda>j. p1_age vc ! 0 ! j \<noteq> 0) [0..<512] = p2_lazycount vc ! 0" by simp
  have bound: "p2_lazycount vc ! 0 < 2 ^ 16"
    using n count_if_le [of "\<lambda>a. a \<noteq> 0" "p1_age vc ! 0"] t(7) by simp
  obtain vc' p1' where r: "reclaim X 0 (p2_lazycount vc ! 0) [0..<512] 0 None vc =
      Some (p2_lazycount vc ! 0, p1', vc')" "cleaned X 0 {..<512} vc vc'"
    "p1' = None \<and> (\<forall>j<512. p1_age vc ! 0 ! j = 0) \<or> (\<exists>j<512. p1' = Some j \<and> p1_age vc ! 0 ! j \<noteq> 0)"
    using reclaim_eq [of 0 "[0..<512]" vc 0 "p2_lazycount vc ! 0" None, OF _ _ _ t(2,6,5,7) cnt bound]
    by (auto simp: atLeast0LessThan)
  have "\<exists>j<512. p1_age vc ! 0 ! j \<noteq> 0"
    using lazy cnt count_if_0 [of "\<lambda>j. p1_age vc ! 0 ! j \<noteq> 0" "[0..<512]"] by auto
  with r(3) obtain j where j: "j < 512" "p1' = Some j" "p1_age vc ! 0 ! j \<noteq> 0" by auto
  have "p2_freecount vc' = p2_freecount vc" "p2_lazycount vc' = p2_lazycount vc"
    using r(2) by (auto simp: cleaned_def)
  moreover have "[0..<4] = 0 # [1..<4 :: nat]" by (simp add: upt_rec)
  ultimately have "scan_lazy X (Some (p2_lazycount vc ! 0)) [0..<4] vc = Some (Some 0, Some j,
      vc'\<lparr>p2_freecount := (p2_freecount vc')[0 := p2_lazycount vc ! 0],
        p2_lazycount := (p2_lazycount vc')[0 := 0]\<rparr>)"
    using r(1) j(2) lazy t(3,4) by (simp only: scan_lazy.simps) simp
  with j r(2) show ?thesis by blast
qed

section \<open>The operations against the interface\<close>

lemma occupy_window:
  assumes inv: "vc_inv X vc" and i: "i < 4" and j: "j < 512"
    and free: "\<not> entry_present X (vc_p1 vc ! i ! j)" and f: "page_aligned f" "f < 2 ^ 52"
  shows "win_page i j \<notin> vc_held X vc"
    and "vc_held X (occupy X f i j vc) = insert (win_page i j) (vc_held X vc)"
    and "q \<in> vc_held X vc \<Longrightarrow> vc_win X (occupy X f i j vc) q = vc_win X vc q"
proof -
  note o = occupy_props [OF assms]
  show new: "win_page i j \<notin> vc_held X vc"
    using i j free by (simp add: win_page_held is_held_def)
  show "vc_held X (occupy X f i j vc) = insert (win_page i j) (vc_held X vc)"
    using i j o(2) unfolding vc_held_def by blast
  show "vc_win X (occupy X f i j vc) q = vc_win X vc q" if "q \<in> vc_held X vc"
    using that new by (elim vc_heldE) (auto intro!: o(4) simp: win_page_held)
qed

lemma vc_map_ok:
  assumes inv: "vc_inv X vc" and f: "page_aligned f" "f < 2 ^ 52"
    and avail: "(\<exists>i<4. p2_freecount vc ! i \<noteq> 0) \<or> p2_lazycount vc ! 0 \<noteq> 0"
  shows "\<exists>p vc'. vc_map X f vc = Some (Some p, vc') \<and> vc_inv X vc' \<and> p \<notin> vc_held X vc \<and>
    vc_held X vc' = insert p (vc_held X vc) \<and> vc_win X vc' p = Some f \<and>
    (\<forall>q \<in> vc_held X vc. vc_win X vc' q = vc_win X vc q) \<and> vc_room vc = vc_room vc' + vc_cost p"
proof (cases "List.find (\<lambda>i. p2_freecount vc ! i \<noteq> 0) [0..<4]")
  case (Some i)
  then have i: "i < 4" "p2_freecount vc ! i \<noteq> 0" by (auto simp: find_upt_Some)
  obtain j where j: "j < 512" "\<not> entry_present X (vc_p1 vc ! i ! j)"
    "map_in_table X f i None vc = Some (Some (win_page i j), occupy X f i j vc)"
    using map_in_table_None [OF inv i] by blast
  have "vc_map X f vc = Some (Some (win_page i j), occupy X f i j vc)"
    using Some j(3) tab_okD(3,4) [OF inv i(1)] by (simp add: vc_map_def scan_free_eq del: upt_rec_numeral)
  with occupy_props [OF inv i(1) j(1,2) f] occupy_window [OF inv i(1) j(1,2) f] show ?thesis by blast
next
  case None
  then have full: "p2_freecount vc ! i = 0" if "i < 4" for i
    using that by (auto simp: find_None_iff)
  with avail have lazy: "p2_lazycount vc ! 0 \<noteq> 0" by auto
  have full0: "p2_freecount vc ! 0 = 0" by (rule full) simp
  obtain j vc2 vc' where j: "j < 512" "p1_age vc ! 0 ! j \<noteq> 0"
    "scan_lazy X (Some (p2_lazycount vc ! 0)) [0..<4] vc = Some (Some 0, Some j, vc2)"
    and c: "cleaned X 0 {..<512} vc vc'"
      "vc2 = vc'\<lparr>p2_freecount := (p2_freecount vc')[0 := p2_lazycount vc ! 0],
        p2_lazycount := (p2_lazycount vc')[0 := 0]\<rparr>"
    using scan_lazy_first [OF inv lazy full0] by blast
  note r = reclaimed_props [OF inv full0 c]
  have "(0::nat) < 4" by simp
  note o = occupy_props [OF r(1) this j(1) r(5) [OF j(1,2)] f]
    and w = occupy_window [OF r(1) this j(1) r(5) [OF j(1,2)] f]
  have "vc_map X f vc = Some (Some (win_page 0 j), occupy X f 0 j vc2)"
    using None j(1,3) tab_okD(3,4) [OF inv, of 0] map_in_table_Some [OF r(1) _ j(1), of 0 f] r(6) lazy
    by (simp add: vc_map_def scan_free_eq del: upt_rec_numeral)
  moreover have "vc_held X vc2 = vc_held X vc" using r(2) unfolding vc_held_def by blast
  moreover have "vc_win X vc2 q = vc_win X vc q" if "q \<in> vc_held X vc" for q
    using that by (elim vc_heldE) (simp add: r(3))
  ultimately show ?thesis
    using o(1,3,5) w r(4) by (intro exI [of _ "win_page 0 j"] exI [of _ "occupy X f 0 j vc2"]) simp
qed

text \<open>With no free page at all and no lazy one in the first table, \<open>map\<close> panics.\<close>

lemma reclaim_nothing: "reclaim X i 0 js 0 None vc = Some (0, None, vc)"
  by (cases js) simp_all

lemma scan_lazy_panics:
  assumes "vc_inv X vc" "\<forall>i<4. p2_freecount vc ! i = 0" "set is \<subseteq> {..<4}"
  shows "\<exists>r p1 vc'. scan_lazy X (Some 0) is vc = Some (r, p1, vc') \<and>
    (case r of None \<Rightarrow> True | Some i \<Rightarrow> map_in_table X f i p1 vc' = None)"
  using assms(3)
proof (induction "is")
  case (Cons i "is")
  note t = tab_okD [OF assms(1), of i]
  have "map_in_table X f i None
      (vc\<lparr>p2_freecount := (p2_freecount vc)[i := 0], p2_lazycount := (p2_lazycount vc)[i := 0]\<rparr>) = None"
    using Cons.prems t by (simp add: map_in_table_def sub64_def)
  with Cons t show ?case by (cases "p2_lazycount vc ! i = 0") (simp_all add: reclaim_nothing)
qed simp

lemma vc_map_panics:
  assumes "vc_inv X vc" "\<forall>i<4. p2_freecount vc ! i = 0" "p2_lazycount vc ! 0 = 0"
  shows "vc_map X f vc = None"
proof -
  have "List.find (\<lambda>i. p2_freecount vc ! i \<noteq> 0) [0..<4] = None"
    using assms(2) by (simp add: find_None_iff)
  moreover obtain r p1 vc' where "scan_lazy X (Some 0) [0..<4] vc = Some (r, p1, vc')"
    "case r of None \<Rightarrow> True | Some i \<Rightarrow> map_in_table X f i p1 vc' = None"
    using scan_lazy_panics [OF assms(1,2), of "[0..<4]" f] by (fastforce simp: atLeast0LessThan)
  ultimately show ?thesis using tab_okD(3,4) [OF assms(1), of 0] assms(3)
    by (cases r) (simp_all add: vc_map_def scan_free_eq del: upt_rec_numeral)
qed

lemma unmap_ok:
  assumes inv: "vc_inv X vc" and p: "p \<in> vc_held X vc"
  shows "\<exists>vc'. unmap X p vc = Some vc' \<and> vc_inv X vc' \<and> vc_held X vc' = vc_held X vc - {p} \<and>
    (\<forall>q \<in> vc_held X vc - {p}. vc_win X vc' q = vc_win X vc q) \<and> vc_room vc' = vc_room vc + vc_cost p"
proof -
  obtain i j where ij: "i < 4" "j < 512" "p = win_page i j" "is_held X vc i j"
    using p by (rule vc_heldE)
  note t = tab_okD [OF inv ij(1)]
  let ?as = "(p1_age vc ! i)[j := 1]"
  define vc' where "vc' = vc\<lparr>p1_age := (p1_age vc)[i := ?as],
    p2_lazycount := (p2_lazycount vc)[i := Suc (p2_lazycount vc ! i)]\<rparr>"
  have c: "count_if (\<lambda>a. a \<noteq> 0) ?as = Suc (p2_lazycount vc ! i)"
    using count_if_update [of j "p1_age vc ! i" "\<lambda>a. a \<noteq> 0" 1] t(1,7) ij(2,4)
    by (simp add: tab_ok_def is_held_def)
  then have "Suc (p2_lazycount vc ! i) \<le> 512"
    using count_if_le [of "\<lambda>a. a \<noteq> 0" ?as] t(7) by simp
  then have "unmap X p vc = Some vc'"
    using ij t by (simp add: unmap_def vc_p2_index_eq win_page_p1_index add16_def vc'_def)
  moreover have "tab_ok X (p2_freecount vc ! i) (Suc (p2_lazycount vc ! i)) (vc_p1 vc ! i) ?as"
    using t(1) c ij(2,4) by (auto simp: tab_ok_def is_held_def nth_list_update_If)
  then have "\<forall>k<4. tab_ok X (p2_freecount vc' ! k) (p2_lazycount vc' ! k) (vc_p1 vc' ! k) (p1_age vc' ! k)"
    using ij(1) t(2-5) tab_okD(1) [OF inv] by (auto simp: vc'_def nth_list_update_If)
  moreover have held: "is_held X vc' k l \<longleftrightarrow> is_held X vc k l \<and> (k, l) \<noteq> (i, j)" if "k < 4" "l < 512" for k l
    using that ij t by (auto simp: is_held_def vc'_def nth2_update)
  ultimately have "unmap X p vc = Some vc'" "vc_inv X vc'"
    using inv t by (auto simp: vc_inv_def) (auto simp: vc'_def)
  moreover have "vc_held X vc' = vc_held X vc - {p}"
    using held ij(1,2,3) unfolding vc_held_def by (auto simp: win_page_inj)
  moreover have "\<forall>q \<in> vc_held X vc - {p}. vc_win X vc' q = vc_win X vc q" by (simp add: vc_win_def vc'_def)
  moreover have "vc_room vc' = vc_room vc + vc_cost p"
    using ij t by (auto simp: vc_room_def win_page_cost) (auto simp: vc'_def)
  ultimately show ?thesis by blast
qed

lemma remap_ok:
  assumes inv: "vc_inv X vc" and f: "page_aligned f" "f < 2 ^ 52" and p: "p \<in> vc_held X vc"
  shows "\<exists>vc'. remap X p f vc = Some (Some (), vc') \<and> vc_inv X vc' \<and> vc_held X vc' = vc_held X vc \<and>
    vc_win X vc' p = Some f \<and> (\<forall>q \<in> vc_held X vc - {p}. vc_win X vc' q = vc_win X vc q) \<and>
    vc_room vc' = vc_room vc"
proof -
  obtain i j where ij: "i < 4" "j < 512" "p = win_page i j" "is_held X vc i j"
    using p by (rule vc_heldE)
  note t = tab_okD [OF inv ij(1)]
  define vc' where "vc' = vc\<lparr>vc_p1 := (vc_p1 vc)[i := (vc_p1 vc ! i)[j := window_pte X f]],
    vc_stale := insert p (vc_stale vc) - {p}\<rparr>"
  have "virt_add X START_ADDR VCACHE_SIZE = Some (KVMSPACE + VCACHE_SIZE)"
    by (simp add: crate_eqs START_ADDR_def KVMSPACE_def canonical_def)
  then have run: "remap X p f vc = Some (Some (), if \<not> pte_is_unused X (vc_p1 vc ! i ! j) \<and>
      pte_frame X (vc_p1 vc ! i ! j) = Some f then vc else vc')"
    using ij t win_page_bounds [OF ij(1,2)]
    by (auto simp: remap_def START_ADDR_def vc_p2_index_eq win_page_p1_index write_p1_eq pte_new_eq
        flush_def vc'_def window_pte_def)
  have fresh: "p \<notin> vc_stale vc" using inv ij by (simp add: vc_inv_def)
  show ?thesis
  proof (cases "\<not> pte_is_unused X (vc_p1 vc ! i ! j) \<and> pte_frame X (vc_p1 vc ! i ! j) = Some f")
    case True
    with run inv fresh ij show ?thesis by (auto simp: vc_win_page)
  next
    case False
    have held: "is_held X vc' k l \<longleftrightarrow> is_held X vc k l" if "k < 4" "l < 512" for k l
      using that ij t window_pte [OF f] by (auto simp: is_held_def vc'_def nth2_update)
    have "count_if (\<lambda>e. \<not> entry_present X e) ((vc_p1 vc ! i)[j := window_pte X f]) =
        count_if (\<lambda>e. \<not> entry_present X e) (vc_p1 vc ! i)"
      using t(6) ij(2,4) window_pte [OF f] by (intro count_if_update_same) (auto simp: is_held_def)
    then have "tab_ok X (p2_freecount vc ! i) (p2_lazycount vc ! i) ((vc_p1 vc ! i)[j := window_pte X f]) (p1_age vc ! i)"
      using t(1) ij(2) window_pte [OF f] by (auto simp: tab_ok_def nth_list_update_If)
    then have "\<forall>k<4. tab_ok X (p2_freecount vc' ! k) (p2_lazycount vc' ! k) (vc_p1 vc' ! k) (p1_age vc' ! k)"
      using ij(1) t(2) tab_okD(1) [OF inv] by (auto simp: vc'_def nth_list_update_If)
    then have "vc_inv X vc'" using inv held t by (auto simp: vc_inv_def) (auto simp: vc'_def)
    moreover have "vc_held X vc' = vc_held X vc" using held unfolding vc_held_def by blast
    moreover have "vc_win X vc' p = Some f"
      using ij t window_pte [OF f] by (simp add: vc_win_page) (simp add: vc'_def)
    moreover have "vc_win X vc' q = vc_win X vc q" if "q \<in> vc_held X vc - {p}" for q
    proof -
      from that obtain k l where kl: "k < 4" "l < 512" "q = win_page k l" by (auto elim: vc_heldE)
      with that ij(2,3) have "(k, l) \<noteq> (i, j)" "q \<noteq> p" by auto
      with kl ij(1,2) t show ?thesis by (simp add: vc_win_page) (auto simp: vc'_def nth2_update)
    qed
    moreover have "vc_room vc' = vc_room vc" by (simp add: vc_room_def vc'_def)
    ultimately show ?thesis using run False by auto
  qed
qed

end

text \<open>The cache implements the interface of its clients.\<close>

sublocale x86_crate \<subseteq> windows: window_cache "vc_map X" "remap X" "unmap X" "vc_held X" "vc_win X"
  vc_room vc_cost "\<lambda>f. page_aligned f \<and> f < 2 ^ 52" "vc_inv X"
proof
  fix s f assume "vc_inv X s" "page_aligned f \<and> f < 2 ^ 52" "0 < vc_room s"
  moreover have "(\<exists>i<4. p2_freecount s ! i \<noteq> 0) \<or> p2_lazycount s ! 0 \<noteq> 0"
    using \<open>0 < vc_room s\<close>
    by (auto simp: vc_room_def intro!: exI [of _ 0])
  ultimately show "\<exists>p s'. vc_map X f s = Some (Some p, s') \<and> vc_inv X s' \<and> p \<notin> vc_held X s \<and>
      vc_held X s' = insert p (vc_held X s) \<and> vc_win X s' p = Some f \<and>
      (\<forall>q \<in> vc_held X s. vc_win X s' q = vc_win X s q) \<and> vc_room s = vc_room s' + vc_cost p"
    by (intro vc_map_ok) auto
next
  fix s f p assume "vc_inv X s" "page_aligned f \<and> f < 2 ^ 52" "p \<in> vc_held X s"
  then show "\<exists>s'. remap X p f s = Some (Some (), s') \<and> vc_inv X s' \<and> vc_held X s' = vc_held X s \<and>
      vc_win X s' p = Some f \<and> (\<forall>q \<in> vc_held X s - {p}. vc_win X s' q = vc_win X s q) \<and>
      vc_room s' = vc_room s"
    by (intro remap_ok) auto
next
  fix s p assume "vc_inv X s" "p \<in> vc_held X s"
  then show "\<exists>s'. unmap X p s = Some s' \<and> vc_inv X s' \<and> vc_held X s' = vc_held X s - {p} \<and>
      (\<forall>q \<in> vc_held X s - {p}. vc_win X s' q = vc_win X s q) \<and> vc_room s' = vc_room s + vc_cost p"
    by (rule unmap_ok)
qed (simp add: vc_cost_def)

section \<open>Taking and giving back two windows\<close>

text \<open>The cache as \<open>VCacheState::new\<close> makes it over four cleared tables.\<close>

definition empty_vc :: VCache where
  "empty_vc = VCacheState_new (replicate 4 (replicate 512 0))"

lemma empty_vc_room: "vc_room empty_vc = 512"
  by (simp add: vc_room_def empty_vc_def VCacheState_new_def)

lemma empty_vc_free: "i < 4 \<Longrightarrow> p2_freecount empty_vc ! i = 512"
  by (simp add: empty_vc_def VCacheState_new_def)

context x86_crate
begin

lemma map_many_two:
  assumes "vc_inv X vc" "page_aligned f \<and> f < 2 ^ 52" "page_aligned g \<and> g < 2 ^ 52" "2 \<le> vc_room vc"
  shows "\<exists>p q vc'. map_many X [f, g] vc = Some (Some [p, q], vc') \<and> vc_inv X vc' \<and>
    p \<notin> vc_held X vc \<and> q \<notin> vc_held X vc \<and> p \<noteq> q \<and> vc_held X vc' = {p, q} \<union> vc_held X vc \<and>
    (\<forall>r \<in> vc_held X vc. vc_win X vc' r = vc_win X vc r) \<and> vc_room vc = vc_room vc' + vc_cost p + vc_cost q"
proof -
  obtain p q s1 s2 where *: "vc_map X f vc = Some (Some p, s1)" "vc_map X g s1 = Some (Some q, s2)"
    and r: "vc_inv X s2" "p \<notin> vc_held X vc" "q \<notin> vc_held X vc" "p \<noteq> q" "vc_held X s2 = {p, q} \<union> vc_held X vc"
      "\<forall>r \<in> vc_held X vc. vc_win X s2 r = vc_win X vc r" "vc_room vc = vc_room s2 + vc_cost p + vc_cost q"
    using windows.map_two [OF assms] by blast
  from * have "map_many X [f, g] vc = Some (Some [p, q], s2)" by (simp add: map_many_def)
  with r show ?thesis by blast
qed

lemma unmap_many_two:
  assumes "vc_inv X vc" "p \<in> vc_held X vc" "q \<in> vc_held X vc" "p \<noteq> q"
  shows "\<exists>vc'. unmap_many X [p, q] vc = Some vc' \<and> vc_inv X vc' \<and> vc_held X vc' = vc_held X vc - {p, q} \<and>
    (\<forall>r \<in> vc_held X vc - {p, q}. vc_win X vc' r = vc_win X vc r) \<and>
    vc_room vc' = vc_room vc + vc_cost p + vc_cost q"
proof -
  obtain s1 s2 where *: "unmap X p vc = Some s1" "unmap X q s1 = Some s2"
    and r: "vc_inv X s2" "vc_held X s2 = vc_held X vc - {p, q}"
      "\<forall>r \<in> vc_held X vc - {p, q}. vc_win X s2 r = vc_win X vc r"
      "vc_room s2 = vc_room vc + vc_cost p + vc_cost q"
    using windows.unmap_two [OF assms] by blast
  from * have "unmap_many X [p, q] vc = Some s2" by (simp add: unmap_many_def)
  with r show ?thesis by blast
qed

lemma empty_vc_inv: "vc_inv X empty_vc"
  by (auto simp: vc_inv_def empty_vc_def VCacheState_new_def tab_ok_def is_held_def entry_present_def
      pte_flags_unused count_if_replicate)

lemma empty_vc_held: "vc_held X empty_vc = {}"
  by (auto simp: vc_held_def empty_vc_def VCacheState_new_def is_held_def entry_present_def pte_flags_unused)

end

section \<open>Properties\<close>

text \<open>
  C18. \<open>VCache::map\<close>. It panics exactly when no table has a free page and the first table
  has no lazy one; it never returns \<open>Err\<close>. Otherwise it returns a window that nobody holds,
  through which the processor reaches the frame asked for; the windows held before still
  reach their frames, and the invariant of the cache is kept.
\<close>

theorem vc_map_spec:
  assumes "x86_crate X" and "vc_inv X vc" and "page_aligned f" and "f < 2 ^ 52"
  shows "(vc_map X f vc = None \<longleftrightarrow> (\<forall>i<4. p2_freecount vc ! i = 0) \<and> p2_lazycount vc ! 0 = 0) \<and>
    (\<forall>r vc'. vc_map X f vc = Some (r, vc') \<longrightarrow>
      (\<exists>p. r = Some p \<and> p \<notin> vc_held X vc \<and> vc_held X vc' = insert p (vc_held X vc) \<and>
        vc_win X vc' p = Some f \<and> (\<forall>q \<in> vc_held X vc. vc_win X vc' q = vc_win X vc q) \<and> vc_inv X vc'))"
proof (cases "(\<exists>i<4. p2_freecount vc ! i \<noteq> 0) \<or> p2_lazycount vc ! 0 \<noteq> 0")
  case True
  with x86_crate.vc_map_ok [OF assms True] show ?thesis by auto
next
  case False
  with x86_crate.vc_map_panics [OF assms(1,2)] show ?thesis by auto
qed

theorem vc_map_spec_witness:
  "\<exists>p vc'. vc_map x86_ref 0x5000 empty_vc = Some (Some p, vc') \<and>
     vc_held x86_ref vc' = {p} \<and> vc_win x86_ref vc' p = Some 0x5000"
proof -
  have "page_aligned (0x5000 :: nat)" "(0x5000 :: nat) < 2 ^ 52" by simp_all
  note s = vc_map_spec [OF ref.x86_crate_axioms ref.empty_vc_inv this, unfolded ref.empty_vc_held]
  have "p2_freecount empty_vc ! 0 \<noteq> 0" by (simp add: empty_vc_free)
  with s have "vc_map x86_ref 0x5000 empty_vc \<noteq> None" by force
  then obtain r vc' where r: "vc_map x86_ref 0x5000 empty_vc = Some (r, vc')" by auto
  with s obtain p where "r = Some p" "vc_held x86_ref vc' = {p}" "vc_win x86_ref vc' p = Some 0x5000"
    by blast
  with r show ?thesis by blast
qed

text \<open>
  C19. \<open>VCache::remap\<close> on a held window returns \<open>Ok\<close>: the processor then reaches the new
  frame through that window (the early return for an unchanged frame included), every other
  held window keeps its frame, and no window is taken or given back.
\<close>

theorem remap_moves:
  assumes "x86_crate X" and "vc_inv X vc" and "page_aligned f" and "f < 2 ^ 52" and "p \<in> vc_held X vc"
  shows "\<exists>vc'. remap X p f vc = Some (Some (), vc') \<and> vc_inv X vc' \<and> vc_held X vc' = vc_held X vc \<and>
    vc_win X vc' p = Some f \<and> (\<forall>q \<in> vc_held X vc - {p}. vc_win X vc' q = vc_win X vc q) \<and>
    vc_room vc' = vc_room vc"
  using x86_crate.remap_ok [OF assms] .

theorem remap_moves_witness:
  "\<exists>vc p vc'. vc_win x86_ref vc p = Some 0x5000 \<and> remap x86_ref p 0x7000 vc = Some (Some (), vc') \<and>
     vc_win x86_ref vc' p = Some 0x7000"
proof -
  have "\<exists>i<4. p2_freecount empty_vc ! i \<noteq> 0" by (intro exI [of _ 0]) (simp add: empty_vc_free)
  then obtain p vc where vc: "vc_inv x86_ref vc" "p \<in> vc_held x86_ref vc" "vc_win x86_ref vc p = Some 0x5000"
    using ref.vc_map_ok [OF ref.empty_vc_inv, of "0x5000"] by auto
  have "page_aligned (0x7000 :: nat)" "(0x7000 :: nat) < 2 ^ 52" by simp_all
  from remap_moves [OF ref.x86_crate_axioms vc(1) this vc(2)] vc(3) show ?thesis by blast
qed

text \<open>
  C26. The windows do not run out. A client that takes two windows and gives both back, as
  every call of the page mapper does, gets them whenever two pages of the first table are not
  held; the two windows are distinct and new, and afterwards exactly the windows held before
  are held, reach the same frames, and there is as much room as before.
\<close>

theorem window_bracket:
  assumes "x86_crate X" and "vc_inv X vc" and "2 \<le> vc_room vc"
    and "page_aligned f \<and> f < 2 ^ 52" and "page_aligned g \<and> g < 2 ^ 52"
  shows "\<exists>p q vc1 vc2. map_many X [f, g] vc = Some (Some [p, q], vc1) \<and>
    p \<noteq> q \<and> p \<notin> vc_held X vc \<and> q \<notin> vc_held X vc \<and> unmap_many X [p, q] vc1 = Some vc2 \<and>
    vc_inv X vc2 \<and> vc_held X vc2 = vc_held X vc \<and> vc_room vc2 = vc_room vc \<and>
    (\<forall>r \<in> vc_held X vc. vc_win X vc2 r = vc_win X vc r)"
proof -
  obtain p q vc1 where 1: "map_many X [f, g] vc = Some (Some [p, q], vc1)" "vc_inv X vc1"
    "p \<notin> vc_held X vc" "q \<notin> vc_held X vc" "p \<noteq> q" "vc_held X vc1 = {p, q} \<union> vc_held X vc"
    "\<forall>r \<in> vc_held X vc. vc_win X vc1 r = vc_win X vc r" "vc_room vc = vc_room vc1 + vc_cost p + vc_cost q"
    using x86_crate.map_many_two [OF assms(1,2,4,5,3)] by blast
  then have "p \<in> vc_held X vc1" "q \<in> vc_held X vc1" by auto
  from x86_crate.unmap_many_two [OF assms(1) 1(2) this 1(5)] obtain vc2 where
    2: "unmap_many X [p, q] vc1 = Some vc2" "vc_inv X vc2" "vc_held X vc2 = vc_held X vc1 - {p, q}"
    "\<forall>r \<in> vc_held X vc1 - {p, q}. vc_win X vc2 r = vc_win X vc1 r"
    "vc_room vc2 = vc_room vc1 + vc_cost p + vc_cost q" by blast
  have "vc_held X vc2 = vc_held X vc" using 1(3,4,6) 2(3) by auto
  moreover have "\<forall>r \<in> vc_held X vc. vc_win X vc2 r = vc_win X vc r"
    using 1(3,4,6,7) 2(4) by auto
  ultimately show ?thesis using 1(1,3,4,5,8) 2(1,2,5)
    by (intro exI [of _ p] exI [of _ q] exI [of _ vc1] exI [of _ vc2] conjI) simp_all
qed

theorem window_bracket_witness:
  "\<exists>p q vc1 vc2. map_many x86_ref [0, 0] empty_vc = Some (Some [p, q], vc1) \<and> p \<noteq> q \<and>
     unmap_many x86_ref [p, q] vc1 = Some vc2 \<and> vc_held x86_ref vc2 = {} \<and> vc_room vc2 = 512"
proof -
  have "2 \<le> vc_room empty_vc" "page_aligned 0 \<and> (0 :: nat) < 2 ^ 52" by (simp_all add: empty_vc_room)
  from window_bracket [OF ref.x86_crate_axioms ref.empty_vc_inv this this(2)] show ?thesis
    unfolding empty_vc_room ref.empty_vc_held by blast
qed

end
