(* ===== verification/Mapper.thy ===== *)
theory Mapper
  imports Phys VCache
begin

text \<open>
  The page mapper, \<open>kernel/src/mem/virt/mapper.rs\<close>, with \<open>alloc_substruct\<close> of
  \<open>kernel/src/mem/virt/mod.rs\<close> and \<open>palloc\<close>, \<open>pfree\<close> and \<open>pfree_all\<close> of
  \<open>kernel/src/mem/mod.rs\<close>. The four-level page tables are memory: \<open>m_tables f i\<close> is entry
  \<open>i\<close> of the table in frame \<open>f\<close>, and the mapper reaches a table only through a window of
  the cache, so every access goes through the translation of that window. Following the
  tables from \<open>CR3\<close> as the processor does gives the address space, \<open>pagemap\<close>.
\<close>

section \<open>The memory state of the kernel\<close>

text \<open>
  \<open>m_p4page\<close> is the window \<open>P4TABLE\<close> refers to. \<open>m_stale\<close> and \<open>m_gstale\<close> are the pages
  whose last-level entry changed since the processor was told to forget them; in
  \<open>m_gstale\<close> those whose old entry was global, which a reload of \<open>CR3\<close> does not drop.
\<close>

record machine =
  m_phys :: PhysicalFrameAllocator
  m_vcache :: VCache
  m_tables :: "nat \<Rightarrow> nat \<Rightarrow> u64"
  m_cr3 :: nat
  m_p4page :: nat
  m_stale :: "nat set"
  m_gstale :: "nat set"

text \<open>
  A \<open>&mut PageTableEntry\<close> is an address: in the identity mapping of the boot loader
  (\<open>Ident\<close> frame, index) or in a window (\<open>Win\<close> page, index).
\<close>

datatype entry_ref = Ident nat nat | Win nat nat

fun ref_frame :: "x86 \<Rightarrow> entry_ref \<Rightarrow> machine \<Rightarrow> nat option" where
  "ref_frame X (Ident f i) m = Some f"
| "ref_frame X (Win p i) m = vc_win X (m_vcache m) p"

fun ref_index :: "entry_ref \<Rightarrow> nat" where
  "ref_index (Ident f i) = i"
| "ref_index (Win p i) = i"

definition read_entry :: "x86 \<Rightarrow> entry_ref \<Rightarrow> machine \<Rightarrow> u64 option" where
  "read_entry X r m = do { f \<leftarrow> ref_frame X r m; Some (m_tables m f (ref_index r)) }"

definition write_entry :: "x86 \<Rightarrow> entry_ref \<Rightarrow> u64 \<Rightarrow> machine \<Rightarrow> machine option" where
  "write_entry X r e m = do {
     f \<leftarrow> ref_frame X r m;
     Some (m\<lparr>m_tables := (m_tables m)(f := (m_tables m f)(ref_index r := e))\<rparr>) }"

text \<open>\<open>fill(0)\<close> on a whole page.\<close>

definition fill_zero :: "nat \<Rightarrow> machine \<Rightarrow> machine" where
  "fill_zero f m = m\<lparr>m_tables := (m_tables m)(f := (\<lambda>_. 0))\<rparr>"

section \<open>Frames\<close>

definition palloc :: "x86 \<Rightarrow> machine \<Rightarrow> (nat option \<times> machine) option" where
  "palloc X m = do {
     (frame, phys) \<leftarrow> allocate_frame X (m_phys m);
     Some (frame, m\<lparr>m_phys := phys\<rparr>) }"

definition pfree :: "x86 \<Rightarrow> nat \<Rightarrow> machine \<Rightarrow> machine option" where
  "pfree X frame m = do {
     phys \<leftarrow> deallocate_frame X frame (m_phys m);
     Some (m\<lparr>m_phys := phys\<rparr>) }"

definition pfree_all :: "x86 \<Rightarrow> nat list \<Rightarrow> machine \<Rightarrow> machine option" where
  "pfree_all X frames m = fold_opt (pfree X) frames m"

definition alloc_substruct ::
    "x86 \<Rightarrow> entry_ref \<Rightarrow> pflags \<Rightarrow> bool \<Rightarrow> machine \<Rightarrow> (nat \<times> machine) option" where
  "alloc_substruct X entry flags clear_inplace m = do {
     (r, m) \<leftarrow> palloc X m;
     frame \<leftarrow> r;
     let m = (if clear_inplace then fill_zero frame m else m);
     m \<leftarrow> write_entry X entry (pte_set_frame X (pte_new X) frame flags) m;
     Some (frame, m) }"

section \<open>The mapper\<close>

datatype KernelMapError = NullSize | Managed | NoVCacheSpace

definition RLCR3_THRESHOLD :: nat where
  [simp]: "RLCR3_THRESHOLD = 32"

definition mapper_init :: "x86 \<Rightarrow> machine \<Rightarrow> machine option" where
  "mapper_init X m = do {
     (r, vc) \<leftarrow> vc_map X (m_cr3 m) (m_vcache m);
     page \<leftarrow> r;
     Some (m\<lparr>m_vcache := vc, m_p4page := page\<rparr>) }"

definition flush_page :: "nat \<Rightarrow> machine \<Rightarrow> machine" where
  "flush_page page m = m\<lparr>m_stale := m_stale m - {page}, m_gstale := m_gstale m - {page}\<rparr>"

text \<open>Reloading \<open>CR3\<close> drops every translation that is not global.\<close>

definition flush_all :: "machine \<Rightarrow> machine" where
  "flush_all m = m\<lparr>m_stale := {}\<rparr>"

definition remove_identity :: "x86 \<Rightarrow> machine \<Rightarrow> machine option" where
  "remove_identity X m = do {
     f \<leftarrow> vc_win X (m_vcache m) (m_p4page m);
     Some (flush_all (m\<lparr>m_tables :=
       (m_tables m)(f := (\<lambda>i. if i < 256 then 0 else m_tables m f i))\<rparr>)) }"

definition ensure_allocated :: "x86 \<Rightarrow> entry_ref \<Rightarrow> nat \<Rightarrow> nat \<Rightarrow> machine \<Rightarrow> machine option" where
  "ensure_allocated X entry page map_to_page m = do {
     e \<leftarrow> read_entry X entry m;
     (created, m) \<leftarrow>
       (if pte_is_unused X e then do {
          let flags = {WRITABLE, PRESENT} \<union> (if page < KVMSPACE then {USER_ACCESSIBLE} else {});
          (_, m) \<leftarrow> alloc_substruct X entry flags False m;
          Some (True, m) }
        else Some (False, m));
     e \<leftarrow> read_entry X entry m;
     frame \<leftarrow> pte_frame X e;
     (r, vc) \<leftarrow> remap X map_to_page frame (m_vcache m);
     _ \<leftarrow> r;
     let m = m\<lparr>m_vcache := vc\<rparr>;
     if created then do {
       f \<leftarrow> vc_win X (m_vcache m) map_to_page;
       Some (fill_zero f m) }
     else Some m }"

text \<open>Writing a last-level entry makes the translation of its page stale.\<close>

definition set_p1_entry :: "x86 \<Rightarrow> nat \<Rightarrow> nat \<Rightarrow> nat \<Rightarrow> pflags \<Rightarrow> machine \<Rightarrow> machine option" where
  "set_p1_entry X p1 page physframe flags m = do {
     e \<leftarrow> read_entry X (Win p1 (p1_index X page)) m;
     m \<leftarrow> write_entry X (Win p1 (p1_index X page)) (pte_set_frame X e physframe flags) m;
     Some (if GLOBAL \<in> pte_flags X e then m\<lparr>m_gstale := insert page (m_gstale m)\<rparr>
           else m\<lparr>m_stale := insert page (m_stale m)\<rparr>) }"

text \<open>The body of the loop over the pages; \<open>flags\<close> is changed from one turn to the next.\<close>

definition map_step :: "x86 \<Rightarrow> nat \<Rightarrow> nat \<Rightarrow> nat \<Rightarrow> nat \<Rightarrow> bool \<Rightarrow> nat \<Rightarrow>
    pflags \<times> machine \<Rightarrow> (pflags \<times> machine) option" where
  "map_step X page phys tmp0 tmp1 detail_flush i s = do {
     let (flags, m) = s;
     off \<leftarrow> mul64 i PAGE_SIZE;
     a \<leftarrow> virt_add X page off;
     page \<leftarrow> page_from_start X a;
     b \<leftarrow> phys_add X phys off;
     physframe \<leftarrow> frame_from_start X b;
     m \<leftarrow> ensure_allocated X (Win (m_p4page m) (p4_index X page)) page tmp0 m;
     m \<leftarrow> ensure_allocated X (Win tmp0 (p3_index X page)) page tmp1 m;
     m \<leftarrow> ensure_allocated X (Win tmp1 (p2_index X page)) page tmp0 m;
     let flags = (if KVMSPACE < page then (flags \<union> {GLOBAL}) - {USER_ACCESSIBLE} else flags);
     let flags = flags \<union> {PRESENT};
     m \<leftarrow> set_p1_entry X tmp0 page physframe flags m;
     Some (flags, if detail_flush then flush_page page m else m) }"

definition kernel_map :: "x86 \<Rightarrow> nat \<Rightarrow> nat \<Rightarrow> nat \<Rightarrow> pflags \<Rightarrow> machine \<Rightarrow>
    ((KernelMapError + unit) \<times> machine) option" where
  "kernel_map X page phys nbytes flags m =
     (if nbytes = 0 then Some (Inl NullSize, m)
      else do {
        limit \<leftarrow> virt_add X START_ADDR VCACHE_SIZE;
        if START_ADDR \<le> page \<and> page < limit then Some (Inl Managed, m)
        else do {
          nbytes \<leftarrow> align_up X nbytes PAGE_SIZE;
          let num_pages = nbytes div PAGE_SIZE;
          let detail_flush = (GLOBAL \<in> flags \<or> KVMSPACE \<le> page \<or> nbytes div PAGE_SIZE < RLCR3_THRESHOLD);
          let null_frame = frame_containing X 0;
          (r, vc) \<leftarrow> map_many X [null_frame, null_frame] (m_vcache m);
          let m = m\<lparr>m_vcache := vc\<rparr>;
          (case r of
             None \<Rightarrow> Some (Inl NoVCacheSpace, m)
           | Some tmp_pages \<Rightarrow> do {
               tmp0 \<leftarrow> get tmp_pages 0;
               tmp1 \<leftarrow> get tmp_pages 1;
               (_, m) \<leftarrow> fold_opt (map_step X page phys tmp0 tmp1 detail_flush) [0..<num_pages] (flags, m);
               vc \<leftarrow> unmap_many X tmp_pages (m_vcache m);
               let m = m\<lparr>m_vcache := vc\<rparr>;
               Some (Inr (), if detail_flush then m else flush_all m) }) } })"

section \<open>The address space\<close>

text \<open>
  \<open>node X m p\<close> is the frame of the table reached from \<open>CR3\<close> along the indices \<open>p\<close>, the
  last index first; \<open>ent X m (i # p)\<close> is entry \<open>i\<close> of that table, an unused entry where
  there is no table. The entry that decides the translation of a page is \<open>pagemap\<close>.
\<close>

fun node :: "x86 \<Rightarrow> machine \<Rightarrow> nat list \<Rightarrow> nat option" where
  "node X m [] = Some (m_cr3 m)"
| "node X m (i # p) = do { t \<leftarrow> node X m p; pte_frame X (m_tables m t i) }"

definition ent :: "x86 \<Rightarrow> machine \<Rightarrow> nat \<Rightarrow> nat list \<Rightarrow> u64" where
  "ent X m i p = (case node X m p of None \<Rightarrow> 0 | Some t \<Rightarrow> m_tables m t i)"

definition path :: "x86 \<Rightarrow> nat \<Rightarrow> nat list" where
  "path X a = [p2_index X a, p3_index X a, p4_index X a]"

definition pagemap :: "x86 \<Rightarrow> machine \<Rightarrow> nat \<Rightarrow> u64" where
  "pagemap X m a = ent X m (p1_index X a) (path X a)"

text \<open>
  The tables form a tree: a frame is used for at most one table, and no table is in a free
  frame.
\<close>

definition tpath :: "nat list \<Rightarrow> bool" where
  "tpath p \<longleftrightarrow> length p \<le> 3 \<and> (\<forall>i \<in> set p. i < 512)"

definition tree_ok :: "x86 \<Rightarrow> machine \<Rightarrow> bool" where
  "tree_ok X m \<longleftrightarrow>
     (\<forall>p q f. tpath p \<and> tpath q \<and> node X m p = Some f \<and> node X m q = Some f \<longrightarrow> p = q) \<and>
     (\<forall>p f. tpath p \<and> node X m p = Some f \<longrightarrow> f \<notin> free_frames (m_phys m))"

text \<open>The invariant of the mapper: sound allocator and cache, a tree, and \<open>P4TABLE\<close> reaches it.\<close>

definition mp_inv :: "x86 \<Rightarrow> machine \<Rightarrow> bool" where
  "mp_inv X m \<longleftrightarrow>
     phys_inv (m_phys m) \<and> vc_inv X (m_vcache m) \<and>
     m_p4page m \<in> vc_held X (m_vcache m) \<and> vc_win X (m_vcache m) (m_p4page m) = Some (m_cr3 m) \<and>
     tree_ok X m"

text \<open>No huge page and no unreadable entry on the way to the table of a page.\<close>

definition path_ok :: "x86 \<Rightarrow> machine \<Rightarrow> nat \<Rightarrow> bool" where
  "path_ok X m a \<longleftrightarrow>
     (\<forall>(i, p) \<in> {(p4_index X a, []), (p3_index X a, [p4_index X a]), (p2_index X a, [p3_index X a, p4_index X a])}.
        ent X m i p = 0 \<or> pte_frame X (ent X m i p) \<noteq> None)"

section \<open>Changing the tables\<close>

lemma same_tables:
  assumes "m_tables m' = m_tables m" "m_cr3 m' = m_cr3 m"
  shows "node X m' = node X m" "ent X m' = ent X m" "pagemap X m' = pagemap X m" "path_ok X m' = path_ok X m"
proof -
  have "node X m' p = node X m p" for p using assms by (induction p) simp_all
  then show node: "node X m' = node X m" by (rule ext)
  show ent: "ent X m' = ent X m" by (intro ext) (simp add: ent_def node assms(1) cong: option.case_cong)
  show "pagemap X m' = pagemap X m" "path_ok X m' = path_ok X m"
    by (intro ext, simp add: pagemap_def path_ok_def ent)+
qed

lemma tpath_Cons: "tpath (i # p) \<longleftrightarrow> i < 512 \<and> length p \<le> 2 \<and> tpath p"
  by (auto simp: tpath_def)

lemma tpath_Nil [simp]: "tpath []"
  by (simp add: tpath_def)

lemma tree_okD:
  assumes "tree_ok X m" "tpath p" "node X m p = Some f"
  shows "f \<notin> free_frames (m_phys m)" "\<And>q. tpath q \<Longrightarrow> node X m q = Some f \<Longrightarrow> p = q"
  using assms unfolding tree_ok_def by blast+

lemma mp_inv_tree: "mp_inv X m \<Longrightarrow> tree_ok X m"
  by (simp add: mp_inv_def)

context x86_crate
begin

lemma node_Cons_ent: "node X m (i # p) = pte_frame X (ent X m i p)"
  by (cases "node X m p") (simp_all add: ent_def pte_frame_unused)

text \<open>Writing an entry of a last-level table changes that entry of the address space only.\<close>

lemma leaf_write:
  assumes tree: "tree_ok X m" and p: "tpath p" "length p = 3" "node X m p = Some t"
    and m': "m_tables m' = (m_tables m)(t := (m_tables m t)(i := e))" "m_cr3 m' = m_cr3 m"
  shows "tpath q \<Longrightarrow> node X m' q = node X m q"
    and "tpath q \<Longrightarrow> ent X m' j q = (if q = p \<and> j = i then e else ent X m j q)"
proof -
  show node: "node X m' q = node X m q" if "tpath q" for q
    using that
  proof (induction q)
    case (Cons j q)
    then have q: "tpath q" "length q \<le> 2" "node X m' q = node X m q" by (auto simp: tpath_Cons)
    have "u \<noteq> t" if "node X m q = Some u" for u
      using tree_okD(2) [OF tree p(1,3) q(1)] that q(2) p(2) by auto
    with q(3) m'(1) show ?case by (cases "node X m q") auto
  qed (simp add: m'(2))
  show "ent X m' j q = (if q = p \<and> j = i then e else ent X m j q)" if "tpath q" for q j
    using node [OF that] m'(1) p(3) tree_okD(2) [OF tree p(1,3) that]
    by (cases "node X m q") (auto simp: ent_def)
qed

text \<open>Pointing an unused entry at a cleared fresh frame adds an empty table.\<close>

lemma grow_write:
  assumes tree: "tree_ok X m" and p: "tpath (i # p)" "node X m p = Some t" "m_tables m t i = 0"
    and f: "f \<in> free_frames (m_phys m)" "pte_frame X e = Some f"
    and m': "m_tables m' = (m_tables m)(t := (m_tables m t)(i := e), f := (\<lambda>_. 0))" "m_cr3 m' = m_cr3 m"
  shows "tpath q \<Longrightarrow> node X m' q = (if q = i # p then Some f else node X m q)"
    and "tpath q \<Longrightarrow> ent X m' j q = (if q = p \<and> j = i then e else ent X m j q)"
proof -
  have p': "tpath p" using p(1) by (simp add: tpath_Cons)
  have "f \<noteq> t" using tree_okD(1) [OF tree p' p(2)] f(1) by auto
  have none: "node X m (i # p) = None" using p by (simp add: pte_frame_unused)
  have other: "m_tables m' u = m_tables m u" if "tpath q" "node X m q = Some u" "q \<noteq> p" for q u
  proof -
    have "u \<noteq> t" using tree_okD(2) [OF tree p' p(2) that(1)] that by auto
    moreover have "u \<noteq> f" using tree_okD(1) [OF tree that(1,2)] f(1) by auto
    ultimately show ?thesis by (simp add: m'(1))
  qed
  show node: "node X m' q = (if q = i # p then Some f else node X m q)" if "tpath q" for q
    using that
  proof (induction q)
    case (Cons j q)
    then have q: "tpath q" "node X m' q = (if q = i # p then Some f else node X m q)"
      by (auto simp: tpath_Cons)
    consider "q = i # p" | "q = p" | "q \<noteq> i # p" "q \<noteq> p" by blast
    then show ?case
    proof cases
      case 1
      with q none m'(1) show ?thesis by (simp add: pte_frame_unused)
    next
      case 2
      then have "q \<noteq> i # p" by auto
      with 2 q p f m'(1) \<open>f \<noteq> t\<close> show ?thesis by simp
    next
      case 3
      with q other [OF q(1)] show ?thesis by (cases "node X m q") auto
    qed
  qed (simp add: m'(2))
  show "ent X m' j q = (if q = p \<and> j = i then e else ent X m j q)" if "tpath q" for q j
  proof -
    consider "q = i # p" | "q = p" | "q \<noteq> i # p" "q \<noteq> p" by blast
    then show ?thesis
    proof cases
      case 1
      then have "q \<noteq> p" by auto
      with 1 node [OF that] none m'(1) show ?thesis by (simp add: ent_def)
    next
      case 2
      then have "q \<noteq> i # p" by auto
      with 2 node [OF that] p m'(1) \<open>f \<noteq> t\<close> show ?thesis by (simp add: ent_def)
    next
      case 3
      with node [OF that] other [OF that] show ?thesis
        by (cases "node X m q") (auto simp: ent_def)
    qed
  qed
qed

lemma grow_tree:
  assumes tree: "tree_ok X m" and p: "tpath (i # p)" "node X m p = Some t" "m_tables m t i = 0"
    and f: "f \<in> free_frames (m_phys m)" "pte_frame X e = Some f"
    and m': "m_tables m' = (m_tables m)(t := (m_tables m t)(i := e), f := (\<lambda>_. 0))" "m_cr3 m' = m_cr3 m"
    and free: "free_frames (m_phys m') = free_frames (m_phys m) - {f}"
  shows "tree_ok X m'"
  unfolding tree_ok_def
proof (intro conjI allI impI; elim conjE)
  note g = grow_write [OF tree p f m']
  fix p' q g' assume "tpath p'" "tpath q" "node X m' p' = Some g'" "node X m' q = Some g'"
  then show "p' = q"
    using g(1) tree_okD [OF tree] f(1) by (auto split: if_splits)
next
  note g = grow_write [OF tree p f m']
  fix q g' assume "tpath q" "node X m' q = Some g'"
  then show "g' \<notin> free_frames (m_phys m')"
    using g(1) tree_okD(1) [OF tree] free by (auto split: if_splits)
qed

end

section \<open>\<open>ensure_allocated\<close>\<close>

text \<open>
  What a call for entry \<open>i\<close> of the table at \<open>p\<close> with window \<open>w\<close> leaves: the table below
  that entry exists and is reached through \<open>w\<close>, every other entry of the address space
  is as before, and at most one frame has been used.
\<close>

definition ensured :: "x86 \<Rightarrow> nat \<Rightarrow> nat list \<Rightarrow> nat \<Rightarrow> machine \<Rightarrow> machine \<Rightarrow> bool" where
  "ensured X i p w m m' \<longleftrightarrow>
     mp_inv X m' \<and>
     node X m' (i # p) \<noteq> None \<and> vc_win X (m_vcache m') w = node X m' (i # p) \<and>
     vc_held X (m_vcache m') = vc_held X (m_vcache m) \<and>
     (\<forall>q \<in> vc_held X (m_vcache m) - {w}. vc_win X (m_vcache m') q = vc_win X (m_vcache m) q) \<and>
     vc_room (m_vcache m') = vc_room (m_vcache m) \<and>
     (\<forall>q j. tpath q \<and> (q, j) \<noteq> (p, i) \<longrightarrow> ent X m' j q = ent X m j q) \<and>
     (\<forall>q g. tpath q \<and> node X m' q = Some g \<longrightarrow> node X m q = Some g \<or> g \<in> free_frames (m_phys m)) \<and>
     m_cr3 m' = m_cr3 m \<and> m_p4page m' = m_p4page m \<and> m_stale m' = m_stale m \<and> m_gstale m' = m_gstale m \<and>
     managed (m_phys m') = managed (m_phys m) \<and>
     free_frames (m_phys m') \<subseteq> free_frames (m_phys m) \<and>
     card (free_frames (m_phys m)) \<le> card (free_frames (m_phys m')) + 1"

lemma finite_free_frames [simp]: "finite (free_frames a)"
  by (simp add: free_frames_def)

context x86_crate
begin

lemma ensure_old:
  assumes inv: "mp_inv X m" and tp: "tpath (i # p)" and w: "vc_win X (m_vcache m) w = Some t"
    and t: "node X m p = Some t" and mp: "mp \<in> vc_held X (m_vcache m)" "mp \<noteq> m_p4page m"
    and old: "m_tables m t i \<noteq> 0" "pte_frame X (m_tables m t i) = Some f"
  shows "\<exists>m'. ensure_allocated X (Win w i) page mp m = Some m' \<and> ensured X i p mp m m'"
proof -
  have f: "page_aligned f" "f < 2 ^ 52" using pte_frame_aligned [OF old(2)] by simp_all
  have vinv: "vc_inv X (m_vcache m)" using inv by (simp add: mp_inv_def)
  obtain vc where vc: "remap X mp f (m_vcache m) = Some (Some (), vc)" "vc_inv X vc"
    "vc_held X vc = vc_held X (m_vcache m)" "vc_win X vc mp = Some f"
    "\<forall>q \<in> vc_held X (m_vcache m) - {mp}. vc_win X vc q = vc_win X (m_vcache m) q"
    "vc_room vc = vc_room (m_vcache m)"
    using remap_ok [OF vinv f mp(1)] by blast
  define m' where "m' = m\<lparr>m_vcache := vc\<rparr>"
  have run: "ensure_allocated X (Win w i) page mp m = Some m'"
    using w old vc(1) by (simp add: ensure_allocated_def read_entry_def pte_is_unused_eq m'_def)
  have "m_tables m' = m_tables m" "m_cr3 m' = m_cr3 m" by (simp_all add: m'_def)
  note same = same_tables [OF this, of X]
  have "mp_inv X m'" using inv vc mp(2) unfolding mp_inv_def tree_ok_def same by (simp add: m'_def)
  then have "ensured X i p mp m m'" using vc t old(2) unfolding ensured_def same
    by (simp add: m'_def)
  with run show ?thesis by blast
qed

lemma ensure_new:
  assumes inv: "mp_inv X m" and tp: "tpath (i # p)" and w: "vc_win X (m_vcache m) w = Some t"
    and t: "node X m p = Some t" and mp: "mp \<in> vc_held X (m_vcache m)" "mp \<noteq> m_p4page m"
    and new: "m_tables m t i = 0" "free_frames (m_phys m) \<noteq> {}"
  shows "\<exists>m'. ensure_allocated X (Win w i) page mp m = Some m' \<and> ensured X i p mp m m'"
proof -
  have pinv: "phys_inv (m_phys m)" and vinv: "vc_inv X (m_vcache m)" using inv by (simp_all add: mp_inv_def)
  obtain f ph where f: "allocate_frame X (m_phys m) = Some (Some f, ph)" "f \<in> free_frames (m_phys m)"
    "free_frames ph = free_frames (m_phys m) - {f}" "managed ph = managed (m_phys m)" "phys_inv ph"
    using phys.alloc_frame [OF pinv new(2)] by blast
  then have fok: "page_aligned f" "f < 2 ^ 52"
    using managed_frame [OF pinv] phys.avail_owned [OF pinv] by auto
  obtain vc where vc: "remap X mp f (m_vcache m) = Some (Some (), vc)" "vc_inv X vc"
    "vc_held X vc = vc_held X (m_vcache m)" "vc_win X vc mp = Some f"
    "\<forall>q \<in> vc_held X (m_vcache m) - {mp}. vc_win X vc q = vc_win X (m_vcache m) q"
    "vc_room vc = vc_room (m_vcache m)"
    using remap_ok [OF vinv fok mp(1)] by blast
  define fl where "fl = {WRITABLE, PRESENT} \<union> (if page < KVMSPACE then {USER_ACCESSIBLE} else {})"
  define e where "e = pte_set_frame X 0 f fl"
  have e: "pte_frame X e = Some f"
    unfolding e_def by (rule pte_frame_set_frame [OF fok]) (auto simp: fl_def)
  define m' where "m' = m\<lparr>m_phys := ph, m_vcache := vc,
    m_tables := (m_tables m)(t := (m_tables m t)(i := e), f := (\<lambda>_. 0))\<rparr>"
  have "ensure_allocated X (Win w i) page mp m = Some m'"
    using w t new(1) f(1) vc(1,4) e
    by (simp add: ensure_allocated_def read_entry_def write_entry_def pte_is_unused_eq pte_new_eq
        alloc_substruct_def palloc_def fill_zero_def m'_def e_def fl_def)
  moreover have m': "m_tables m' = (m_tables m)(t := (m_tables m t)(i := e), f := (\<lambda>_. 0))" "m_cr3 m' = m_cr3 m"
    by (simp_all add: m'_def)
  note tree = mp_inv_tree [OF inv]
  note g = grow_write [OF tree tp t new(1) f(2) e m']
  have "tree_ok X m'"
    by (rule grow_tree [OF tree tp t new(1) f(2) e m']) (use f(3) in \<open>simp add: m'_def\<close>)
  then have "mp_inv X m'" using inv vc f mp(2) by (simp add: m'_def mp_inv_def)
  moreover have "node X m (i # p) = None" using t new(1) by (simp add: pte_frame_unused)
  moreover have fields: "m_phys m' = ph" "m_vcache m' = vc" "m_cr3 m' = m_cr3 m"
    "m_p4page m' = m_p4page m" "m_stale m' = m_stale m" "m_gstale m' = m_gstale m"
    by (simp_all add: m'_def)
  ultimately have "ensured X i p mp m m'"
    using g tp vc f card_Suc_Diff1 [OF finite_free_frames f(2)]
    unfolding ensured_def fields by (auto simp del: node.simps split: if_splits)
  with \<open>ensure_allocated X (Win w i) page mp m = Some m'\<close> show ?thesis by blast
qed

lemma ensure_allocated_ok:
  assumes "mp_inv X m" and "tpath (i # p)" and w: "vc_win X (m_vcache m) w = Some t"
    and t: "node X m p = Some t" and "mp \<in> vc_held X (m_vcache m)" "mp \<noteq> m_p4page m"
    and ok: "ent X m i p = 0 \<or> pte_frame X (ent X m i p) \<noteq> None" and "free_frames (m_phys m) \<noteq> {}"
  shows "\<exists>m'. ensure_allocated X (Win w i) page mp m = Some m' \<and> ensured X i p mp m m'"
proof (cases "m_tables m t i = 0")
  case True
  with ensure_new [OF assms(1-6) _ assms(8)] show ?thesis by blast
next
  case False
  with ok t obtain f where "pte_frame X (m_tables m t i) = Some f" by (auto simp: ent_def)
  with ensure_old [OF assms(1-6) False] show ?thesis by blast
qed

end

section \<open>One page\<close>

text \<open>The flags a page is mapped with, whatever the caller asks for.\<close>

definition page_flags :: "nat \<Rightarrow> pflags \<Rightarrow> pflags" where
  "page_flags page flags =
     (if KVMSPACE < page then (flags \<union> {GLOBAL}) - {USER_ACCESSIBLE} else flags) \<union> {PRESENT}"

text \<open>
  \<open>moved X W E k m m'\<close>: of the windows held only those in \<open>W\<close> reach other frames, of the
  last-level entries only those in \<open>E\<close> have changed, no way to a table has become
  unusable, at most \<open>k\<close> frames have been used, and a new table is in a frame that was
  free.
\<close>

definition moved :: "x86 \<Rightarrow> nat set \<Rightarrow> (nat list \<times> nat) set \<Rightarrow> nat \<Rightarrow> machine \<Rightarrow> machine \<Rightarrow> bool" where
  "moved X W E k m m' \<longleftrightarrow>
     (\<forall>q j. tpath q \<and> length q = 3 \<and> (q, j) \<notin> E \<longrightarrow> ent X m' j q = ent X m j q) \<and>
     (\<forall>b. path_ok X m b \<longrightarrow> path_ok X m' b) \<and>
     (\<forall>q g. tpath q \<and> node X m' q = Some g \<longrightarrow> node X m q = Some g \<or> g \<in> free_frames (m_phys m)) \<and>
     vc_held X (m_vcache m') = vc_held X (m_vcache m) \<and>
     (\<forall>q \<in> vc_held X (m_vcache m) - W. vc_win X (m_vcache m') q = vc_win X (m_vcache m) q) \<and>
     vc_room (m_vcache m') = vc_room (m_vcache m) \<and>
     m_cr3 m' = m_cr3 m \<and> m_p4page m' = m_p4page m \<and>
     managed (m_phys m') = managed (m_phys m) \<and>
     free_frames (m_phys m') \<subseteq> free_frames (m_phys m) \<and>
     card (free_frames (m_phys m)) \<le> card (free_frames (m_phys m')) + k"

lemma moved_refl: "moved X W E k m m"
  by (simp add: moved_def)

lemma moved_trans:
  assumes "moved X W E k m m1" "moved X V F l m1 m2"
  shows "moved X (W \<union> V) (E \<union> F) (k + l) m m2"
proof -
  have "card (free_frames (m_phys m)) \<le> card (free_frames (m_phys m2)) + (k + l)"
    "free_frames (m_phys m2) \<subseteq> free_frames (m_phys m)"
    using assms by (auto simp: moved_def)
  moreover have "node X m q = Some g \<or> g \<in> free_frames (m_phys m)" if "tpath q" "node X m2 q = Some g" for q g
    using assms that unfolding moved_def by blast
  ultimately show ?thesis using assms unfolding moved_def by simp
qed

context x86_crate
begin

lemma index_less: "p1_index X a < 512" "p2_index X a < 512" "p3_index X a < 512" "p4_index X a < 512"
  by (simp_all add: p1_index_eq p2_index_eq p3_index_eq p4_index_eq)

lemma tpath_path: "tpath (path X a)" "length (path X a) = 3"
  by (simp_all add: path_def tpath_def index_less)

lemma path_ok_ensured:
  assumes "ensured X i p w m m'" "path_ok X m b"
  shows "path_ok X m' b"
proof -
  have "ent X m' j q = 0 \<or> pte_frame X (ent X m' j q) \<noteq> None"
    if "tpath q" "ent X m j q = 0 \<or> pte_frame X (ent X m j q) \<noteq> None" for j q
    using that assms(1) by (cases "(q, j) = (p, i)") (auto simp: ensured_def node_Cons_ent simp del: node.simps)
  moreover have "tpath []" "tpath [p4_index X b]" "tpath [p3_index X b, p4_index X b]"
    by (simp_all add: tpath_def index_less)
  ultimately show ?thesis using assms(2) by (auto simp: path_ok_def)
qed

lemma ensured_moved:
  assumes "ensured X i p w m m'" "length p < 3"
  shows "moved X {w} {} 1 m m'"
proof -
  have "ent X m' j q = ent X m j q" if "tpath q" "length q = 3" for q j
  proof -
    from that assms(2) have "q \<noteq> p" by auto
    with assms(1) that(1) show ?thesis by (simp add: ensured_def)
  qed
  with path_ok_ensured [OF assms(1)] assms(1) show ?thesis
    unfolding moved_def ensured_def by simp
qed

lemma path_ok_eq:
  assumes "\<And>j q. tpath q \<Longrightarrow> length q < 3 \<Longrightarrow> ent X m' j q = ent X m j q"
  shows "path_ok X m' b = path_ok X m b"
  using assms [of "[]"] assms [of "[p4_index X b]"] assms [of "[p3_index X b, p4_index X b]"]
  by (simp add: path_ok_def tpath_def index_less)

lemma set_p1_entry_ok:
  assumes inv: "mp_inv X m" and t: "vc_win X (m_vcache m) w = Some t" "node X m (path X a) = Some t"
    and f: "page_aligned f" "f < 2 ^ 52" and fl: "PRESENT \<in> fl" "HUGE_PAGE \<notin> fl"
  shows "\<exists>m'. set_p1_entry X w a f fl m = Some m' \<and> mp_inv X m' \<and>
    moved X {} {(path X a, p1_index X a)} 0 m m' \<and>
    pte_frame X (pagemap X m' a) = Some f \<and> pte_flags X (pagemap X m' a) = fl \<and>
    m_stale m' \<subseteq> insert a (m_stale m) \<and> m_gstale m' \<subseteq> insert a (m_gstale m) \<and>
    (GLOBAL \<notin> pte_flags X (pagemap X m a) \<longrightarrow> m_gstale m' = m_gstale m)"
proof -
  define e where "e = pte_set_frame X (m_tables m t (p1_index X a)) f fl"
  define m' where "m' = (let m' = m\<lparr>m_tables := (m_tables m)(t := (m_tables m t)(p1_index X a := e))\<rparr> in
    if GLOBAL \<in> pte_flags X (m_tables m t (p1_index X a)) then m'\<lparr>m_gstale := insert a (m_gstale m)\<rparr>
    else m'\<lparr>m_stale := insert a (m_stale m)\<rparr>)"
  have run: "set_p1_entry X w a f fl m = Some m'"
    using t by (simp add: set_p1_entry_def read_entry_def write_entry_def m'_def e_def Let_def)
  have fields: "m_tables m' = (m_tables m)(t := (m_tables m t)(p1_index X a := e))" "m_cr3 m' = m_cr3 m"
    "m_phys m' = m_phys m" "m_vcache m' = m_vcache m" "m_p4page m' = m_p4page m"
    by (simp_all add: m'_def Let_def)
  note l = leaf_write [OF mp_inv_tree [OF inv] tpath_path t(2) fields(1,2)]
  have "mp_inv X m'"
    using inv unfolding mp_inv_def tree_ok_def fields by (metis l(1))
  moreover have "path_ok X m' b = path_ok X m b" for b
  proof (rule path_ok_eq)
    fix j q assume q: "tpath q" "length q < 3"
    then have "q \<noteq> path X a" using tpath_path(2) [of a] by auto
    with l(2) [OF q(1)] show "ent X m' j q = ent X m j q" by simp
  qed
  then have "moved X {} {(path X a, p1_index X a)} 0 m m'"
    using l unfolding moved_def fields by auto
  moreover have "pagemap X m' a = e" using l(2) [OF tpath_path(1) [of a]] by (simp add: pagemap_def)
  moreover have "pagemap X m a = m_tables m t (p1_index X a)" using t(2) by (simp add: pagemap_def ent_def)
  ultimately show ?thesis
    using run pte_frame_set_frame [OF f fl] pte_flags_set_frame [OF f fl(2)]
    by (intro exI [of _ m']) (auto simp: e_def m'_def Let_def)
qed

lemma ensure_three:
  assumes inv: "mp_inv X m" and tmp: "t0 \<in> vc_held X (m_vcache m)" "t1 \<in> vc_held X (m_vcache m)"
      "t0 \<noteq> t1" "t0 \<noteq> m_p4page m" "t1 \<noteq> m_p4page m"
    and ok: "path_ok X m a" and free: "3 \<le> card (free_frames (m_phys m))"
  shows "\<exists>m1 m2 m3. ensure_allocated X (Win (m_p4page m) (p4_index X a)) a t0 m = Some m1 \<and>
    ensure_allocated X (Win t0 (p3_index X a)) a t1 m1 = Some m2 \<and>
    ensure_allocated X (Win t1 (p2_index X a)) a t0 m2 = Some m3 \<and>
    mp_inv X m3 \<and> moved X {t0, t1} {} 3 m m3 \<and> m_stale m3 = m_stale m \<and> m_gstale m3 = m_gstale m \<and>
    (\<exists>t. vc_win X (m_vcache m3) t0 = Some t \<and> node X m3 (path X a) = Some t)"
proof -
  have tps: "tpath [p4_index X a]" "tpath [p3_index X a, p4_index X a]"
    "tpath [p2_index X a, p3_index X a, p4_index X a]"
    by (simp_all add: tpath_def index_less)
  have ne: "free_frames ph \<noteq> {}" if "0 < card (free_frames ph)" for ph using that by auto
  have p4: "vc_win X (m_vcache m) (m_p4page m) = Some (m_cr3 m)" using inv by (simp add: mp_inv_def)
  have ent4: "ent X m (p4_index X a) [] = 0 \<or> pte_frame X (ent X m (p4_index X a) []) \<noteq> None"
    using ok by (simp add: path_ok_def)
  have "free_frames (m_phys m) \<noteq> {}" by (rule ne) (use free in simp)
  from ensure_allocated_ok [OF inv tps(1) p4 _ tmp(1,4) ent4 this] obtain m1 where
    m1: "ensure_allocated X (Win (m_p4page m) (p4_index X a)) a t0 m = Some m1"
      "ensured X (p4_index X a) [] t0 m m1" by auto
  note e1 = m1(2) [unfolded ensured_def]
  then have inv1: "mp_inv X m1" by simp
  from e1 obtain t3 where t3: "node X m1 [p4_index X a] = Some t3" "vc_win X (m_vcache m1) t0 = Some t3" by auto
  have ok1: "path_ok X m1 a" by (rule path_ok_ensured [OF m1(2) ok])
  have ent3: "ent X m1 (p3_index X a) [p4_index X a] = 0 \<or> pte_frame X (ent X m1 (p3_index X a) [p4_index X a]) \<noteq> None"
    using ok1 by (simp add: path_ok_def)
  have held1: "t1 \<in> vc_held X (m_vcache m1)" "t1 \<noteq> m_p4page m1" using e1 tmp by simp_all
  have "free_frames (m_phys m1) \<noteq> {}" by (rule ne) (use free e1 in linarith)
  from ensure_allocated_ok [OF inv1 tps(2) t3(2,1) held1 ent3 this] obtain m2 where
    m2: "ensure_allocated X (Win t0 (p3_index X a)) a t1 m1 = Some m2"
      "ensured X (p3_index X a) [p4_index X a] t1 m1 m2" by blast
  note e2 = m2(2) [unfolded ensured_def]
  then have inv2: "mp_inv X m2" by simp
  from e2 obtain t2 where t2: "node X m2 [p3_index X a, p4_index X a] = Some t2" "vc_win X (m_vcache m2) t1 = Some t2"
    by (auto simp del: node.simps)
  have ok2: "path_ok X m2 a" by (rule path_ok_ensured [OF m2(2) ok1])
  have ent2: "ent X m2 (p2_index X a) [p3_index X a, p4_index X a] = 0 \<or>
      pte_frame X (ent X m2 (p2_index X a) [p3_index X a, p4_index X a]) \<noteq> None"
    using ok2 by (simp add: path_ok_def)
  have held2: "t0 \<in> vc_held X (m_vcache m2)" "t0 \<noteq> m_p4page m2" using e1 e2 tmp by simp_all
  have "free_frames (m_phys m2) \<noteq> {}" by (rule ne) (use free e1 e2 in linarith)
  from ensure_allocated_ok [OF inv2 tps(3) t2(2,1) held2 ent2 this] obtain m3 where
    m3: "ensure_allocated X (Win t1 (p2_index X a)) a t0 m2 = Some m3"
      "ensured X (p2_index X a) [p3_index X a, p4_index X a] t0 m2 m3" by blast
  note e3 = m3(2) [unfolded ensured_def]
  have "moved X ({t0} \<union> {t1} \<union> {t0}) ({} \<union> {} \<union> {}) (1 + 1 + 1) m m3"
    by (rule moved_trans [OF moved_trans [OF ensured_moved [OF m1(2)] ensured_moved [OF m2(2)]]
          ensured_moved [OF m3(2)]]) simp_all
  moreover have "{t0} \<union> {t1} \<union> {t0} = {t0, t1}" by blast
  ultimately have "moved X {t0, t1} {} 3 m m3" by (simp add: numeral_3_eq_3)
  moreover have "\<exists>t. vc_win X (m_vcache m3) t0 = Some t \<and> node X m3 (path X a) = Some t"
    using e3 unfolding path_def by (auto simp del: node.simps)
  ultimately show ?thesis using m1(1) m2(1) m3(1) e1 e2 e3 by auto
qed

lemma map_step_ok:
  assumes inv: "mp_inv X m" and tmp: "t0 \<in> vc_held X (m_vcache m)" "t1 \<in> vc_held X (m_vcache m)"
      "t0 \<noteq> t1" "t0 \<noteq> m_p4page m" "t1 \<noteq> m_p4page m"
    and a: "a = page + i * 4096" "page_aligned page" "canonical a"
    and f: "f = phys + i * 4096" "page_aligned phys" "f < 2 ^ 52"
    and ok: "path_ok X m a" and free: "3 \<le> card (free_frames (m_phys m))" and fl: "HUGE_PAGE \<notin> flags"
  shows "\<exists>m'. map_step X page phys t0 t1 d i (flags, m) = Some (page_flags a flags, m') \<and> mp_inv X m' \<and>
    moved X {t0, t1} {(path X a, p1_index X a)} 3 m m' \<and>
    pte_frame X (pagemap X m' a) = Some f \<and> pte_flags X (pagemap X m' a) = page_flags a flags \<and>
    m_stale m' \<subseteq> insert a (m_stale m) \<and> m_gstale m' \<subseteq> insert a (m_gstale m) \<and>
    (d \<longrightarrow> a \<notin> m_stale m' \<and> a \<notin> m_gstale m') \<and>
    (GLOBAL \<notin> pte_flags X (pagemap X m a) \<longrightarrow> m_gstale m' \<subseteq> m_gstale m)"
proof -
  obtain m1 m2 m3 t where e: "ensure_allocated X (Win (m_p4page m) (p4_index X a)) a t0 m = Some m1"
    "ensure_allocated X (Win t0 (p3_index X a)) a t1 m1 = Some m2"
    "ensure_allocated X (Win t1 (p2_index X a)) a t0 m2 = Some m3"
    and m3: "mp_inv X m3" "moved X {t0, t1} {} 3 m m3" "m_stale m3 = m_stale m" "m_gstale m3 = m_gstale m"
      "vc_win X (m_vcache m3) t0 = Some t" "node X m3 (path X a) = Some t"
    using ensure_three [OF inv tmp ok free] by blast
  have same: "pagemap X m3 a = pagemap X m a"
    using m3(2) tpath_path [of a] by (simp add: moved_def pagemap_def)
  have al: "page_aligned a" "page_aligned f" "i * 4096 < 2 ^ 64"
    using a f by (auto simp: canonical_def)
  have pf: "PRESENT \<in> page_flags a flags" "HUGE_PAGE \<notin> page_flags a flags"
    using fl by (auto simp: page_flags_def)
  obtain m4 where m4: "set_p1_entry X t0 a f (page_flags a flags) m3 = Some m4" "mp_inv X m4"
    "moved X {} {(path X a, p1_index X a)} 0 m3 m4"
    "pte_frame X (pagemap X m4 a) = Some f" "pte_flags X (pagemap X m4 a) = page_flags a flags"
    "m_stale m4 \<subseteq> insert a (m_stale m3)" "m_gstale m4 \<subseteq> insert a (m_gstale m3)"
    "GLOBAL \<notin> pte_flags X (pagemap X m3 a) \<longrightarrow> m_gstale m4 = m_gstale m3"
    using set_p1_entry_ok [OF m3(1,5,6) al(2) f(3) pf] by blast
  define m' where "m' = (if d then flush_page a m4 else m4)"
  have fields: "m_tables m' = m_tables m4" "m_cr3 m' = m_cr3 m4" "m_phys m' = m_phys m4"
    "m_vcache m' = m_vcache m4" "m_p4page m' = m_p4page m4"
    by (simp_all add: m'_def flush_page_def)
  note st = same_tables [OF fields(1,2), of X]
  have "moved X ({t0, t1} \<union> {}) ({} \<union> {(path X a, p1_index X a)}) (3 + 0) m m4"
    by (rule moved_trans [OF m3(2) m4(3)])
  then have "moved X {t0, t1} {(path X a, p1_index X a)} 3 m m'"
    unfolding moved_def fields st by simp
  moreover have "mp_inv X m'" using m4(2) unfolding mp_inv_def tree_ok_def fields st .
  moreover have "pagemap X m' a = pagemap X m4 a" by (simp add: st)
  moreover have "map_step X page phys t0 t1 d i (flags, m) = Some (page_flags a flags, m')"
    using e m4(1) al a(3) f a(1)
    by (simp add: map_step_def crate_eqs mul64_def page_flags_def m'_def)
  ultimately show ?thesis using m4(4-8) m3(3,4) same
    by (intro exI [of _ m'] conjI) (auto simp: m'_def flush_page_def)
qed

end

section \<open>Pages and their slots in the tables\<close>

lemma page_number_inj:
  assumes "canonical a" "canonical b" "page_aligned a" "page_aligned b"
    and "a div 4096 mod 2 ^ 36 = b div 4096 mod 2 ^ 36"
  shows "a = b"
proof -
  have low: "x div 4096 mod 2 ^ 36 = (if x < 2 ^ 47 then x div 4096 else x div 4096 - (2 ^ 52 - 2 ^ 36))"
    "x < 2 ^ 47 \<longleftrightarrow> x div 4096 mod 2 ^ 36 < 2 ^ 35" if x: "canonical x" for x
  proof -
    have "x div 4096 mod 2 ^ 36 = x div 4096 - (2 ^ 52 - 2 ^ 36)" "2 ^ 35 \<le> x div 4096 mod 2 ^ 36"
      if "\<not> x < 2 ^ 47"
    proof -
      have r: "2 ^ 52 - 2 ^ 35 \<le> x div 4096" "x div 4096 < 2 ^ 52"
        using x that by (auto simp: canonical_def less_eq_div_iff_mult_less_eq div_less_iff_less_mult)
      define k where "k = x div 4096 - (2 ^ 52 - 2 ^ 36)"
      have "x div 4096 = k + 2 ^ 36 * (2 ^ 16 - 1)" "k < 2 ^ 36" "2 ^ 35 \<le> k" using r by (auto simp: k_def)
      then have "x div 4096 mod 2 ^ 36 = k" by (metis mod_less mod_mult_self2)
      with \<open>2 ^ 35 \<le> k\<close> show "x div 4096 mod 2 ^ 36 = x div 4096 - (2 ^ 52 - 2 ^ 36)"
        "2 ^ 35 \<le> x div 4096 mod 2 ^ 36" by (simp_all add: k_def)
    qed
    moreover have "x div 4096 < 2 ^ 35" if "x < 2 ^ 47"
      using that by (simp add: div_less_iff_less_mult)
    ultimately show "x div 4096 mod 2 ^ 36 = (if x < 2 ^ 47 then x div 4096 else x div 4096 - (2 ^ 52 - 2 ^ 36))"
      "x < 2 ^ 47 \<longleftrightarrow> x div 4096 mod 2 ^ 36 < 2 ^ 35" by (cases "x < 2 ^ 47"; fastforce)+
  qed
  have high: "2 ^ 52 - 2 ^ 36 \<le> x div 4096" if "canonical x" "\<not> x < 2 ^ 47" for x
    using that by (auto simp: canonical_def less_eq_div_iff_mult_less_eq)
  have "a div 4096 = b div 4096"
    using low [OF assms(1)] low [OF assms(2)] high [OF assms(1)] high [OF assms(2)] assms(5)
    by (metis add_diff_inverse_nat linorder_not_less)
  then show ?thesis using assms(3,4) by (metis mult_div_mod_eq)
qed

context x86_crate
begin

lemma slot_inj:
  assumes "canonical a" "canonical b" "page_aligned a" "page_aligned b"
    and "path X a = path X b" "p1_index X a = p1_index X b"
  shows "a = b"
proof -
  have "x mod 2 ^ 36 = 2 ^ 27 * (x div 2 ^ 27 mod 512) + 2 ^ 18 * (x div 2 ^ 18 mod 512) +
      512 * (x div 512 mod 512) + x mod 512" for x :: nat
    using mod_mult2_eq [of x 512 "2 ^ 27"] mod_mult2_eq [of "x div 512" 512 "2 ^ 18"]
      mod_mult2_eq [of "x div 2 ^ 18" 512 512] by (simp add: div_mult2_eq [symmetric])
  moreover have "x div 2 ^ 12 div 2 ^ 27 = x div 2 ^ 39" "x div 2 ^ 12 div 2 ^ 18 = x div 2 ^ 30"
    "x div 2 ^ 12 div 512 = x div 2 ^ 21" for x :: nat
    by (simp_all add: div_mult2_eq [symmetric])
  ultimately have "a div 2 ^ 12 mod 2 ^ 36 = b div 2 ^ 12 mod 2 ^ 36"
    using assms(5,6) by (simp add: path_def p1_index_eq p2_index_eq p3_index_eq p4_index_eq)
  with page_number_inj [OF assms(1-4)] show ?thesis by simp
qed

end

section \<open>The loop over the pages\<close>

definition slots :: "x86 \<Rightarrow> nat set \<Rightarrow> (nat list \<times> nat) set" where
  "slots X A = (\<lambda>a. (path X a, p1_index X a)) ` A"

text \<open>The \<open>n\<close> pages from \<open>page\<close> on, all in one half of the address space.\<close>

definition pages :: "nat \<Rightarrow> nat \<Rightarrow> nat set" where
  "pages page n = (\<lambda>i. page + i * 4096) ` {..<n}"

definition range_ok :: "nat \<Rightarrow> nat \<Rightarrow> bool" where
  "range_ok page n \<longleftrightarrow> page_aligned page \<and>
     (page + n * 4096 \<le> 2 ^ 47 \<or> KVMSPACE < page \<and> page + n * 4096 \<le> 2 ^ 64)"

lemma range_ok_page:
  assumes "range_ok page n" "i < n"
  shows "canonical (page + i * 4096)" "page_aligned (page + i * 4096)"
    "KVMSPACE < page + i * 4096 \<longleftrightarrow> KVMSPACE < page"
proof -
  from assms(2) have "i * 4096 + 4096 \<le> n * 4096" by (cases n) auto
  with assms(1) show "canonical (page + i * 4096)" "page_aligned (page + i * 4096)"
    "KVMSPACE < page + i * 4096 \<longleftrightarrow> KVMSPACE < page"
    by (auto simp: range_ok_def canonical_def KVMSPACE_def)
qed

lemma pages_Suc: "pages page (Suc n) = insert (page + n * 4096) (pages page n)"
  by (auto simp: pages_def lessThan_Suc)

lemma page_flags_idem:
  "(KVMSPACE < a \<longleftrightarrow> KVMSPACE < b) \<Longrightarrow> page_flags a (page_flags b flags) = page_flags b flags"
  "(KVMSPACE < a \<longleftrightarrow> KVMSPACE < b) \<Longrightarrow> page_flags a flags = page_flags b flags"
  by (auto simp: page_flags_def)

text \<open>What \<open>n\<close> turns of the loop leave.\<close>

definition mapped :: "x86 \<Rightarrow> nat \<Rightarrow> nat \<Rightarrow> nat \<Rightarrow> pflags \<Rightarrow> bool \<Rightarrow> nat set \<Rightarrow> machine \<Rightarrow> machine \<Rightarrow> bool" where
  "mapped X page phys n flags d W m m' \<longleftrightarrow>
     mp_inv X m' \<and> moved X W (slots X (pages page n)) (3 * n) m m' \<and>
     (\<forall>i<n. pte_frame X (pagemap X m' (page + i * 4096)) = Some (phys + i * 4096) \<and>
        pte_flags X (pagemap X m' (page + i * 4096)) = page_flags page flags) \<and>
     m_stale m' \<subseteq> m_stale m \<union> pages page n \<and> m_gstale m' \<subseteq> m_gstale m \<union> pages page n \<and>
     (d \<longrightarrow> pages page n \<inter> (m_stale m' \<union> m_gstale m') = {}) \<and>
     ((\<forall>a \<in> pages page n. GLOBAL \<notin> pte_flags X (pagemap X m a)) \<longrightarrow> m_gstale m' \<subseteq> m_gstale m)"

context x86_crate
begin

lemma pagemap_moved:
  "moved X W (slots X A) k m m' \<Longrightarrow> (path X b, p1_index X b) \<notin> slots X A \<Longrightarrow> pagemap X m' b = pagemap X m b"
  using tpath_path [of b] by (simp add: moved_def pagemap_def)

lemma slot_pages:
  assumes "range_ok page n" "canonical b" "page_aligned b" "b \<notin> pages page n"
  shows "(path X b, p1_index X b) \<notin> slots X (pages page n)"
proof
  assume "(path X b, p1_index X b) \<in> slots X (pages page n)"
  then obtain i where i: "i < n" "path X b = path X (page + i * 4096)"
    "p1_index X b = p1_index X (page + i * 4096)"
    by (auto simp: slots_def pages_def)
  have "b = page + i * 4096"
    by (rule slot_inj [OF assms(2) range_ok_page(1) [OF assms(1) i(1)] assms(3)
          range_ok_page(2) [OF assms(1) i(1)] i(2,3)])
  with i(1) assms(4) show False by (auto simp: pages_def)
qed

lemma next_page_new:
  assumes "range_ok page (Suc n)"
  shows "(path X (page + n * 4096), p1_index X (page + n * 4096)) \<notin> slots X (pages page n)"
proof (rule slot_pages)
  show "range_ok page n" using assms by (auto simp: range_ok_def)
qed (use range_ok_page [OF assms, of n] in \<open>auto simp: pages_def\<close>)

lemma map_loop_ok:
  assumes inv: "mp_inv X m" and tmp: "t0 \<in> vc_held X (m_vcache m)" "t1 \<in> vc_held X (m_vcache m)"
      "t0 \<noteq> t1" "t0 \<noteq> m_p4page m" "t1 \<noteq> m_p4page m"
    and f: "page_aligned phys" "phys + n * 4096 \<le> 2 ^ 52" and fl: "HUGE_PAGE \<notin> flags"
    and r: "range_ok page n" and ok: "\<forall>a \<in> pages page n. path_ok X m a"
    and free: "3 * n \<le> card (free_frames (m_phys m))"
  shows "\<exists>m'. fold_opt (map_step X page phys t0 t1 d) [0..<n] (flags, m) =
      Some (if n = 0 then flags else page_flags page flags, m') \<and> mapped X page phys n flags d {t0, t1} m m'"
  using f(2) r ok free
proof (induction n)
  case 0
  then show ?case using inv moved_refl by (simp add: mapped_def pages_def)
next
  case (Suc n)
  have r': "range_ok page n" using Suc.prems(2) by (auto simp: range_ok_def)
  obtain m1 where run: "fold_opt (map_step X page phys t0 t1 d) [0..<n] (flags, m) =
      Some (if n = 0 then flags else page_flags page flags, m1)" "mapped X page phys n flags d {t0, t1} m m1"
    using Suc.IH [OF _ r'] Suc.prems by (auto simp: pages_Suc)
  note M = run(2) [unfolded mapped_def]
  then have mv: "moved X {t0, t1} (slots X (pages page n)) (3 * n) m m1" by simp
  let ?a = "page + n * 4096" and ?fl = "if n = 0 then flags else page_flags page flags"
  note a = range_ok_page [OF Suc.prems(2), of n, simplified]
  have al: "page_aligned page" using r' by (simp add: range_ok_def)
  have fr: "phys + n * 4096 < 2 ^ 52" using Suc.prems(1) by simp
  have hg: "HUGE_PAGE \<notin> ?fl" using fl by (auto simp: page_flags_def)
  have po: "path_ok X m1 ?a" using mv Suc.prems(3) by (simp add: moved_def pages_Suc)
  have c3: "3 \<le> card (free_frames (m_phys m1))"
    using mv Suc.prems(4) by (simp add: moved_def)
  have inv1: "mp_inv X m1" using M by simp
  have tmp1: "t0 \<in> vc_held X (m_vcache m1)" "t1 \<in> vc_held X (m_vcache m1)" "t0 \<noteq> t1"
    "t0 \<noteq> m_p4page m1" "t1 \<noteq> m_p4page m1" using mv tmp by (simp_all add: moved_def)
  obtain m2 where s: "map_step X page phys t0 t1 d n (?fl, m1) = Some (page_flags ?a ?fl, m2)"
    "mp_inv X m2" "moved X {t0, t1} {(path X ?a, p1_index X ?a)} 3 m1 m2"
    "pte_frame X (pagemap X m2 ?a) = Some (phys + n * 4096)"
    "pte_flags X (pagemap X m2 ?a) = page_flags ?a ?fl"
    "m_stale m2 \<subseteq> insert ?a (m_stale m1)" "m_gstale m2 \<subseteq> insert ?a (m_gstale m1)"
    "d \<longrightarrow> ?a \<notin> m_stale m2 \<and> ?a \<notin> m_gstale m2"
    "GLOBAL \<notin> pte_flags X (pagemap X m1 ?a) \<longrightarrow> m_gstale m2 \<subseteq> m_gstale m1"
    using map_step_ok [where d = d, OF inv1 tmp1 refl al a(1) refl f(1) fr po c3 hg] by blast
  have pf: "page_flags ?a ?fl = page_flags page flags"
    using page_flags_idem(1) [OF a(3), of flags] page_flags_idem(2) [OF a(3), of flags] by (cases "n = 0") simp_all
  have s3: "moved X {t0, t1} (slots X {?a}) 3 m1 m2" using s(3) by (simp add: slots_def)
  have "moved X ({t0, t1} \<union> {t0, t1}) (slots X (pages page n) \<union> slots X {?a}) (3 * n + 3) m m2"
    by (rule moved_trans [OF mv s3])
  moreover have "slots X (pages page (Suc n)) = slots X (pages page n) \<union> slots X {?a}"
    by (auto simp: slots_def pages_Suc)
  ultimately have mv': "moved X {t0, t1} (slots X (pages page (Suc n))) (3 * Suc n) m m2"
    by (simp add: add.commute)
  have new: "pagemap X m1 ?a = pagemap X m ?a"
    by (rule pagemap_moved [OF mv next_page_new [OF Suc.prems(2)]])
  have old: "pagemap X m2 (page + i * 4096) = pagemap X m1 (page + i * 4096)" if "i < n" for i
  proof (rule pagemap_moved [OF s3])
    have "page + i * 4096 \<in> pages page n" using that by (auto simp: pages_def)
    then have "(path X (page + i * 4096), p1_index X (page + i * 4096)) \<in> slots X (pages page n)"
      by (auto simp: slots_def)
    then show "(path X (page + i * 4096), p1_index X (page + i * 4096)) \<notin> slots X {?a}"
      using next_page_new [OF Suc.prems(2)] by (auto simp: slots_def)
  qed
  have "mapped X page phys (Suc n) flags d {t0, t1} m m2"
    unfolding mapped_def
  proof (intro conjI)
    show "\<forall>i<Suc n. pte_frame X (pagemap X m2 (page + i * 4096)) = Some (phys + i * 4096) \<and>
        pte_flags X (pagemap X m2 (page + i * 4096)) = page_flags page flags"
      using M s(4,5) old pf by (auto simp: less_Suc_eq)
    show "d \<longrightarrow> pages page (Suc n) \<inter> (m_stale m2 \<union> m_gstale m2) = {}"
      using M s(6-8) by (auto simp: pages_Suc)
    show "(\<forall>a \<in> pages page (Suc n). GLOBAL \<notin> pte_flags X (pagemap X m a)) \<longrightarrow> m_gstale m2 \<subseteq> m_gstale m"
      using M s(9) new by (auto simp: pages_Suc)
  qed (use s(2,6,7) mv' M in \<open>auto simp: pages_Suc\<close>)
  with run(1) s(1) pf show ?case by (simp add: fold_opt_append)
qed

end

section \<open>\<open>KernelMapper::map\<close>\<close>

definition page_count :: "nat \<Rightarrow> nat" where
  "page_count nbytes = round_up nbytes 4096 div 4096"

text \<open>
  What a caller has to provide: memory for at most three tables per page, a range in one
  half of the address space and outside the windows, and frames that exist.
\<close>

definition map_pre :: "x86 \<Rightarrow> nat \<Rightarrow> nat \<Rightarrow> nat \<Rightarrow> pflags \<Rightarrow> machine \<Rightarrow> bool" where
  "map_pre X page phys n flags m \<longleftrightarrow>
     mp_inv X m \<and> 2 \<le> vc_room (m_vcache m) \<and> range_ok page n \<and>
     (KVMSPACE \<le> page \<longrightarrow> KVMSPACE + VCACHE_SIZE \<le> page) \<and>
     page_aligned phys \<and> phys + n * 4096 \<le> 2 ^ 52 \<and> HUGE_PAGE \<notin> flags \<and>
     (\<forall>a \<in> pages page n. path_ok X m a) \<and> 3 * n \<le> card (free_frames (m_phys m))"

definition detailed :: "nat \<Rightarrow> nat \<Rightarrow> pflags \<Rightarrow> bool" where
  "detailed page n flags \<longleftrightarrow> GLOBAL \<in> flags \<or> KVMSPACE \<le> page \<or> n < 32"

definition map_post :: "x86 \<Rightarrow> nat \<Rightarrow> nat \<Rightarrow> nat \<Rightarrow> pflags \<Rightarrow> machine \<Rightarrow> machine \<Rightarrow> bool" where
  "map_post X page phys n flags m m' \<longleftrightarrow>
     mp_inv X m' \<and> moved X {} (slots X (pages page n)) (3 * n) m m' \<and>
     (\<forall>i<n. pte_frame X (pagemap X m' (page + i * 4096)) = Some (phys + i * 4096) \<and>
        pte_flags X (pagemap X m' (page + i * 4096)) = page_flags page flags) \<and>
     m_stale m' \<subseteq> m_stale m \<union> pages page n \<and> m_gstale m' \<subseteq> m_gstale m \<union> pages page n \<and>
     (detailed page n flags \<or> (\<forall>a \<in> pages page n. a \<notin> m_gstale m \<and> GLOBAL \<notin> pte_flags X (pagemap X m a)) \<longrightarrow>
        pages page n \<inter> (m_stale m' \<union> m_gstale m') = {})"

context x86_crate
begin

lemma kernel_map_ok:
  assumes pre: "map_pre X page phys n flags m" and n: "n = page_count nbytes" "0 < nbytes"
  shows "\<exists>m'. kernel_map X page phys nbytes flags m = Some (Inr (), m') \<and> map_post X page phys n flags m m'"
proof -
  note P = pre [unfolded map_pre_def]
  then have vinv: "vc_inv X (m_vcache m)" and room: "2 \<le> vc_room (m_vcache m)"
    and p4: "m_p4page m \<in> vc_held X (m_vcache m)" by (simp_all add: mp_inv_def)
  have null: "page_aligned 0 \<and> (0::nat) < 2 ^ 52" by simp
  obtain t0 t1 vc where w: "map_many X [0, 0] (m_vcache m) = Some (Some [t0, t1], vc)" "vc_inv X vc"
    "t0 \<notin> vc_held X (m_vcache m)" "t1 \<notin> vc_held X (m_vcache m)" "t0 \<noteq> t1"
    "vc_held X vc = {t0, t1} \<union> vc_held X (m_vcache m)"
    "\<forall>r \<in> vc_held X (m_vcache m). vc_win X vc r = vc_win X (m_vcache m) r"
    "vc_room (m_vcache m) = vc_room vc + vc_cost t0 + vc_cost t1"
    using map_many_two [OF vinv null null room] by blast
  define m0 where "m0 = m\<lparr>m_vcache := vc\<rparr>"
  have f0: "m_tables m0 = m_tables m" "m_cr3 m0 = m_cr3 m" "m_phys m0 = m_phys m" "m_vcache m0 = vc"
    "m_p4page m0 = m_p4page m" "m_stale m0 = m_stale m" "m_gstale m0 = m_gstale m" by (simp_all add: m0_def)
  note st0 = same_tables [OF f0(1,2), of X]
  have inv0: "mp_inv X m0" using P w(2,6,7) p4 unfolding mp_inv_def tree_ok_def f0 st0 by simp
  have t0: "t0 \<in> vc_held X (m_vcache m0)" "t1 \<in> vc_held X (m_vcache m0)" "t0 \<noteq> m_p4page m0" "t1 \<noteq> m_p4page m0"
    using w(3,4,6) p4 unfolding f0 by auto
  have ok0: "\<forall>a \<in> pages page n. path_ok X m0 a" "3 * n \<le> card (free_frames (m_phys m0))"
    using P unfolding f0 st0 by simp_all
  define d where "d = detailed page n flags"
  have pp: "page_aligned phys" "phys + n * 4096 \<le> 2 ^ 52" "HUGE_PAGE \<notin> flags" "range_ok page n"
    using P by simp_all
  obtain m1 where loop: "fold_opt (map_step X page phys t0 t1 d) [0..<n] (flags, m0) =
      Some (if n = 0 then flags else page_flags page flags, m1)" "mapped X page phys n flags d {t0, t1} m0 m1"
    using map_loop_ok [where d = d, OF inv0 t0(1,2) w(5) t0(3,4) pp ok0] by blast
  note M = loop(2) [unfolded mapped_def]
  then have mv: "moved X {t0, t1} (slots X (pages page n)) (3 * n) m0 m1" and inv1: "mp_inv X m1" by simp_all
  have vinv1: "vc_inv X (m_vcache m1)" using inv1 by (simp add: mp_inv_def)
  have held1: "vc_held X (m_vcache m1) = {t0, t1} \<union> vc_held X (m_vcache m)"
    using mv w(6) by (simp add: moved_def f0)
  obtain vc2 where u: "unmap_many X [t0, t1] (m_vcache m1) = Some vc2" "vc_inv X vc2"
    "vc_held X vc2 = vc_held X (m_vcache m1) - {t0, t1}"
    "\<forall>r \<in> vc_held X (m_vcache m1) - {t0, t1}. vc_win X vc2 r = vc_win X (m_vcache m1) r"
    "vc_room vc2 = vc_room (m_vcache m1) + vc_cost t0 + vc_cost t1"
    using unmap_many_two [OF vinv1 _ _ w(5)] held1 by blast
  have held2: "vc_held X vc2 = vc_held X (m_vcache m)" using u(3) held1 w(3,4) by auto
  have win2: "vc_win X vc2 r = vc_win X (m_vcache m) r" if "r \<in> vc_held X (m_vcache m)" for r
  proof -
    have "r \<in> vc_held X (m_vcache m1) - {t0, t1}" using that held1 w(3,4) by auto
    moreover have "r \<in> vc_held X (m_vcache m0) - {t0, t1}" using that w(3,4,6) by (auto simp: f0)
    ultimately show ?thesis using u(4) mv w(7) that by (simp add: moved_def f0)
  qed
  define m2 where "m2 = (if d then m1\<lparr>m_vcache := vc2\<rparr> else flush_all (m1\<lparr>m_vcache := vc2\<rparr>))"
  have f2: "m_tables m2 = m_tables m1" "m_cr3 m2 = m_cr3 m1" "m_phys m2 = m_phys m1" "m_vcache m2 = vc2"
    "m_p4page m2 = m_p4page m1" "m_gstale m2 = m_gstale m1" "m_stale m2 = (if d then m_stale m1 else {})"
    by (simp_all add: m2_def flush_all_def)
  note st2 = same_tables [OF f2(1,2), of X]
  have "n * 4096 < 2 ^ 64" using P by (auto simp: range_ok_def KVMSPACE_def)
  moreover have ru: "round_up nbytes 4096 = n * 4096"
    using round_up_dvd [of 4096 nbytes] by (simp add: n(1) page_count_def)
  ultimately have "align_up X nbytes 4096 = Some (n * 4096)" by (simp add: align_up_4096)
  moreover have "virt_add X START_ADDR VCACHE_SIZE = Some (KVMSPACE + VCACHE_SIZE)"
    by (simp add: crate_eqs START_ADDR_def KVMSPACE_def canonical_def)
  moreover have "\<not> (START_ADDR \<le> page \<and> page < KVMSPACE + VCACHE_SIZE)"
    using P by (auto simp: START_ADDR_def)
  ultimately have run: "kernel_map X page phys nbytes flags m = Some (Inr (), m2)"
    using w(1) loop(1) u(1) n(2) unfolding d_def m0_def m2_def
    by (simp add: kernel_map_def detailed_def frame_containing_eq round_down_def del: START_ADDR_def)
  have mv2: "moved X {} (slots X (pages page n)) (3 * n) m m2"
    using mv held2 win2 u(5) w(8) unfolding moved_def f2 st2 f0 st0 by simp
  have inv2: "mp_inv X m2"
    using inv1 u(2) held2 win2 p4 P mv unfolding mp_inv_def tree_ok_def f2 st2 moved_def f0 by simp
  have "map_post X page phys n flags m m2"
    unfolding map_post_def
  proof (intro conjI impI)
    show "\<forall>i<n. pte_frame X (pagemap X m2 (page + i * 4096)) = Some (phys + i * 4096) \<and>
        pte_flags X (pagemap X m2 (page + i * 4096)) = page_flags page flags"
      using M by (simp add: st2)
    show "m_stale m2 \<subseteq> m_stale m \<union> pages page n" "m_gstale m2 \<subseteq> m_gstale m \<union> pages page n"
      using M by (simp_all add: f2 f0)
    assume "detailed page n flags \<or>
      (\<forall>a \<in> pages page n. a \<notin> m_gstale m \<and> GLOBAL \<notin> pte_flags X (pagemap X m a))"
    then show "pages page n \<inter> (m_stale m2 \<union> m_gstale m2) = {}"
      using M unfolding f2 f0 st0 d_def [symmetric] by (cases d) auto
  qed (fact inv2, fact mv2)
  with run show ?thesis by blast
qed

end

section \<open>Properties\<close>

text \<open>A small machine for the witnesses: three free frames, an empty address space at frame 5.\<close>

definition demo_vc :: VCache where
  "demo_vc = snd (the (vc_map x86_ref 0x5000 empty_vc))"

definition demo_machine :: machine where
  "demo_machine = \<lparr>m_phys = demo_pfa, m_vcache = demo_vc, m_tables = (\<lambda>_ _. 0), m_cr3 = 0x5000,
     m_p4page = the (fst (the (vc_map x86_ref 0x5000 empty_vc))), m_stale = {}, m_gstale = {}\<rparr>"

lemma demo_vc_map:
  "vc_map x86_ref 0x5000 empty_vc = Some (Some (m_p4page demo_machine), demo_vc)"
  "vc_inv x86_ref demo_vc" "vc_held x86_ref demo_vc = {m_p4page demo_machine}"
  "vc_win x86_ref demo_vc (m_p4page demo_machine) = Some 0x5000" "2 \<le> vc_room demo_vc"
proof -
  have "\<exists>i<4. p2_freecount empty_vc ! i \<noteq> 0" by (intro exI [of _ 0]) (simp add: empty_vc_free)
  then obtain p vc where r: "vc_map x86_ref 0x5000 empty_vc = Some (Some p, vc)" "vc_inv x86_ref vc"
    "vc_held x86_ref vc = {p}" "vc_win x86_ref vc p = Some 0x5000" "512 = vc_room vc + vc_cost p"
    using ref.vc_map_ok [OF ref.empty_vc_inv, of "0x5000"]
    by (auto simp: ref.empty_vc_held empty_vc_room)
  moreover have "2 \<le> vc_room vc" using r(5) by (auto simp: vc_cost_def split: if_splits)
  ultimately show "vc_map x86_ref 0x5000 empty_vc = Some (Some (m_p4page demo_machine), demo_vc)"
    "vc_inv x86_ref demo_vc" "vc_held x86_ref demo_vc = {m_p4page demo_machine}"
    "vc_win x86_ref demo_vc (m_p4page demo_machine) = Some 0x5000" "2 \<le> vc_room demo_vc"
    by (simp_all add: demo_machine_def demo_vc_def)
qed

lemma demo_node: "node x86_ref demo_machine p = (if p = [] then Some 0x5000 else None)"
  by (induction p) (auto simp: demo_machine_def ref.pte_frame_unused)

lemma demo_fields [simp]: "m_phys demo_machine = demo_pfa" "m_vcache demo_machine = demo_vc" "m_cr3 demo_machine = 0x5000"
  by (simp_all add: demo_machine_def)

lemma demo_free_frames: "free_frames demo_pfa = {0x100000, 0x101000, 0x102000}"
  using demo_pfa_free by (simp add: free_frames_def)

lemma demo_machine_inv: "mp_inv x86_ref demo_machine"
proof -
  have "tree_ok x86_ref demo_machine"
    by (simp add: tree_ok_def demo_node demo_free_frames)
  then show ?thesis using demo_vc_map demo_pfa_inv by (simp add: mp_inv_def)
qed

lemma demo_ent: "ent x86_ref demo_machine i p = 0"
  by (simp add: ent_def demo_node) (simp add: demo_machine_def)

lemma demo_map_pre:
  "map_pre x86_ref 0x400000 0x101000 (page_count 1) {USER_ACCESSIBLE} demo_machine"
  using demo_machine_inv demo_vc_map(5)
  by (simp add: map_pre_def path_ok_def demo_ent page_count_def round_up_def range_ok_def KVMSPACE_def
      demo_free_frames)

text \<open>
  C3. \<open>KernelMapper::map\<close>. Given memory for the tables, a range in one half of the address
  space and outside the windows, the call returns \<open>Ok\<close>; afterwards every page of the range
  translates to its frame with the flags asked for, every other page translates as before,
  the mapper's invariant holds, the windows held are those held before with as much room, and
  the only frames used are at most three per page.
\<close>

theorem kernel_map_maps:
  assumes "x86_crate X" and "map_pre X page phys n flags m" and "n = page_count nbytes" and "0 < nbytes"
  shows "\<exists>m'. kernel_map X page phys nbytes flags m = Some (Inr (), m') \<and> mp_inv X m' \<and>
    (\<forall>i<n. pte_frame X (pagemap X m' (page + i * 4096)) = Some (phys + i * 4096) \<and>
       pte_flags X (pagemap X m' (page + i * 4096)) = page_flags page flags) \<and>
    (\<forall>b. canonical b \<and> page_aligned b \<and> b \<notin> pages page n \<longrightarrow> pagemap X m' b = pagemap X m b) \<and>
    vc_held X (m_vcache m') = vc_held X (m_vcache m) \<and> vc_room (m_vcache m') = vc_room (m_vcache m) \<and>
    free_frames (m_phys m') \<subseteq> free_frames (m_phys m) \<and>
    card (free_frames (m_phys m)) \<le> card (free_frames (m_phys m')) + 3 * n"
proof -
  obtain m' where m': "kernel_map X page phys nbytes flags m = Some (Inr (), m')" "map_post X page phys n flags m m'"
    using x86_crate.kernel_map_ok [OF assms] by blast
  note P = m'(2) [unfolded map_post_def]
  then have mv: "moved X {} (slots X (pages page n)) (3 * n) m m'" by simp
  have r: "range_ok page n" using assms(2) by (simp add: map_pre_def)
  have "pagemap X m' b = pagemap X m b" if "canonical b \<and> page_aligned b \<and> b \<notin> pages page n" for b
    using x86_crate.pagemap_moved [OF assms(1) mv x86_crate.slot_pages [OF assms(1) r]] that by simp
  with m'(1) P mv show ?thesis unfolding moved_def by (intro exI [of _ m']) simp
qed

theorem kernel_map_maps_witness:
  "\<exists>m'. kernel_map x86_ref 0x400000 0x101000 1 {USER_ACCESSIBLE} demo_machine = Some (Inr (), m') \<and>
     pte_frame x86_ref (pagemap x86_ref m' 0x400000) = Some 0x101000 \<and>
     pte_flags x86_ref (pagemap x86_ref m' 0x400000) = {USER_ACCESSIBLE, PRESENT}"
proof -
  have "0 < page_count 1" by (simp add: page_count_def round_up_def)
  moreover have "page_flags 0x400000 {USER_ACCESSIBLE} = {USER_ACCESSIBLE, PRESENT}"
    by (auto simp: page_flags_def KVMSPACE_def)
  ultimately show ?thesis
    using kernel_map_maps [OF ref.x86_crate_axioms demo_map_pre refl] by fastforce
qed

text \<open>
  C21. No stale translation. After \<open>KernelMapper::map\<close> the processor holds no old translation
  of a page of the range: it flushes page by page when the mapping is global, in the kernel
  half or short, and reloads \<open>CR3\<close> otherwise, which is enough when none of the entries it
  replaced was global.
\<close>

theorem kernel_map_flushes:
  assumes "x86_crate X" and "map_pre X page phys n flags m" and "n = page_count nbytes" and "0 < nbytes"
    and "GLOBAL \<in> flags \<or> KVMSPACE \<le> page \<or> n < RLCR3_THRESHOLD \<or>
      (\<forall>a \<in> pages page n. a \<notin> m_gstale m \<and> GLOBAL \<notin> pte_flags X (pagemap X m a))"
    and "kernel_map X page phys nbytes flags m = Some (r, m')"
  shows "pages page n \<inter> (m_stale m' \<union> m_gstale m') = {}"
proof -
  have "map_post X page phys n flags m m'"
    using x86_crate.kernel_map_ok [OF assms(1-4)] assms(6) by auto
  with assms(5) show ?thesis by (auto simp: map_post_def detailed_def)
qed

theorem kernel_map_flushes_witness:
  "\<exists>m'. kernel_map x86_ref 0x400000 0x101000 1 {USER_ACCESSIBLE} demo_machine = Some (Inr (), m') \<and>
     0x400000 \<notin> m_stale m'"
proof -
  obtain m' where m': "kernel_map x86_ref 0x400000 0x101000 1 {USER_ACCESSIBLE} demo_machine = Some (Inr (), m')"
    using ref.kernel_map_ok [OF demo_map_pre refl] by auto
  have "pages 0x400000 (page_count 1) \<inter> (m_stale m' \<union> m_gstale m') = {}"
    by (rule kernel_map_flushes [OF ref.x86_crate_axioms demo_map_pre refl _ _ m'])
      (simp_all add: page_count_def round_up_def)
  moreover have "0x400000 \<in> pages 0x400000 (page_count 1)" by (simp add: pages_def page_count_def round_up_def)
  ultimately have "0x400000 \<notin> m_stale m'" by blast
  with m' show ?thesis by blast
qed

text \<open>
  C9. Kernel space stays the kernel's. Whatever flags the caller of \<open>KernelMapper::map\<close>
  passes, a page it maps above \<open>KVMSPACE\<close> is present, global and not accessible from user
  mode, and a page below it is accessible from user mode only if the caller asked for it.
\<close>

theorem kernel_map_protects:
  assumes "x86_crate X" and "map_pre X page phys n flags m" and "n = page_count nbytes" and "0 < nbytes"
    and "kernel_map X page phys nbytes flags m = Some (r, m')" and "a \<in> pages page n"
  shows "PRESENT \<in> pte_flags X (pagemap X m' a) \<and>
    (KVMSPACE < page \<longrightarrow> GLOBAL \<in> pte_flags X (pagemap X m' a) \<and> USER_ACCESSIBLE \<notin> pte_flags X (pagemap X m' a)) \<and>
    (USER_ACCESSIBLE \<in> pte_flags X (pagemap X m' a) \<longrightarrow> USER_ACCESSIBLE \<in> flags)"
proof -
  have "map_post X page phys n flags m m'"
    using x86_crate.kernel_map_ok [OF assms(1-4)] assms(5) by auto
  with assms(6) have "pte_flags X (pagemap X m' a) = page_flags page flags"
    by (auto simp: map_post_def pages_def)
  then show ?thesis by (auto simp: page_flags_def)
qed

lemma demo_map_pre_kernel:
  "map_pre x86_ref 0xFFFF800040000000 0x101000 (page_count 1) {USER_ACCESSIBLE} demo_machine"
  using demo_machine_inv demo_vc_map(5)
  by (simp add: map_pre_def path_ok_def demo_ent page_count_def round_up_def range_ok_def KVMSPACE_def
      demo_free_frames)

theorem kernel_map_protects_witness:
  "\<exists>m'. kernel_map x86_ref 0xFFFF800040000000 0x101000 1 {USER_ACCESSIBLE} demo_machine = Some (Inr (), m') \<and>
     USER_ACCESSIBLE \<notin> pte_flags x86_ref (pagemap x86_ref m' 0xFFFF800040000000)"
proof -
  obtain m' where m': "kernel_map x86_ref 0xFFFF800040000000 0x101000 1 {USER_ACCESSIBLE} demo_machine = Some (Inr (), m')"
    using ref.kernel_map_ok [OF demo_map_pre_kernel refl] by auto
  have "0xFFFF800040000000 \<in> pages 0xFFFF800040000000 (page_count 1)"
    by (simp add: pages_def page_count_def round_up_def)
  from kernel_map_protects [OF ref.x86_crate_axioms demo_map_pre_kernel refl _ m' this] m'
  show ?thesis by (simp add: KVMSPACE_def)
qed

text \<open>
  The errors of \<open>KernelMapper::map\<close>. An empty request is \<open>NullSize\<close> and a request that
  starts in the window region is \<open>Managed\<close>; neither changes anything.
\<close>

theorem kernel_map_errors:
  assumes "x86_crate X"
  shows "kernel_map X page phys 0 flags m = Some (Inl NullSize, m) \<and>
    (0 < nbytes \<and> KVMSPACE \<le> page \<and> page < KVMSPACE + VCACHE_SIZE \<longrightarrow>
      kernel_map X page phys nbytes flags m = Some (Inl Managed, m))"
  using assms
  by (simp add: kernel_map_def x86_crate.virt_add_eq START_ADDR_def canonical_def KVMSPACE_def)

theorem kernel_map_errors_witness:
  "kernel_map x86_ref 0xFFFF800000001000 0 4096 {} demo_machine = Some (Inl Managed, demo_machine)"
  using kernel_map_errors [OF ref.x86_crate_axioms, of "0xFFFF800000001000" 0 "{}" demo_machine 4096]
  by (simp add: KVMSPACE_def)

end
