(* ===== verification/Mem.thy ===== *)
theory Mem
  imports Phys_Init Mapper
begin

text \<open>
  The memory interface of the rest of the kernel, \<open>kernel/src/mem/mod.rs\<close> (\<open>vmap\<close>,
  \<open>vmap_many\<close>, \<open>valloc\<close> and its variants), and the kernel heap that grows on page faults,
  \<open>kernel/src/mem/heap.rs\<close>. The allocator behind the heap is the crate
  \<open>linked_list_allocator\<close>; only the memory it is given is modelled.
\<close>

section \<open>Mapping and allocating virtual memory\<close>

definition vmap :: "x86 \<Rightarrow> nat \<Rightarrow> nat \<Rightarrow> nat \<Rightarrow> pflags \<Rightarrow> machine \<Rightarrow>
    ((KernelMapError + unit) \<times> machine) option" where
  "vmap X page frame nbytes flags m = kernel_map X page frame nbytes flags m"

text \<open>\<open>Result::unwrap\<close> and \<open>Result::expect\<close> on the result of a mapping.\<close>

definition unwrap_ok :: "(KernelMapError + unit) \<times> machine \<Rightarrow> machine option" where
  "unwrap_ok r = (case r of (Inl _, m) \<Rightarrow> None | (Inr _, m) \<Rightarrow> Some m)"

definition vmap_many :: "x86 \<Rightarrow> nat \<Rightarrow> nat list \<Rightarrow> pflags \<Rightarrow> machine \<Rightarrow> machine option" where
  "vmap_many X page frames flags m =
     fold_opt (\<lambda>(i, frame) m. do {
       pg \<leftarrow> page_add X page i;
       r \<leftarrow> vmap X pg frame PAGE_SIZE flags m;
       unwrap_ok r }) (List.enumerate 0 frames) m"

definition valloc :: "x86 \<Rightarrow> nat \<Rightarrow> nat \<Rightarrow> pflags \<Rightarrow> machine \<Rightarrow> machine option" where
  "valloc X page n flags m =
     fold_opt (\<lambda>off m. do {
       (r, m) \<leftarrow> palloc X m;
       frame \<leftarrow> r;
       bytes \<leftarrow> mul64 off PAGE_SIZE;
       a \<leftarrow> virt_add X page bytes;
       pg \<leftarrow> page_from_start X a;
       r \<leftarrow> vmap X pg frame PAGE_SIZE flags m;
       unwrap_ok r }) [0..<n] m"

definition valloc_size :: "x86 \<Rightarrow> nat \<Rightarrow> nat \<Rightarrow> pflags \<Rightarrow> machine \<Rightarrow> machine option" where
  "valloc_size X page nbytes flags m = do {
     nbytes \<leftarrow> align_up X nbytes PAGE_SIZE;
     valloc X page (nbytes div PAGE_SIZE) flags m }"

text \<open>The size of the element type is an argument, as it is for the monomorphic instances.\<close>

definition valloc_ktable :: "x86 \<Rightarrow> nat \<Rightarrow> nat \<Rightarrow> nat \<Rightarrow> machine \<Rightarrow> machine option" where
  "valloc_ktable X size_of vadr n m = do {
     page \<leftarrow> page_from_start X vadr;
     nbytes \<leftarrow> mul64 n size_of;
     valloc_size X page nbytes {WRITABLE} m }"

section \<open>The kernel heap\<close>

definition HEAP_START :: nat where
  "HEAP_START = 0xFFFF808000000000"

definition HEAP_SIZE :: nat where
  [simp]: "HEAP_SIZE = 2 * 1024 * 1024 * 1024"

definition FRAG_SIZE :: nat where
  [simp]: "FRAG_SIZE = 32 * 1024"

record heap =
  expand_count :: nat
  heap_head :: nat

definition heap_new :: heap where
  "heap_new = \<lparr>expand_count = 0, heap_head = HEAP_START\<rparr>"

definition heap_init :: "x86 \<Rightarrow> machine \<Rightarrow> machine option" where
  "heap_init X m = valloc X HEAP_START (FRAG_SIZE div PAGE_SIZE) {WRITABLE} m"

definition expand :: "x86 \<Rightarrow> nat \<Rightarrow> heap \<times> machine \<Rightarrow> (heap \<times> machine) option" where
  "expand X adr s = do {
     let (h, m) = s;
     if adr < heap_head h then Some (h, m)
     else do {
       heap_end \<leftarrow> virt_add X HEAP_START HEAP_SIZE;
       let adr = page_containing X adr;
       left \<leftarrow> sub64 heap_end HEAP_START;
       count \<leftarrow> add64 (expand_count h) 1;
       max_expand_amount \<leftarrow> mul64 count FRAG_SIZE;
       let amount = (if max_expand_amount < left then max_expand_amount else left);
       page \<leftarrow> page_from_start X adr;
       m \<leftarrow> valloc X page (amount div PAGE_SIZE) {WRITABLE} m;
       head \<leftarrow> add64 (heap_head h) amount;
       Some (\<lparr>expand_count = count, heap_head = head\<rparr>, m) } }"

definition is_heap :: "x86 \<Rightarrow> nat \<Rightarrow> bool option" where
  "is_heap X adr = do {
     heap_end \<leftarrow> virt_add X HEAP_START HEAP_SIZE;
     Some (HEAP_START \<le> adr \<and> adr < heap_end) }"

section \<open>Allocating pages\<close>

definition alloc_pre :: "x86 \<Rightarrow> nat \<Rightarrow> nat \<Rightarrow> pflags \<Rightarrow> machine \<Rightarrow> bool" where
  "alloc_pre X page n flags m \<longleftrightarrow>
     mp_inv X m \<and> 2 \<le> vc_room (m_vcache m) \<and> range_ok page n \<and>
     (KVMSPACE \<le> page \<longrightarrow> KVMSPACE + VCACHE_SIZE \<le> page) \<and> HUGE_PAGE \<notin> flags \<and>
     (\<forall>a \<in> pages page n. path_ok X m a) \<and> 4 * n \<le> card (free_frames (m_phys m))"

text \<open>
  The pages translate to the frames \<open>fs\<close>, which are distinct, were free before, are not free
  now and hold no page table.
\<close>

definition alloc_post :: "x86 \<Rightarrow> nat \<Rightarrow> nat list \<Rightarrow> pflags \<Rightarrow> machine \<Rightarrow> machine \<Rightarrow> bool" where
  "alloc_post X page fs flags m m' \<longleftrightarrow>
     mp_inv X m' \<and> moved X {} (slots X (pages page (length fs))) (4 * length fs) m m' \<and>
     distinct fs \<and> set fs \<subseteq> free_frames (m_phys m) - free_frames (m_phys m') \<and>
     (\<forall>f q. f \<in> set fs \<and> tpath q \<longrightarrow> node X m' q \<noteq> Some f) \<and>
     (\<forall>i<length fs. pte_frame X (pagemap X m' (page + i * 4096)) = Some (fs ! i) \<and>
        pte_flags X (pagemap X m' (page + i * 4096)) = page_flags page flags) \<and>
     m_stale m' \<subseteq> m_stale m \<and> m_gstale m' \<subseteq> m_gstale m \<and>
     pages page (length fs) \<inter> (m_stale m' \<union> m_gstale m') = {}"

lemma page_count_PAGE_SIZE: "page_count 4096 = 1"
  by (simp add: page_count_def round_up_def)

lemma pages_1 [simp]: "pages page 1 = {page}" "pages page (Suc 0) = {page}"
  by (auto simp: pages_def)

context x86_crate
begin

lemma palloc_ok:
  assumes inv: "mp_inv X m" and free: "free_frames (m_phys m) \<noteq> {}"
  obtains f m' where "palloc X m = Some (Some f, m')" "mp_inv X m'" "moved X {} {} 1 m m'"
    "f \<in> free_frames (m_phys m)" "free_frames (m_phys m') = free_frames (m_phys m) - {f}"
    "page_aligned f" "f + 4096 \<le> 2 ^ 52" "m_stale m' = m_stale m" "m_gstale m' = m_gstale m"
    "node X m' = node X m"
proof -
  have pinv: "phys_inv (m_phys m)" using inv by (simp add: mp_inv_def)
  obtain f ph where f: "allocate_frame X (m_phys m) = Some (Some f, ph)" "f \<in> free_frames (m_phys m)"
    "free_frames ph = free_frames (m_phys m) - {f}" "managed ph = managed (m_phys m)" "phys_inv ph"
    using phys.alloc_frame [OF pinv free] by blast
  define m' where "m' = m\<lparr>m_phys := ph\<rparr>"
  have fields: "m_tables m' = m_tables m" "m_cr3 m' = m_cr3 m" "m_phys m' = ph" "m_vcache m' = m_vcache m"
    "m_p4page m' = m_p4page m" "m_stale m' = m_stale m" "m_gstale m' = m_gstale m"
    by (simp_all add: m'_def)
  note st = same_tables [OF fields(1,2), of X]
  have fok: "page_aligned f" "f < 2 ^ 52"
    using f managed_frame [OF pinv] phys.avail_owned [OF pinv] by auto
  have "f + 4096 \<le> 2 ^ 52"
  proof -
    have "f div 4096 < 2 ^ 40" using fok(2) by (simp add: div_less_iff_less_mult)
    then have "(f div 4096 + 1) * 4096 \<le> 2 ^ 40 * 4096" by (intro mult_right_mono) auto
    with fok(1) show ?thesis by (simp add: mod_eq_0_iff_dvd)
  qed
  moreover have "mp_inv X m'" using inv f unfolding mp_inv_def tree_ok_def fields st by blast
  moreover have "moved X {} {} 1 m m'"
    using f card_Suc_Diff1 [OF finite_free_frames f(2)] unfolding moved_def fields st by auto
  moreover have "palloc X m = Some (Some f, m')" using f(1) by (simp add: palloc_def m'_def)
  ultimately show ?thesis using f(2,3) fok(1) fields(3,6,7) st(1) by (intro that [of f m']) simp_all
qed

lemma vmap_page_ok:
  assumes "map_pre X page phys 1 flags m"
  shows "\<exists>m'. vmap X page phys 4096 flags m = Some (Inr (), m') \<and> map_post X page phys 1 flags m m'"
  using kernel_map_ok [OF assms page_count_PAGE_SIZE [symmetric]] by (simp add: vmap_def)

text \<open>Mapping the page after a range that has been mapped.\<close>

lemma extend_pre:
  assumes r: "range_ok page (Suc n)" and k: "KVMSPACE \<le> page \<longrightarrow> KVMSPACE + VCACHE_SIZE \<le> page"
    and m: "2 \<le> vc_room (m_vcache m)" "\<forall>a \<in> pages page (Suc n). path_ok X m a" "moved X {} E k' m m2"
    and m2: "mp_inv X m2" "3 \<le> card (free_frames (m_phys m2))"
    and f: "page_aligned f" "f + 4096 \<le> 2 ^ 52" "HUGE_PAGE \<notin> flags"
  shows "map_pre X (page + n * 4096) f 1 flags m2"
  unfolding map_pre_def
proof (intro conjI impI)
  note a = range_ok_page [OF r, of n, simplified]
  show "range_ok (page + n * 4096) 1" using r a(3) by (auto simp: range_ok_def)
  show "KVMSPACE + VCACHE_SIZE \<le> page + n * 4096" if "KVMSPACE \<le> page + n * 4096"
    using k r that by (auto simp: range_ok_def KVMSPACE_def)
  have "path_ok X m (page + n * 4096)" using m(2) by (simp add: pages_Suc)
  then show "\<forall>b \<in> pages (page + n * 4096) 1. path_ok X m2 b" using m(3) unfolding pages_1 moved_def by simp
  show "2 \<le> vc_room (m_vcache m2)" using m(1,3) by (simp add: moved_def)
qed (use m2 f in simp_all)

lemma extend_post:
  assumes r: "range_ok page (Suc n)" and mv: "moved X {} (slots X (pages page n)) k m m2"
    and post: "map_post X (page + n * 4096) f 1 flags m2 m3"
  shows "moved X {} (slots X (pages page (Suc n))) (k + 3) m m3"
    and "i < n \<Longrightarrow> pagemap X m3 (page + i * 4096) = pagemap X m2 (page + i * 4096)"
    and "pte_frame X (pagemap X m3 (page + n * 4096)) = Some f"
    and "pte_flags X (pagemap X m3 (page + n * 4096)) = page_flags page flags"
    and "m_stale m3 \<subseteq> m_stale m2" "m_gstale m3 \<subseteq> m_gstale m2"
    and "page + n * 4096 \<notin> m_stale m3" "page + n * 4096 \<notin> m_gstale m3"
proof -
  let ?a = "page + n * 4096"
  note B = post [unfolded map_post_def]
  then have mv3: "moved X {} (slots X {?a}) 3 m2 m3" by simp
  have sl: "slots X (pages page (Suc n)) = slots X (pages page n) \<union> slots X {?a}"
    by (auto simp: slots_def pages_Suc)
  show "moved X {} (slots X (pages page (Suc n))) (k + 3) m m3"
    using moved_trans [OF mv mv3] by (simp add: sl)
  show "pagemap X m3 (page + i * 4096) = pagemap X m2 (page + i * 4096)" if "i < n"
  proof (rule pagemap_moved [OF mv3])
    have "page + i * 4096 \<in> pages page n" using that by (auto simp: pages_def)
    then have "(path X (page + i * 4096), p1_index X (page + i * 4096)) \<in> slots X (pages page n)"
      by (auto simp: slots_def)
    then show "(path X (page + i * 4096), p1_index X (page + i * 4096)) \<notin> slots X {?a}"
      using next_page_new [OF r] by (auto simp: slots_def)
  qed
  have "page_flags ?a flags = page_flags page flags"
    by (rule page_flags_idem(2)) (use range_ok_page(3) [OF r, of n] in simp)
  then show "pte_frame X (pagemap X m3 ?a) = Some f" "pte_flags X (pagemap X m3 ?a) = page_flags page flags"
    using B by simp_all
  show "m_stale m3 \<subseteq> m_stale m2" "m_gstale m3 \<subseteq> m_gstale m2" "?a \<notin> m_stale m3" "?a \<notin> m_gstale m3"
    using B by (auto simp: detailed_def)
qed

lemma valloc_ok:
  assumes "alloc_pre X page n flags m"
  shows "\<exists>fs m'. valloc X page n flags m = Some m' \<and> length fs = n \<and> alloc_post X page fs flags m m'"
  using assms
proof (induction n)
  case 0
  then show ?case
    by (intro exI [of _ "[]"] exI [of _ m]) (simp add: valloc_def alloc_pre_def alloc_post_def moved_refl pages_def)
next
  case (Suc n)
  have r: "range_ok page (Suc n)" and r': "range_ok page n"
    using Suc.prems by (auto simp: alloc_pre_def range_ok_def)
  have "alloc_pre X page n flags m" using Suc.prems r' by (simp add: alloc_pre_def pages_Suc)
  then obtain fs m1 where run: "valloc X page n flags m = Some m1" "length fs = n" "alloc_post X page fs flags m m1"
    using Suc.IH by blast
  note A = run(3) [unfolded alloc_post_def run(2)]
  then have mv1: "moved X {} (slots X (pages page n)) (4 * n) m m1" and inv1: "mp_inv X m1" by simp_all
  let ?a = "page + n * 4096"
  note a = range_ok_page [OF r, of n, simplified]
  have c4: "4 \<le> card (free_frames (m_phys m1))"
    using mv1 Suc.prems by (simp add: moved_def alloc_pre_def)
  then have "free_frames (m_phys m1) \<noteq> {}" by auto
  then obtain f m2 where p: "palloc X m1 = Some (Some f, m2)" "mp_inv X m2"
    "moved X {} {} 1 m1 m2" "f \<in> free_frames (m_phys m1)" "free_frames (m_phys m2) = free_frames (m_phys m1) - {f}"
    "page_aligned f" "f + 4096 \<le> 2 ^ 52" "m_stale m2 = m_stale m1" "m_gstale m2 = m_gstale m1"
    "node X m2 = node X m1"
    by (rule palloc_ok [OF inv1])
  have mv2: "moved X {} (slots X (pages page n)) (4 * n + 1) m m2" using moved_trans [OF mv1 p(3)] by simp
  have "map_pre X ?a f 1 flags m2"
    by (rule extend_pre [OF r _ _ _ mv2 p(2) _ p(6,7)])
      (use Suc.prems c4 card_Suc_Diff1 [OF finite_free_frames p(4)] p(5) in \<open>simp_all add: alloc_pre_def\<close>)
  from vmap_page_ok [OF this] obtain m3 where v: "vmap X ?a f 4096 flags m2 = Some (Inr (), m3)"
    "map_post X ?a f 1 flags m2 m3" by blast
  note e = extend_post [OF r mv2 v(2)]
  have mv3: "moved X {} (slots X {?a}) 3 m2 m3" and inv3: "mp_inv X m3" using v(2) by (simp_all add: map_post_def)
  have mv: "moved X {} (slots X (pages page (Suc n))) (4 * Suc n) m m3" using e(1) by (simp add: add.commute)
  have old: "pagemap X m3 (page + i * 4096) = pagemap X m1 (page + i * 4096)" if "i < n" for i
    using e(2) [OF that] pagemap_moved [of "{}" "{}" 1 m1 m2] p(3) by (simp add: slots_def)
  have free3: "free_frames (m_phys m3) \<subseteq> free_frames (m_phys m1) - {f}"
    using mv3 p(5) by (auto simp: moved_def)
  have free1: "free_frames (m_phys m1) \<subseteq> free_frames (m_phys m)" using mv1 by (simp add: moved_def)
  have tab: "node X m3 q \<noteq> Some g" if "g \<in> set (fs @ [f])" "tpath q" for g q
  proof
    assume "node X m3 q = Some g"
    then have "node X m1 q = Some g \<or> g \<in> free_frames (m_phys m1) - {f}"
      using mv3 that(2) unfolding moved_def p(5,10) by blast
    moreover have "node X m1 q \<noteq> Some f"
      using tree_okD(1) [OF mp_inv_tree [OF inv1] that(2)] p(4) by blast
    ultimately show False using A that by auto
  qed
  have "alloc_post X page (fs @ [f]) flags m m3"
    unfolding alloc_post_def
  proof (intro conjI)
    show "moved X {} (slots X (pages page (length (fs @ [f])))) (4 * length (fs @ [f])) m m3"
      using mv run(2) by simp
    show "distinct (fs @ [f])" using A p(4) by auto
    show "set (fs @ [f]) \<subseteq> free_frames (m_phys m) - free_frames (m_phys m3)"
      using A p(4) free1 free3 by auto
    show "\<forall>g q. g \<in> set (fs @ [f]) \<and> tpath q \<longrightarrow> node X m3 q \<noteq> Some g" using tab by blast
    show "\<forall>i<length (fs @ [f]). pte_frame X (pagemap X m3 (page + i * 4096)) = Some ((fs @ [f]) ! i) \<and>
        pte_flags X (pagemap X m3 (page + i * 4096)) = page_flags page flags"
      using A old e(3,4) run(2) by (auto simp: nth_append less_Suc_eq)
    show "m_stale m3 \<subseteq> m_stale m" "m_gstale m3 \<subseteq> m_gstale m" using A e(5,6) p(8,9) by auto
    show "pages page (length (fs @ [f])) \<inter> (m_stale m3 \<union> m_gstale m3) = {}"
      using A e(5-8) p(8,9) run(2) by (auto simp: pages_Suc)
  qed (fact inv3)
  moreover have "n * 4096 < 2 ^ 64" using a(1) by (auto simp: canonical_def)
  then have "valloc X page (Suc n) flags m = Some m3"
    using run(1) p(1) v(1) a(1,2) unfolding valloc_def
    by (simp add: fold_opt_append mul64_def crate_eqs unwrap_ok_def)
  ultimately show ?case using run(2) by (intro exI [of _ "fs @ [f]"] exI [of _ m3]) simp
qed

lemma vmap_many_ok:
  assumes "mp_inv X m" "2 \<le> vc_room (m_vcache m)" "range_ok page (length fs)"
    "KVMSPACE \<le> page \<longrightarrow> KVMSPACE + VCACHE_SIZE \<le> page" "HUGE_PAGE \<notin> flags"
    "\<forall>a \<in> pages page (length fs). path_ok X m a" "3 * length fs \<le> card (free_frames (m_phys m))"
    "\<forall>f \<in> set fs. page_aligned f \<and> f + 4096 \<le> 2 ^ 52"
  shows "\<exists>m'. vmap_many X page fs flags m = Some m' \<and> mp_inv X m' \<and>
    moved X {} (slots X (pages page (length fs))) (3 * length fs) m m' \<and>
    (\<forall>i<length fs. pte_frame X (pagemap X m' (page + i * 4096)) = Some (fs ! i) \<and>
       pte_flags X (pagemap X m' (page + i * 4096)) = page_flags page flags) \<and>
    pages page (length fs) \<inter> (m_stale m' \<union> m_gstale m') = {}"
  using assms
proof (induction fs rule: rev_induct)
  case Nil
  then show ?case by (simp add: vmap_many_def moved_refl pages_def)
next
  case (snoc f fs)
  let ?n = "length fs"
  have r: "range_ok page (Suc ?n)" and r': "range_ok page ?n" using snoc.prems(3) by (auto simp: range_ok_def)
  obtain m1 where run: "vmap_many X page fs flags m = Some m1" "mp_inv X m1"
    "moved X {} (slots X (pages page ?n)) (3 * ?n) m m1"
    "\<forall>i<?n. pte_frame X (pagemap X m1 (page + i * 4096)) = Some (fs ! i) \<and>
       pte_flags X (pagemap X m1 (page + i * 4096)) = page_flags page flags"
    "pages page ?n \<inter> (m_stale m1 \<union> m_gstale m1) = {}"
    using snoc.IH [OF snoc.prems(1,2) r' snoc.prems(4,5)] snoc.prems(6-8) by (auto simp: pages_Suc)
  have "map_pre X (page + ?n * 4096) f 1 flags m1"
    by (rule extend_pre [OF r _ _ _ run(3,2)]) (use snoc.prems run(3) in \<open>simp_all add: moved_def\<close>)
  from vmap_page_ok [OF this] obtain m2 where v: "vmap X (page + ?n * 4096) f 4096 flags m1 = Some (Inr (), m2)"
    "map_post X (page + ?n * 4096) f 1 flags m1 m2" by blast
  note e = extend_post [OF r run(3) v(2)]
  have "canonical (page + ?n * 4096)" using range_ok_page(1) [OF r, of ?n] by simp
  then have "vmap_many X page (fs @ [f]) flags m = Some m2"
    using run(1) v(1) by (simp add: vmap_many_def enumerate_append_eq fold_opt_append page_add_eq unwrap_ok_def)
  moreover have "mp_inv X m2" using v(2) by (simp add: map_post_def)
  moreover have "\<forall>i<length (fs @ [f]). pte_frame X (pagemap X m2 (page + i * 4096)) = Some ((fs @ [f]) ! i) \<and>
      pte_flags X (pagemap X m2 (page + i * 4096)) = page_flags page flags"
    using run(4) e(2-4) by (auto simp: nth_append less_Suc_eq)
  moreover have "pages page (length (fs @ [f])) \<inter> (m_stale m2 \<union> m_gstale m2) = {}"
    using run(5) e(5-8) by (auto simp: pages_Suc)
  moreover have "moved X {} (slots X (pages page (length (fs @ [f])))) (3 * length (fs @ [f])) m m2"
    using e(1) by (simp add: add.commute)
  ultimately show ?case by (intro exI [of _ m2]) simp
qed

end

section \<open>The heap\<close>

definition writable_page :: "x86 \<Rightarrow> machine \<Rightarrow> nat \<Rightarrow> bool" where
  "writable_page X m a \<longleftrightarrow> pte_frame X (pagemap X m a) \<noteq> None \<and> WRITABLE \<in> pte_flags X (pagemap X m a)"

text \<open>
  As long as the heap is used from its start upwards, \<open>heap_head\<close> stays one fragment, the
  one \<open>init\<close> maps, behind the end of the mapped part.
\<close>

definition heap_ok :: "x86 \<Rightarrow> heap \<Rightarrow> machine \<Rightarrow> bool" where
  "heap_ok X h m \<longleftrightarrow>
     HEAP_START \<le> heap_head h \<and> page_aligned (heap_head h) \<and>
     (\<forall>a \<in> pages HEAP_START ((heap_head h - HEAP_START + FRAG_SIZE) div 4096). writable_page X m a)"

lemma pages_append:
  "pages page (a + b) = pages page a \<union> pages (page + a * 4096) b"
proof
  show "pages page (a + b) \<subseteq> pages page a \<union> pages (page + a * 4096) b"
  proof
    fix x assume "x \<in> pages page (a + b)"
    then obtain i where i: "i < a + b" "x = page + i * 4096" by (auto simp: pages_def)
    show "x \<in> pages page a \<union> pages (page + a * 4096) b"
    proof (cases "i < a")
      case True
      with i show ?thesis by (auto simp: pages_def)
    next
      case False
      with i have "i - a < b" "x = page + a * 4096 + (i - a) * 4096" by (auto simp: algebra_simps)
      then show ?thesis by (auto simp: pages_def)
    qed
  qed
  show "pages page a \<union> pages (page + a * 4096) b \<subseteq> pages page (a + b)"
  proof
    fix x assume "x \<in> pages page a \<union> pages (page + a * 4096) b"
    then consider i where "i < a" "x = page + i * 4096" | i where "i < b" "x = page + a * 4096 + i * 4096"
      by (auto simp: pages_def)
    then show "x \<in> pages page (a + b)"
    proof cases
      case 1
      then show ?thesis by (auto simp: pages_def)
    next
      case 2
      then have "a + i < a + b" "x = page + (a + i) * 4096" by (simp_all add: algebra_simps)
      then show ?thesis unfolding pages_def by blast
    qed
  qed
qed

lemma pages_below: "x \<in> pages page n \<Longrightarrow> page \<le> x \<and> x < page + n * 4096 \<and> (x - page) mod 4096 = 0"
  by (auto simp: pages_def)

context x86_crate
begin

lemma alloc_post_other:
  assumes "alloc_post X page fs flags m m'" "range_ok page (length fs)" "canonical b" "page_aligned b"
    "b \<notin> pages page (length fs)"
  shows "pagemap X m' b = pagemap X m b"
proof -
  have "moved X {} (slots X (pages page (length fs))) (4 * length fs) m m'"
    using assms(1) by (simp add: alloc_post_def)
  then show ?thesis by (rule pagemap_moved [OF _ slot_pages [OF assms(2-5)]])
qed

lemma alloc_post_writable:
  assumes "alloc_post X page fs {WRITABLE} m m'" "a \<in> pages page (length fs)"
  shows "writable_page X m' a"
  using assms by (auto simp: alloc_post_def writable_page_def pages_def page_flags_def)

lemma expand_run:
  assumes h: "heap_head h \<le> adr" "expand_count h < 65535" and page: "page = round_down adr 4096"
    and pre: "alloc_pre X page ((expand_count h + 1) * 8) {WRITABLE} m"
    and head: "heap_head h + (expand_count h + 1) * FRAG_SIZE < 2 ^ 64"
  shows "\<exists>fs m'. expand X adr (h, m) = Some (\<lparr>expand_count = expand_count h + 1,
      heap_head = heap_head h + (expand_count h + 1) * FRAG_SIZE\<rparr>, m') \<and>
    length fs = (expand_count h + 1) * 8 \<and> alloc_post X page fs {WRITABLE} m m'"
proof -
  obtain fs m' where v: "valloc X page ((expand_count h + 1) * 8) {WRITABLE} m = Some m'"
    "length fs = (expand_count h + 1) * 8" "alloc_post X page fs {WRITABLE} m m'"
    using valloc_ok [OF pre] by blast
  have amount: "(expand_count h + 1) * 32768 div 4096 = (expand_count h + 1) * 8" by simp
  have "expand X adr (h, m) = Some (\<lparr>expand_count = expand_count h + 1,
      heap_head = heap_head h + (expand_count h + 1) * FRAG_SIZE\<rparr>, m')"
    using h head v(1) page amount
    by (simp add: expand_def crate_eqs canonical_def HEAP_START_def sub64_def add64_def mul64_def
        page_containing_eq round_down_def mult.commute)
  with v(2,3) show ?thesis by blast
qed

end

section \<open>Properties\<close>

text \<open>A machine with a thousand free frames for the witnesses.\<close>

definition big_seg :: segment where
  "big_seg = \<lparr>seg_magic = MAGIC, seg_address = 0x1000000, seg_size = 1000 * 4096, seg_bitmap = []\<rparr>"

definition big_pfa :: PhysicalFrameAllocator where
  "big_pfa = \<lparr>segments = [(0x4000, big_seg\<lparr>seg_bitmap := fresh_bitmap big_seg\<rparr>)],
     pfa_size = 152, phyframe = 0x4000\<rparr>"

definition big_machine :: machine where
  "big_machine = demo_machine\<lparr>m_phys := big_pfa\<rparr>"

lemma big_pfa_inv: "phys_inv big_pfa"
  using fresh_segment_ok [of big_seg]
  by (simp add: phys_inv_def big_pfa_def big_seg_def bitmap_words_def seg_pages_def round_up_def)

lemma big_pfa_free: "free_list big_pfa = map (\<lambda>i. 0x1000000 + i * 4096) [0..<1000]"
proof -
  have w: "bitmap_words big_seg \<noteq> 0" by (simp add: bitmap_words_def seg_pages_def big_seg_def round_up_def)
  have n: "fresh_pages big_seg = 1000" by (simp add: fresh_pages_def seg_pages_def big_seg_def)
  have "free_list big_pfa = seg_free (big_seg\<lparr>seg_bitmap := fresh_bitmap big_seg\<rparr>)"
    by (simp only: free_list_def big_pfa_def PhysicalFrameAllocator.select_convs segs_free.simps append_Nil2)
  also have "\<dots> = map (seg_frame big_seg) [0..<1000]"
    by (simp only: fresh_segment_free [OF w] n)
  finally show ?thesis by (simp add: seg_frame_def big_seg_def del: upt_rec_numeral)
qed

lemma big_free_frames: "card (free_frames big_pfa) = 1000" "free_frames big_pfa \<subseteq> {0x1000000..}"
proof -
  have "inj_on (\<lambda>i. 0x1000000 + i * 4096 :: nat) A" for A by (auto simp: inj_on_def)
  then show "card (free_frames big_pfa) = 1000"
    by (simp add: free_frames_def big_pfa_free card_image del: upt_rec_numeral)
  show "free_frames big_pfa \<subseteq> {0x1000000..}"
    by (auto simp: free_frames_def big_pfa_free simp del: upt_rec_numeral)
qed

lemma big_same: "m_tables big_machine = m_tables demo_machine" "m_cr3 big_machine = m_cr3 demo_machine"
  by (simp_all add: big_machine_def)

lemma big_fields [simp]: "m_phys big_machine = big_pfa" "m_vcache big_machine = demo_vc"
    "m_p4page big_machine = m_p4page demo_machine" "m_cr3 big_machine = 0x5000"
    "m_stale big_machine = {}" "m_gstale big_machine = {}"
  by (simp_all add: big_machine_def) (simp_all add: demo_machine_def)

lemma big_path_ok: "path_ok x86_ref big_machine a"
  by (simp add: same_tables [OF big_same] path_ok_def demo_ent)

lemma big_machine_inv: "mp_inv x86_ref big_machine"
proof -
  have "tree_ok x86_ref big_machine"
    using big_free_frames(2) by (auto simp: tree_ok_def same_tables [OF big_same] demo_node)
  then show ?thesis using demo_vc_map big_pfa_inv by (simp add: mp_inv_def)
qed

lemma big_alloc_pre:
  "range_ok page n \<Longrightarrow> (KVMSPACE \<le> page \<longrightarrow> KVMSPACE + VCACHE_SIZE \<le> page) \<Longrightarrow> HUGE_PAGE \<notin> flags \<Longrightarrow>
   n \<le> 250 \<Longrightarrow> alloc_pre x86_ref page n flags big_machine"
  using big_machine_inv demo_vc_map(5) big_free_frames(1) by (simp add: alloc_pre_def big_path_ok)

text \<open>
  C27. \<open>valloc\<close>. Given four free frames per page, \<open>valloc\<close> does not panic, and afterwards
  every page asked for translates, with the flags asked for, to a frame of its own: the
  frames are distinct, were free, are free no longer and none of them holds a page table.
  Every other page translates as before and no translation of the range is stale.
\<close>

theorem valloc_fresh:
  assumes "x86_crate X" and "alloc_pre X page n flags m"
  shows "\<exists>fs m'. valloc X page n flags m = Some m' \<and> mp_inv X m' \<and> length fs = n \<and> distinct fs \<and>
    set fs \<subseteq> free_frames (m_phys m) - free_frames (m_phys m') \<and>
    (\<forall>f q. f \<in> set fs \<and> tpath q \<longrightarrow> node X m' q \<noteq> Some f) \<and>
    (\<forall>i<n. pte_frame X (pagemap X m' (page + i * 4096)) = Some (fs ! i) \<and>
       pte_flags X (pagemap X m' (page + i * 4096)) = page_flags page flags) \<and>
    (\<forall>b. canonical b \<and> page_aligned b \<and> b \<notin> pages page n \<longrightarrow> pagemap X m' b = pagemap X m b) \<and>
    pages page n \<inter> (m_stale m' \<union> m_gstale m') = {}"
proof -
  obtain fs m' where v: "valloc X page n flags m = Some m'" "length fs = n" "alloc_post X page fs flags m m'"
    using x86_crate.valloc_ok [OF assms] by blast
  have "pagemap X m' b = pagemap X m b" if "canonical b \<and> page_aligned b \<and> b \<notin> pages page n" for b
    using x86_crate.alloc_post_other [OF assms(1) v(3)] assms(2) that v(2) by (simp add: alloc_pre_def)
  with v show ?thesis unfolding alloc_post_def
    by (intro exI [of _ fs] exI [of _ m']) simp
qed

theorem valloc_fresh_witness:
  "\<exists>f m'. valloc x86_ref 0xFFFF808000000000 1 {WRITABLE} big_machine = Some m' \<and>
     pte_frame x86_ref (pagemap x86_ref m' 0xFFFF808000000000) = Some f \<and>
     f \<in> free_frames big_pfa \<and> f \<notin> free_frames (m_phys m')"
proof -
  have "alloc_pre x86_ref 0xFFFF808000000000 1 {WRITABLE} big_machine"
    by (rule big_alloc_pre) (simp_all add: range_ok_def KVMSPACE_def)
  from valloc_fresh [OF ref.x86_crate_axioms this] obtain fs m' where
    *: "valloc x86_ref 0xFFFF808000000000 1 {WRITABLE} big_machine = Some m'" "length fs = 1"
      "set fs \<subseteq> free_frames big_pfa - free_frames (m_phys m')"
      "\<forall>i<1. pte_frame x86_ref (pagemap x86_ref m' (0xFFFF808000000000 + i * 4096)) = Some (fs ! i)"
    by auto
  then have "fs ! 0 \<in> free_frames big_pfa - free_frames (m_phys m')"
    using nth_mem [of 0 fs] by (metis less_one subsetD)
  with * show ?thesis by (intro exI [of _ "fs ! 0"] exI [of _ m']) auto
qed


text \<open>Allocating one range leaves what allocating another one needs.\<close>

lemma alloc_pre_after:
  assumes "alloc_post X p fs fl m m'" and "2 \<le> vc_room (m_vcache m)" and "range_ok page n"
    and "KVMSPACE \<le> page \<longrightarrow> KVMSPACE + VCACHE_SIZE \<le> page" and "HUGE_PAGE \<notin> flags"
    and "\<forall>a \<in> pages page n. path_ok X m a" and "4 * n + 4 * length fs \<le> card (free_frames (m_phys m))"
  shows "alloc_pre X page n flags m'"
  using assms by (simp add: alloc_pre_def alloc_post_def moved_def)


text \<open>
  A heap used out of order is not mapped. \<open>expand\<close> maps from the page that faulted but
  adds to \<open>heap_head\<close>, which it takes for the end of the mapped part. After one fault at
  1 MiB and one at 2 MiB into a new heap, the pages from 32 KiB to 96 KiB are not mapped and a
  fault on any of them returns at once as if another core had mapped it: the processor
  faults again, for ever.
\<close>

theorem heap_expand_gap:
  assumes "x86_crate X" and "mp_inv X m" and "2 \<le> vc_room (m_vcache m)" and "96 \<le> card (free_frames (m_phys m))"
    and "\<forall>a \<in> pages HEAP_START (HEAP_SIZE div 4096). path_ok X m a"
  shows "\<exists>h1 m1 h2 m2. expand X (HEAP_START + 0x100000) (heap_new, m) = Some (h1, m1) \<and>
    expand X (HEAP_START + 0x200000) (h1, m1) = Some (h2, m2) \<and>
    (\<forall>i. 8 \<le> i \<and> i < 24 \<longrightarrow>
      pagemap X m2 (HEAP_START + i * 4096) = pagemap X m (HEAP_START + i * 4096) \<and>
      expand X (HEAP_START + i * 4096) (h2, m2) = Some (h2, m2))"
proof -
  let ?p = "HEAP_START + 0x100000" and ?q = "HEAP_START + 0x200000"
  have sub: "pages (HEAP_START + k * 4096) n \<subseteq> pages HEAP_START (HEAP_SIZE div 4096)" if "k + n \<le> 524288" for k n
    using that by (fastforce simp: pages_def image_iff algebra_simps intro: bexI [of _ "k + i" for i])
  have ok: "\<forall>a \<in> pages ?p 8. path_ok X m a" "\<forall>a \<in> pages ?q 16. path_ok X m a"
    using sub [of 256 8] sub [of 512 16] assms(5) by auto
  have r: "range_ok ?p 8" "range_ok ?q 16" by (simp_all add: range_ok_def HEAP_START_def KVMSPACE_def)
  have k: "KVMSPACE \<le> ?p \<longrightarrow> KVMSPACE + VCACHE_SIZE \<le> ?p" "KVMSPACE \<le> ?q \<longrightarrow> KVMSPACE + VCACHE_SIZE \<le> ?q"
    by (simp_all add: HEAP_START_def KVMSPACE_def)
  have pre1: "alloc_pre X ?p ((expand_count heap_new + 1) * 8) {WRITABLE} m"
    using assms r ok k by (simp add: alloc_pre_def heap_new_def)
  obtain fs m1 where e1: "expand X ?p (heap_new, m) =
      Some (\<lparr>expand_count = 1, heap_head = HEAP_START + FRAG_SIZE\<rparr>, m1)" "length fs = 8"
      "alloc_post X ?p fs {WRITABLE} m m1"
    using x86_crate.expand_run [OF assms(1) _ _ _ pre1, of ?p]
    by (auto simp: heap_new_def round_down_def HEAP_START_def)
  define h1 where "h1 = \<lparr>expand_count = 1, heap_head = HEAP_START + FRAG_SIZE\<rparr>"
  have pre2: "alloc_pre X ?q ((expand_count h1 + 1) * 8) {WRITABLE} m1"
    using alloc_pre_after [OF e1(3) assms(3) r(2) k(2)] ok(2) assms(4) e1(2) by (simp add: h1_def)
  obtain gs m2 where e2: "expand X ?q (h1, m1) =
      Some (\<lparr>expand_count = 2, heap_head = HEAP_START + 3 * FRAG_SIZE\<rparr>, m2)" "length gs = 16"
      "alloc_post X ?q gs {WRITABLE} m1 m2"
    using x86_crate.expand_run [OF assms(1) _ _ _ pre2, of ?q]
    by (auto simp: h1_def round_down_def HEAP_START_def)
  have "pagemap X m2 (HEAP_START + i * 4096) = pagemap X m (HEAP_START + i * 4096) \<and>
      expand X (HEAP_START + i * 4096) (\<lparr>expand_count = 2, heap_head = HEAP_START + 3 * FRAG_SIZE\<rparr>, m2) =
        Some (\<lparr>expand_count = 2, heap_head = HEAP_START + 3 * FRAG_SIZE\<rparr>, m2)" if i: "8 \<le> i \<and> i < 24" for i
  proof
    have a: "canonical (HEAP_START + i * 4096)" "page_aligned (HEAP_START + i * 4096)"
      using i by (simp_all add: canonical_def HEAP_START_def)
    have "HEAP_START + i * 4096 \<notin> pages ?p 8" "HEAP_START + i * 4096 \<notin> pages ?q 16"
      using i by (auto simp: pages_def)
    then show "pagemap X m2 (HEAP_START + i * 4096) = pagemap X m (HEAP_START + i * 4096)"
      using x86_crate.alloc_post_other [OF assms(1) e1(3) _ a] x86_crate.alloc_post_other [OF assms(1) e2(3) _ a]
        r e1(2) e2(2) by simp
    show "expand X (HEAP_START + i * 4096) (\<lparr>expand_count = 2, heap_head = HEAP_START + 3 * FRAG_SIZE\<rparr>, m2) =
        Some (\<lparr>expand_count = 2, heap_head = HEAP_START + 3 * FRAG_SIZE\<rparr>, m2)"
      using i by (simp add: expand_def)
  qed
  with e1(1) e2(1) show ?thesis unfolding h1_def [symmetric] by blast
qed

theorem heap_expand_gap_witness:
  "\<exists>h1 m1 h2 m2. expand x86_ref (HEAP_START + 0x100000) (heap_new, big_machine) = Some (h1, m1) \<and>
    expand x86_ref (HEAP_START + 0x200000) (h1, m1) = Some (h2, m2) \<and>
    expand x86_ref (HEAP_START + 0x9000) (h2, m2) = Some (h2, m2) \<and>
    pagemap x86_ref m2 (HEAP_START + 0x9000) = 0"
proof -
  have z: "pagemap x86_ref big_machine a = 0" for a
    by (simp add: same_tables [OF big_same] pagemap_def demo_ent)
  have "\<forall>a \<in> pages HEAP_START (HEAP_SIZE div 4096). path_ok x86_ref big_machine a" by (simp add: big_path_ok)
  from heap_expand_gap [OF ref.x86_crate_axioms big_machine_inv _ _ this] demo_vc_map(5) big_free_frames(1)
  obtain h1 m1 h2 m2 where
    "expand x86_ref (HEAP_START + 0x100000) (heap_new, big_machine) = Some (h1, m1)"
    "expand x86_ref (HEAP_START + 0x200000) (h1, m1) = Some (h2, m2)"
    and g: "\<forall>i. 8 \<le> i \<and> i < 24 \<longrightarrow>
      pagemap x86_ref m2 (HEAP_START + i * 4096) = pagemap x86_ref big_machine (HEAP_START + i * 4096) \<and>
      expand x86_ref (HEAP_START + i * 4096) (h2, m2) = Some (h2, m2)" by auto
  moreover from g [rule_format, of 9] z
  have "expand x86_ref (HEAP_START + 0x9000) (h2, m2) = Some (h2, m2)" "pagemap x86_ref m2 (HEAP_START + 0x9000) = 0"
    by simp_all
  ultimately show ?thesis by blast
qed

end
