(* ===== verification/Bytes.thy ===== *)
theory Bytes
  imports Prelude
begin

text \<open>
  Memory as bytes: reading a range, the little-endian numbers of packed structures, and the
  lemmas that split a range at the boundaries of the fields laid out in it.
\<close>

section \<open>Reading memory\<close>

type_synonym memory = "nat \<Rightarrow> u8"

definition bytes :: "memory \<Rightarrow> nat \<Rightarrow> nat \<Rightarrow> u8 list" where
  "bytes mem a n = map (\<lambda>i. mem (a + i)) [0..<n]"

fun le_nat :: "u8 list \<Rightarrow> nat" where
  "le_nat [] = 0"
| "le_nat (b # bs) = unat b + 256 * le_nat bs"

text \<open>The inverse: the \<open>k\<close> low bytes of a number.\<close>

fun to_le :: "nat \<Rightarrow> nat \<Rightarrow> u8 list" where
  "to_le 0 n = []"
| "to_le (Suc k) n = word_of_nat (n mod 256) # to_le k (n div 256)"

definition rd :: "memory \<Rightarrow> nat \<Rightarrow> nat \<Rightarrow> nat" where
  "rd mem k a = le_nat (bytes mem a k)"

lemma length_to_le [simp]: "length (to_le k n) = k"
  by (induction k arbitrary: n) auto

lemma length_bytes [simp]: "length (bytes mem a n) = n"
  by (simp add: bytes_def)

lemma nth_bytes [simp]: "i < n \<Longrightarrow> bytes mem a n ! i = mem (a + i)"
  by (simp add: bytes_def)

lemma le_nat_to_le: "le_nat (to_le k n) = n mod 256 ^ k"
proof (induction k arbitrary: n)
  case (Suc k)
  have "unat (word_of_nat (n mod 256) :: u8) = n mod 256"
    by (simp add: unsigned_of_nat take_bit_eq_mod)
  with Suc show ?case by (simp add: mod_mult2_eq)
qed simp

lemma le_nat_less: "le_nat bs < 256 ^ length bs"
proof (induction bs)
  case (Cons b bs)
  have "unat b < 256" using unsigned_less [of b, where ?'a = nat] by simp
  moreover have "le_nat bs + 1 \<le> 256 ^ length bs" using Cons by simp
  then have "256 * (le_nat bs + 1) \<le> 256 * 256 ^ length bs" by (rule mult_left_mono) simp
  ultimately show ?case by simp
qed simp

lemma to_le_le_nat: "to_le (length bs) (le_nat bs) = bs"
proof (induction bs)
  case (Cons b bs)
  have b: "unat b < 256" using unsigned_less [of b, where ?'a = nat] by simp
  then have "(unat b + 256 * le_nat bs) mod 256 = unat b" "(unat b + 256 * le_nat bs) div 256 = le_nat bs"
    by simp_all
  with Cons show ?case by simp
qed simp

section \<open>Laying fields out\<close>

lemma bytes_append: "bytes mem a (m + n) = bytes mem a m @ bytes mem (a + m) n"
  by (induction n) (simp_all add: bytes_def add.assoc)

lemma bytes_split:
  "bytes mem a (length (xs @ ys)) = xs @ ys \<longleftrightarrow>
   bytes mem a (length xs) = xs \<and> bytes mem (a + length xs) (length ys) = ys"
  by (simp add: bytes_append)

lemma rd_to_le: "bytes mem a k = to_le k n \<Longrightarrow> n < 256 ^ k \<Longrightarrow> rd mem k a = n"
  by (simp add: rd_def le_nat_to_le)

lemma bytes_eq_nth:
  "bytes mem a n = xs \<longleftrightarrow> length xs = n \<and> (\<forall>i<n. mem (a + i) = xs ! i)"
  by (auto simp: list_eq_iff_nth_eq)

lemma bytes_take: "bytes mem a (length xs) = xs \<Longrightarrow> k \<le> length xs \<Longrightarrow> bytes mem a k = take k xs"
  by (auto simp: bytes_eq_nth)

text \<open>A pattern laid out at an address: the form in which layouts are split field by field.\<close>

definition holds :: "memory \<Rightarrow> nat \<Rightarrow> u8 list \<Rightarrow> bool" where
  "holds mem a xs \<longleftrightarrow> bytes mem a (length xs) = xs"

lemma holds_append: "holds mem a (xs @ ys) \<longleftrightarrow> holds mem a xs \<and> holds mem (a + length xs) ys"
  unfolding holds_def by (rule bytes_split)

lemma holds_Nil [simp]: "holds mem a []"
  by (simp add: holds_def bytes_def)

lemma holds_single [simp]: "holds mem a [b] \<longleftrightarrow> mem a = b"
  by (simp add: holds_def bytes_def)

lemma holds_bytes: "holds mem a xs \<Longrightarrow> n = length xs \<Longrightarrow> bytes mem a n = xs"
  by (simp add: holds_def)

lemma holds_concat:
  "holds mem a (concat xss) \<Longrightarrow> i < length xss \<Longrightarrow>
   holds mem (a + length (concat (take i xss))) (xss ! i)"
proof (induction xss arbitrary: a i)
  case (Cons xs xss)
  then show ?case by (cases i) (auto simp: holds_append add.assoc [symmetric])
qed simp

end
