(* ===== verification/Tar.thy ===== *)
theory Tar
  imports X86_Crate Bytes
begin

text \<open>
  The reader of tar archives, \<open>kernel/src/fs/tar.rs\<close>. A \<open>String\<close> or \<open>str\<close> is its UTF-8 bytes.
  The functions of the Rust library that the code calls, \<open>from_utf8\<close>,
  \<open>CStr::from_bytes_with_nul\<close> and \<open>usize::from_str_radix\<close>, are defined as the library
  documents them.
\<close>

section \<open>The functions of the library\<close>

definition cont_byte :: "u8 \<Rightarrow> bool" where
  "cont_byte b \<longleftrightarrow> 0x80 \<le> b \<and> b \<le> 0xBF"

definition three_lead :: "u8 \<Rightarrow> u8 \<Rightarrow> bool" where
  "three_lead a b \<longleftrightarrow>
     a = 0xE0 \<and> 0xA0 \<le> b \<and> b \<le> 0xBF \<or>
     0xE1 \<le> a \<and> a \<le> 0xEC \<and> cont_byte b \<or>
     a = 0xED \<and> 0x80 \<le> b \<and> b \<le> 0x9F \<or>
     0xEE \<le> a \<and> a \<le> 0xEF \<and> cont_byte b"

definition four_lead :: "u8 \<Rightarrow> u8 \<Rightarrow> bool" where
  "four_lead a b \<longleftrightarrow>
     a = 0xF0 \<and> 0x90 \<le> b \<and> b \<le> 0xBF \<or>
     0xF1 \<le> a \<and> a \<le> 0xF3 \<and> cont_byte b \<or>
     a = 0xF4 \<and> 0x80 \<le> b \<and> b \<le> 0x8F"

text \<open>The well-formed byte sequences of UTF-8, the ones \<open>from_utf8\<close> accepts.\<close>

fun utf8_valid :: "u8 list \<Rightarrow> bool" where
  "utf8_valid [] = True"
| "utf8_valid [a] = (a < 0x80)"
| "utf8_valid (a # b # cs) =
     (if a < 0x80 then utf8_valid (b # cs)
      else if 0xC2 \<le> a \<and> a \<le> 0xDF \<and> cont_byte b then utf8_valid cs
      else (case cs of
              [] \<Rightarrow> False
            | c # ds \<Rightarrow>
                if three_lead a b \<and> cont_byte c then utf8_valid ds
                else (case ds of
                        [] \<Rightarrow> False
                      | d # es \<Rightarrow> four_lead a b \<and> cont_byte c \<and> cont_byte d \<and> utf8_valid es)))"

text \<open>\<open>from_bytes_with_nul\<close> wants exactly one NUL, at the end.\<close>

definition from_bytes_with_nul :: "u8 list \<Rightarrow> u8 list option" where
  "from_bytes_with_nul bs =
     (if bs \<noteq> [] \<and> last bs = 0 \<and> 0 \<notin> set (butlast bs) then Some (butlast bs) else None)"

text \<open>
  \<open>usize::from_str_radix(.., 8)\<close>: an optional plus sign, then at least one octal digit; an
  overflow is an error.
\<close>

fun octal_digits :: "u8 list \<Rightarrow> nat \<Rightarrow> nat option" where
  "octal_digits [] n = Some n"
| "octal_digits (b # bs) n =
     (if 0x30 \<le> b \<and> b \<le> 0x37 \<and> n * 8 + unat (b - 0x30) < 2 ^ 64
      then octal_digits bs (n * 8 + unat (b - 0x30)) else None)"

definition from_str_radix8 :: "u8 list \<Rightarrow> nat option" where
  "from_str_radix8 bs =
     (case bs of
        [] \<Rightarrow> None
      | b # bs' \<Rightarrow> if b = 0x2B \<and> bs' \<noteq> [] then octal_digits bs' 0 else octal_digits bs 0)"

definition is_suffix :: "u8 list \<Rightarrow> u8 list \<Rightarrow> bool" where
  "is_suffix suf s \<longleftrightarrow> length suf \<le> length s \<and> drop (length s - length suf) s = suf"

section \<open>The header\<close>

record TarHeader =
  th_name :: "u8 list"
  th_mode :: "u8 list"
  th_user :: "u8 list"
  th_group :: "u8 list"
  th_size :: "u8 list"
  th_lmod :: "u8 list"
  th_checksum :: "u8 list"
  th_ftype :: u8
  th_link_name :: "u8 list"
  th_ustar :: "u8 list"
  th_version :: "u8 list"
  th_user_name :: "u8 list"
  th_group_name :: "u8 list"
  th_dev_major :: "u8 list"
  th_dev_minor :: "u8 list"
  th_name_pref :: "u8 list"
  th_res0 :: "u8 list"

definition read_TarHeader :: "memory \<Rightarrow> nat \<Rightarrow> TarHeader" where
  "read_TarHeader mem a = \<lparr>th_name = bytes mem a 100, th_mode = bytes mem (a + 100) 8,
     th_user = bytes mem (a + 108) 8, th_group = bytes mem (a + 116) 8, th_size = bytes mem (a + 124) 12,
     th_lmod = bytes mem (a + 136) 12, th_checksum = bytes mem (a + 148) 8, th_ftype = mem (a + 156),
     th_link_name = bytes mem (a + 157) 100, th_ustar = bytes mem (a + 257) 6,
     th_version = bytes mem (a + 263) 2, th_user_name = bytes mem (a + 265) 32,
     th_group_name = bytes mem (a + 297) 32, th_dev_major = bytes mem (a + 329) 8,
     th_dev_minor = bytes mem (a + 337) 8, th_name_pref = bytes mem (a + 345) 155,
     th_res0 = bytes mem (a + 500) 12\<rparr>"

definition sizeof_TarHeader :: nat where
  [simp]: "sizeof_TarHeader = 100 + 8 + 8 + 8 + 12 + 12 + 8 + 1 + 100 + 6 + 2 + 32 + 32 + 8 + 8 + 155 + 12"

datatype TarEntryType = TarFile | TarDirectory

definition entry_type_try_from :: "u8 \<Rightarrow> TarEntryType option" where
  "entry_type_try_from v =
     (if 0x80 \<le> v then None
      else if v = 0x30 then Some TarFile
      else if v = 0x35 then Some TarDirectory
      else None)"

definition ustar_magic :: "u8 list" where
  "ustar_magic = [0x75, 0x73, 0x74, 0x61, 0x72, 0x20]"

definition check :: "TarHeader \<Rightarrow> bool" where
  "check h = (if \<not> utf8_valid (th_ustar h) then False else th_ustar h = ustar_magic)"

definition nul_position :: "u8 list \<Rightarrow> nat \<Rightarrow> nat" where
  "nul_position bs d = (case find_index (\<lambda>b. b = 0) bs of None \<Rightarrow> d | Some i \<Rightarrow> i)"

definition tar_name :: "TarHeader \<Rightarrow> u8 list option" where
  "tar_name h = do {
     let pref_len = nul_position (th_name_pref h) 155;
     let name_len = nul_position (th_name h) 100;
     let pref = take pref_len (th_name_pref h);
     _ \<leftarrow> rassert (utf8_valid pref);
     let name = take name_len (th_name h);
     _ \<leftarrow> rassert (utf8_valid name);
     Some ([0x2F] @ pref @ name) }"

definition tar_size :: "TarHeader \<Rightarrow> nat option" where
  "tar_size h = do {
     size_str \<leftarrow> from_bytes_with_nul (th_size h);
     _ \<leftarrow> rassert (utf8_valid size_str);
     from_str_radix8 size_str }"

text \<open>The content follows the header: its address and its length.\<close>

definition tar_content :: "nat \<Rightarrow> TarHeader \<Rightarrow> (nat \<times> nat) option" where
  "tar_content a h = do {
     n \<leftarrow> tar_size h;
     Some (a + sizeof_TarHeader, n) }"

definition entry_type :: "TarHeader \<Rightarrow> TarEntryType option" where
  "entry_type h = entry_type_try_from (th_ftype h)"

section \<open>Writing headers\<close>

definition tar_bytes :: "TarHeader \<Rightarrow> u8 list" where
  "tar_bytes h = th_name h @ th_mode h @ th_user h @ th_group h @ th_size h @ th_lmod h @ th_checksum h @
     [th_ftype h] @ th_link_name h @ th_ustar h @ th_version h @ th_user_name h @ th_group_name h @
     th_dev_major h @ th_dev_minor h @ th_name_pref h @ th_res0 h"

definition tar_shape :: "TarHeader \<Rightarrow> bool" where
  "tar_shape h \<longleftrightarrow> length (th_name h) = 100 \<and> length (th_mode h) = 8 \<and> length (th_user h) = 8 \<and>
     length (th_group h) = 8 \<and> length (th_size h) = 12 \<and> length (th_lmod h) = 12 \<and>
     length (th_checksum h) = 8 \<and> length (th_link_name h) = 100 \<and> length (th_ustar h) = 6 \<and>
     length (th_version h) = 2 \<and> length (th_user_name h) = 32 \<and> length (th_group_name h) = 32 \<and>
     length (th_dev_major h) = 8 \<and> length (th_dev_minor h) = 8 \<and> length (th_name_pref h) = 155 \<and>
     length (th_res0 h) = 12"

text \<open>A number as octal digits, most significant first.\<close>

fun octal :: "nat \<Rightarrow> nat \<Rightarrow> u8 list" where
  "octal 0 n = []"
| "octal (Suc k) n = octal k (n div 8) @ [0x30 + word_of_nat (n mod 8)]"

lemma length_octal [simp]: "length (octal k n) = k"
  by (induction k arbitrary: n) simp_all

lemma length_tar_bytes: "tar_shape h \<Longrightarrow> length (tar_bytes h) = 512"
  by (simp add: tar_bytes_def tar_shape_def)

lemma read_tar_bytes:
  assumes "tar_shape h" "holds mem a (tar_bytes h)"
  shows "read_TarHeader mem a = h"
proof -
  note s = assms(1) [unfolded tar_shape_def]
  have "holds mem a (th_name h)" "holds mem (a + 100) (th_mode h)" "holds mem (a + 108) (th_user h)"
    "holds mem (a + 116) (th_group h)" "holds mem (a + 124) (th_size h)" "holds mem (a + 136) (th_lmod h)"
    "holds mem (a + 148) (th_checksum h)" "holds mem (a + 156) [th_ftype h]"
    "holds mem (a + 157) (th_link_name h)" "holds mem (a + 257) (th_ustar h)"
    "holds mem (a + 263) (th_version h)" "holds mem (a + 265) (th_user_name h)"
    "holds mem (a + 297) (th_group_name h)" "holds mem (a + 329) (th_dev_major h)"
    "holds mem (a + 337) (th_dev_minor h)" "holds mem (a + 345) (th_name_pref h)"
    "holds mem (a + 500) (th_res0 h)"
    using assms(2) s unfolding tar_bytes_def holds_append by (simp_all add: ac_simps)
  with s show ?thesis by (simp add: read_TarHeader_def holds_bytes)
qed

lemma octal_digit:
  assumes "n < 8"
  shows "0x30 \<le> (0x30 + word_of_nat n :: u8)" "(0x30 + word_of_nat n :: u8) \<le> 0x37" "unat (word_of_nat n :: u8) = n"
proof -
  have "n = 0 \<or> n = 1 \<or> n = 2 \<or> n = 3 \<or> n = 4 \<or> n = 5 \<or> n = 6 \<or> n = 7" using assms by arith
  then show "0x30 \<le> (0x30 + word_of_nat n :: u8)" "(0x30 + word_of_nat n :: u8) \<le> 0x37" "unat (word_of_nat n :: u8) = n"
    by (elim disjE; simp)+
qed

lemma octal_digits_append:
  "octal_digits (xs @ ys) n = Option.bind (octal_digits xs n) (octal_digits ys)"
  by (induction xs arbitrary: n) auto

lemma octal_digits_octal: "k \<le> 21 \<Longrightarrow> octal_digits (octal k n) 0 = Some (n mod 8 ^ k)"
proof (induction k arbitrary: n)
  case (Suc k)
  have eq: "n div 8 mod 8 ^ k * 8 + n mod 8 = n mod 8 ^ Suc k"
    by (simp add: mod_mult2_eq mult.commute)
  have "(8::nat) ^ Suc k \<le> 8 ^ 21" using Suc.prems by (intro power_increasing) auto
  moreover have "n mod 8 ^ Suc k < 8 ^ Suc k" by (rule mod_less_divisor) simp
  moreover have "(8::nat) ^ 21 < 2 ^ 64" by simp
  ultimately have "n mod 8 ^ Suc k < 2 ^ 64" by linarith
  then have "n div 8 mod 8 ^ k * 8 + n mod 8 < 2 ^ 64" unfolding eq .
  with Suc octal_digit [of "n mod 8"] show ?case
    by (simp add: octal_digits_append eq)
qed simp

lemma octal_range: "b \<in> set (octal k n) \<Longrightarrow> 0x30 \<le> b \<and> b \<le> 0x37"
  by (induction k arbitrary: n) (use octal_digit in auto)

lemma ascii_utf8: "(\<And>b. b \<in> set bs \<Longrightarrow> b < 0x80) \<Longrightarrow> utf8_valid bs"
proof (induction bs)
  case (Cons b bs)
  then have "b < 0x80" "utf8_valid bs" by simp_all
  then show ?case by (cases bs) simp_all
qed simp

text \<open>A size field with eleven digits is read back.\<close>

lemma from_str_radix8_digits:
  assumes "bs \<noteq> []" "\<And>b. b \<in> set bs \<Longrightarrow> 0x30 \<le> b"
  shows "from_str_radix8 bs = octal_digits bs 0"
proof (cases bs)
  case (Cons b bs')
  then have "0x30 \<le> b" using assms(2) by simp
  then have "b \<noteq> 0x2B" by (auto simp: word_le_nat_alt)
  with Cons show ?thesis by (simp add: from_str_radix8_def)
qed (use assms in simp)

lemma tar_size_digits:
  assumes "th_size h = ds @ [0]" "ds \<noteq> []" "\<And>b. b \<in> set ds \<Longrightarrow> 0x30 \<le> b \<and> b \<le> 0x37"
    "octal_digits ds 0 = Some n"
  shows "tar_size h = Some n"
proof -
  have "0 \<notin> set ds" using assms(3) [of 0] by (auto simp: word_le_nat_alt)
  moreover have "utf8_valid ds"
  proof (rule ascii_utf8)
    fix b assume "b \<in> set ds"
    then have "b \<le> 0x37" using assms(3) by blast
    then show "b < 0x80" by (simp add: word_le_nat_alt word_less_nat_alt)
  qed
  moreover have "from_str_radix8 ds = Some n"
    using from_str_radix8_digits assms(2-4) by simp
  ultimately show ?thesis using assms(1) by (simp add: tar_size_def from_bytes_with_nul_def)
qed

lemma tar_size_octal:
  assumes "th_size h = octal 11 n @ [0]" "n < 8 ^ 11"
  shows "tar_size h = Some n"
proof (rule tar_size_digits [OF assms(1)])
  show "octal 11 n \<noteq> []" by (metis length_octal list.size(3) zero_neq_numeral)
  show "octal_digits (octal 11 n) 0 = Some n"
    by (rule octal_digits_octal [of 11 n, unfolded mod_less [OF assms(2)]]) simp
qed (rule octal_range)

lemma nul_position_takeWhile:
  assumes "length bs = d"
  shows "take (nul_position bs d) bs = takeWhile (\<lambda>b. b \<noteq> 0) bs"
proof (cases "find_index (\<lambda>b. b = 0) bs")
  case None
  then have "takeWhile (\<lambda>b. b \<noteq> 0) bs = bs" by (simp add: find_index_None takeWhile_eq_all_conv)
  with None assms show ?thesis by (simp add: nul_position_def del: takeWhile_eq_all_conv)
next
  case (Some i)
  then have "i < length bs" "bs ! i = 0" "\<forall>j<i. bs ! j \<noteq> 0" by (simp_all add: find_index_Some)
  then have "takeWhile (\<lambda>b. b \<noteq> 0) bs = take i bs" by (intro takeWhile_eq_take_P_nth) auto
  with Some show ?thesis by (simp add: nul_position_def)
qed

end
