(* ===== verification/Initrd.thy ===== *)
theory Initrd
  imports Mem Tar
begin

text \<open>
  The initial ramdisk, \<open>kernel/src/fs/initrd.rs\<close>: \<open>init\<close> maps the archive the boot loader left in
  memory and \<open>init_map\<close> makes the table of its files. The \<open>BTreeMap\<close> is a map from paths (their
  bytes) to entries; a file is the address and the length of its content.
\<close>

section \<open>The table of files\<close>

definition INITRD_START :: nat where
  "INITRD_START = 0xFFFF810000000000"

datatype InitrdEntry = InitrdFile nat nat | InitrdDirectory

type_synonym initrd = "u8 list \<rightharpoonup> InitrdEntry"

text \<open>
  One round of the loop: \<open>Inl\<close> is a \<open>break\<close>, \<open>Inr\<close> the header to look at next and the table.
\<close>

definition init_map_step :: "x86 \<Rightarrow> memory \<Rightarrow> nat \<Rightarrow> nat \<Rightarrow> initrd \<Rightarrow> (initrd + nat \<times> initrd) option" where
  "init_map_step X mem isize cur initrd = do {
     header_end \<leftarrow> add64 cur sizeof_TarHeader;
     archive_end \<leftarrow> add64 INITRD_START isize;
     if archive_end < header_end then Some (Inl initrd)
     else do {
       _ \<leftarrow> rassert (cur \<noteq> 0);
       let ch = read_TarHeader mem cur;
       if \<not> check ch then Some (Inl initrd)
       else do {
         entry_size \<leftarrow> tar_size ch;
         skip \<leftarrow> align_up X entry_size 512;
         next \<leftarrow> add64 cur sizeof_TarHeader;
         next \<leftarrow> add64 next skip;
         case entry_type ch of
           None \<Rightarrow> Some (Inr (next, initrd))
         | Some ftype \<Rightarrow> do {
             entry_name \<leftarrow> tar_name ch;
             if is_suffix [0x2F, 0x2E] entry_name \<or> is_suffix [0x2F, 0x2E, 0x2E] entry_name
             then Some (Inr (next, initrd))
             else do {
               entry \<leftarrow> (case ftype of
                    TarFile \<Rightarrow> do { (a, n) \<leftarrow> tar_content cur ch; Some (InitrdFile a n) }
                  | TarDirectory \<Rightarrow> Some InitrdDirectory);
               Some (Inr (next, initrd(entry_name \<mapsto> entry))) } } } } }"

lemma init_map_step_advances:
  "init_map_step X mem isize cur initrd = Some (Inr (cur', initrd')) \<Longrightarrow> cur < cur' \<and> cur' < 2 ^ 64"
  by (auto simp: init_map_step_def rust_simps Let_def split: if_splits option.splits)

function init_map_loop :: "x86 \<Rightarrow> memory \<Rightarrow> nat \<Rightarrow> nat \<Rightarrow> initrd \<Rightarrow> initrd option" where
  "init_map_loop X mem isize cur initrd =
     (case init_map_step X mem isize cur initrd of
        None \<Rightarrow> None
      | Some (Inl initrd') \<Rightarrow> Some initrd'
      | Some (Inr (cur', initrd')) \<Rightarrow> init_map_loop X mem isize cur' initrd')"
  by pat_completeness auto

termination
  by (relation "measure (\<lambda>(X, mem, isize, cur, initrd). 2 ^ 64 - cur)")
    (auto dest!: init_map_step_advances)

declare init_map_loop.simps [simp del]

definition init_map :: "x86 \<Rightarrow> memory \<Rightarrow> BootBoot \<Rightarrow> initrd option" where
  "init_map X mem bb = init_map_loop X mem (bb_initrd_size bb) INITRD_START Map.empty"

section \<open>Opening files\<close>

text \<open>\<open>INITRD\<close> is empty until \<open>init\<close> has run.\<close>

definition open_path :: "initrd option \<Rightarrow> u8 list \<Rightarrow> InitrdEntry option option" where
  "open_path INITRD p = (case INITRD of None \<Rightarrow> None | Some initrd \<Rightarrow> Some (initrd p))"

definition open_file :: "initrd option \<Rightarrow> u8 list \<Rightarrow> (nat \<times> nat) option option" where
  "open_file INITRD p = do {
     e \<leftarrow> open_path INITRD p;
     Some (case e of
             None \<Rightarrow> None
           | Some (InitrdFile a n) \<Rightarrow> Some (a, n)
           | Some InitrdDirectory \<Rightarrow> None) }"

section \<open>Mapping the archive\<close>

text \<open>
  What the processor reads at a virtual address: the byte of the frame its page translates to.
  \<open>pm\<close> is the content of physical memory. The byte of an unmapped page stands for a page fault
  and is not used.
\<close>

definition vread :: "x86 \<Rightarrow> machine \<Rightarrow> memory \<Rightarrow> memory" where
  "vread X m pm a =
     (case pte_frame X (pagemap X m (a - a mod 4096)) of None \<Rightarrow> 0 | Some f \<Rightarrow> pm (f + a mod 4096))"

definition initrd_init :: "x86 \<Rightarrow> BootBoot \<Rightarrow> memory \<Rightarrow> machine \<Rightarrow> (initrd option \<times> machine) option" where
  "initrd_init X bb pm m = do {
     a \<leftarrow> phys_new X (bb_initrd_ptr bb);
     initrd_frame \<leftarrow> frame_from_start X a;
     r \<leftarrow> vmap X INITRD_START initrd_frame (bb_initrd_size bb) {} m;
     m \<leftarrow> unwrap_ok r;
     initrd \<leftarrow> init_map X (vread X m pm) bb;
     Some (Some initrd, m) }"

section \<open>Archives\<close>

text \<open>
  An archive is a list of headers with their contents. Only the fields the kernel reads are
  restricted; a file has type \<open>0\<close>, a directory type \<open>5\<close>, other types are skipped.
\<close>

type_synonym archive = "(TarHeader \<times> u8 list) list"

definition entry_ok :: "TarHeader \<times> u8 list \<Rightarrow> bool" where
  "entry_ok e \<longleftrightarrow> (case e of (h, c) \<Rightarrow>
     tar_shape h \<and> th_ustar h = ustar_magic \<and> length c < 8 ^ 11 \<and> th_size h = octal 11 (length c) @ [0] \<and>
     utf8_valid (takeWhile (\<lambda>b. b \<noteq> 0) (th_name_pref h)) \<and> utf8_valid (takeWhile (\<lambda>b. b \<noteq> 0) (th_name h)))"

definition entry_bytes :: "TarHeader \<times> u8 list \<Rightarrow> u8 list" where
  "entry_bytes e = (case e of (h, c) \<Rightarrow> tar_bytes h @ c @ replicate (round_up (length c) 512 - length c) 0)"

definition entry_path :: "TarHeader \<Rightarrow> u8 list" where
  "entry_path h = [0x2F] @ takeWhile (\<lambda>b. b \<noteq> 0) (th_name_pref h) @ takeWhile (\<lambda>b. b \<noteq> 0) (th_name h)"

text \<open>The entries that end up in the table: files and directories except \<open>.\<close> and \<open>..\<close>.\<close>

definition entry_listed :: "TarHeader \<Rightarrow> bool" where
  "entry_listed h \<longleftrightarrow> (th_ftype h = 0x30 \<or> th_ftype h = 0x35) \<and>
     \<not> is_suffix [0x2F, 0x2E] (entry_path h) \<and> \<not> is_suffix [0x2F, 0x2E, 0x2E] (entry_path h)"

text \<open>The last entry of a path wins.\<close>

definition lookup_entry :: "archive \<Rightarrow> u8 list \<Rightarrow> (TarHeader \<times> u8 list) option" where
  "lookup_entry es p = List.find (\<lambda>(h, c). entry_listed h \<and> entry_path h = p) (rev es)"

text \<open>What the table says of a path agrees with an entry of the archive.\<close>

definition entry_agrees :: "memory \<Rightarrow> (TarHeader \<times> u8 list) option \<Rightarrow> InitrdEntry option \<Rightarrow> bool" where
  "entry_agrees mem e r \<longleftrightarrow>
     (case e of
        None \<Rightarrow> r = None
      | Some (h, c) \<Rightarrow>
          if th_ftype h = 0x35 then r = Some InitrdDirectory
          else (\<exists>a. r = Some (InitrdFile a (length c)) \<and> bytes mem a (length c) = c))"

lemma length_entry_bytes:
  assumes "entry_ok (h, c)"
  shows "length (entry_bytes (h, c)) = 512 + round_up (length c) 512"
  using assms length_tar_bytes [of h] round_up_ge [of 512 "length c"]
  by (simp add: entry_ok_def entry_bytes_def)

definition entry_value :: "nat \<Rightarrow> TarHeader \<times> u8 list \<Rightarrow> InitrdEntry" where
  "entry_value cur e = (if th_ftype (fst e) = 0x35 then InitrdDirectory else InitrdFile (cur + 512) (length (snd e)))"

lemma tar_name_entry:
  assumes "entry_ok (h, c)"
  shows "tar_name h = Some (entry_path h)"
  using assms by (simp add: tar_name_def entry_ok_def tar_shape_def entry_path_def nul_position_takeWhile)

lemma entry_content:
  assumes "entry_ok (h, c)" "holds mem cur (entry_bytes (h, c))"
  shows "read_TarHeader mem cur = h" "bytes mem (cur + 512) (length c) = c"
proof -
  have s: "tar_shape h" using assms(1) by (simp add: entry_ok_def)
  have l: "holds mem cur (tar_bytes h)" "holds mem (cur + 512) c"
    using assms(2) length_tar_bytes [OF s] by (simp_all add: entry_bytes_def holds_append)
  show "read_TarHeader mem cur = h" by (rule read_tar_bytes [OF s l(1)])
  show "bytes mem (cur + 512) (length c) = c" by (rule holds_bytes [OF l(2) refl])
qed

lemma lookup_entry_snoc:
  "lookup_entry (es @ [(h, c)]) p =
     (if entry_listed h \<and> entry_path h = p then Some (h, c) else lookup_entry es p)"
  by (simp add: lookup_entry_def)

lemma utf8_ustar: "utf8_valid ustar_magic"
  by (simp add: ustar_magic_def)

lemma zero_block_check:
  assumes "holds mem cur (replicate k 0)" "512 \<le> k"
  shows "\<not> check (read_TarHeader mem cur)"
proof -
  have "bytes mem cur k = replicate k 0" using assms(1) by (simp add: holds_def)
  then have "mem (cur + 257) = 0" using assms(2) by (auto simp: bytes_eq_nth)
  then have "bytes mem (cur + 257) 6 ! 0 \<noteq> ustar_magic ! 0" by (simp add: ustar_magic_def)
  then have "bytes mem (cur + 257) 6 \<noteq> ustar_magic" by metis
  then show ?thesis by (simp add: check_def read_TarHeader_def)
qed

context x86_crate
begin

text \<open>One entry of an archive is one round of the loop.\<close>

lemma init_map_step_entry:
  assumes ok: "entry_ok (h, c)" and mem: "holds mem cur (entry_bytes (h, c))"
    and cur: "INITRD_START \<le> cur" "cur + length (entry_bytes (h, c)) \<le> INITRD_START + isize" "isize \<le> 2 ^ 46"
  shows "init_map_step X mem isize cur initrd = Some (Inr (cur + length (entry_bytes (h, c)),
      if entry_listed h then initrd(entry_path h \<mapsto> entry_value cur (h, c)) else initrd))"
proof -
  note len = length_entry_bytes [OF ok]
  have h: "read_TarHeader mem cur = h" by (rule entry_content [OF ok mem])
  have "check h" using ok utf8_ustar by (simp add: check_def entry_ok_def)
  moreover have sz: "tar_size h = Some (length c)" using ok tar_size_octal by (auto simp: entry_ok_def)
  moreover have "align_up X (length c) 512 = Some (round_up (length c) 512)"
    "cur + 512 + round_up (length c) 512 < 2 ^ 64" "cur + 512 \<le> INITRD_START + isize" "INITRD_START + isize < 2 ^ 64"
    using cur len by (simp_all add: align_up_512 INITRD_START_def)
  moreover have "entry_type h = (if th_ftype h = 0x30 then Some TarFile
      else if th_ftype h = 0x35 then Some TarDirectory else None)"
    by (auto simp: entry_type_def entry_type_try_from_def)
  moreover note tar_name_entry [OF ok]
  ultimately show ?thesis
    using cur(1) len unfolding init_map_step_def
    by (auto simp: h Let_def add64_def INITRD_START_def tar_content_def entry_listed_def entry_value_def)
qed

lemma init_map_loop_archive:
  assumes "\<forall>e \<in> set es. entry_ok e" "holds mem cur (concat (map entry_bytes es) @ replicate k 0)"
    "INITRD_START \<le> cur" "cur + length (concat (map entry_bytes es)) + k = INITRD_START + isize" "isize \<le> 2 ^ 46"
    "\<And>p. entry_agrees mem (lookup_entry es0 p) (initrd p)"
  shows "\<exists>m. init_map_loop X mem isize cur initrd = Some m \<and>
    (\<forall>p. entry_agrees mem (lookup_entry (es0 @ es) p) (m p))"
  using assms
proof (induction es arbitrary: es0 cur initrd)
  case Nil
  have "init_map_step X mem isize cur initrd = Some (Inl initrd)"
  proof (cases "512 \<le> k")
    case True
    with Nil zero_block_check [of mem cur k] show ?thesis
      by (auto simp: init_map_step_def add64_def INITRD_START_def Let_def)
  next
    case False
    with Nil show ?thesis by (auto simp: init_map_step_def add64_def INITRD_START_def)
  qed
  with Nil show ?case by (subst init_map_loop.simps) simp
next
  case (Cons e es)
  obtain h c where e: "e = (h, c)" by (cases e)
  let ?n = "length (entry_bytes (h, c))"
  let ?initrd = "if entry_listed h then initrd(entry_path h \<mapsto> entry_value cur (h, c)) else initrd"
  have ok: "entry_ok (h, c)" and mem: "holds mem cur (entry_bytes (h, c))"
    and rest: "holds mem (cur + ?n) (concat (map entry_bytes es) @ replicate k 0)"
    using Cons.prems by (simp_all add: e holds_append add.assoc)
  have step: "init_map_step X mem isize cur initrd = Some (Inr (cur + ?n, ?initrd))"
    by (rule init_map_step_entry [OF ok mem]) (use Cons.prems in \<open>simp_all add: e\<close>)
  have agree: "entry_agrees mem (lookup_entry (es0 @ [(h, c)]) p) (?initrd p)" for p
  proof (cases "entry_listed h \<and> entry_path h = p")
    case True
    then have "entry_agrees mem (Some (h, c)) (Some (entry_value cur (h, c)))"
      using entry_content(2) [OF ok mem] by (auto simp: entry_agrees_def entry_value_def)
    with True show ?thesis by (simp add: lookup_entry_snoc)
  next
    case False
    with Cons.prems(6) show ?thesis by (auto simp: lookup_entry_snoc)
  qed
  have "\<exists>m. init_map_loop X mem isize (cur + ?n) ?initrd = Some m \<and>
      (\<forall>p. entry_agrees mem (lookup_entry ((es0 @ [(h, c)]) @ es) p) (m p))"
    by (rule Cons.IH [OF _ rest _ _ _ agree]) (use Cons.prems in \<open>simp_all add: e\<close>)
  with step show ?case by (subst init_map_loop.simps) (simp add: e)
qed

lemma init_map_archive:
  assumes "\<forall>e \<in> set es. entry_ok e"
    "holds mem INITRD_START (concat (map entry_bytes es) @ replicate k 0)"
    "bb_initrd_size bb = length (concat (map entry_bytes es)) + k" "bb_initrd_size bb \<le> 2 ^ 46"
  shows "\<exists>m. init_map X mem bb = Some m \<and> (\<forall>p. entry_agrees mem (lookup_entry es p) (m p))"
  unfolding init_map_def
  by (rule init_map_loop_archive [of es mem INITRD_START k _ "[]", simplified append_Nil])
    (use assms in \<open>simp_all add: lookup_entry_def entry_agrees_def\<close>)

text \<open>After the mapping the archive is read at its virtual address.\<close>

lemma vread_mapped:
  assumes "\<forall>i<n. pte_frame X (pagemap X m (page + i * 4096)) = Some (phys + i * 4096)" "page_aligned page"
    "j < n * 4096"
  shows "vread X m pm (page + j) = pm (phys + j)"
proof -
  have m: "(page + j) mod 4096 = j mod 4096" using assms(2) by (metis add_0 mod_add_left_eq)
  have "page + j - j mod 4096 = page + j div 4096 * 4096"
    using div_mult_mod_eq [of j 4096] by linarith
  moreover have "j div 4096 < n" using assms(3) by (simp add: div_less_iff_less_mult)
  ultimately have "pte_frame X (pagemap X m (page + j - (page + j) mod 4096)) = Some (phys + j div 4096 * 4096)"
    using assms(1) m by simp
  then show ?thesis using m by (simp add: vread_def add.assoc div_mult_mod_eq)
qed

lemma initrd_init_ok:
  assumes pre: "map_pre X INITRD_START (bb_initrd_ptr bb) (page_count (bb_initrd_size bb)) {} m"
    and bb: "0 < bb_initrd_size bb" "bb_initrd_size bb \<le> 2 ^ 46" "page_aligned (bb_initrd_ptr bb)" "bb_initrd_ptr bb < 2 ^ 52"
    and es: "\<forall>e \<in> set es. entry_ok e" "holds pm (bb_initrd_ptr bb) (concat (map entry_bytes es) @ replicate k 0)"
      "bb_initrd_size bb = length (concat (map entry_bytes es)) + k"
  shows "\<exists>initrd m'. initrd_init X bb pm m = Some (Some initrd, m') \<and>
    map_post X INITRD_START (bb_initrd_ptr bb) (page_count (bb_initrd_size bb)) {} m m' \<and>
    bytes (vread X m' pm) INITRD_START (bb_initrd_size bb) = bytes pm (bb_initrd_ptr bb) (bb_initrd_size bb) \<and>
    (\<forall>p. entry_agrees (vread X m' pm) (lookup_entry es p) (initrd p))"
proof -
  let ?n = "page_count (bb_initrd_size bb)"
  obtain m' where m': "kernel_map X INITRD_START (bb_initrd_ptr bb) (bb_initrd_size bb) {} m = Some (Inr (), m')"
    and post: "map_post X INITRD_START (bb_initrd_ptr bb) ?n {} m m'"
    using kernel_map_ok [OF pre refl bb(1)] by blast
  have "bb_initrd_size bb \<le> ?n * 4096"
    using round_up_ge [of 4096 "bb_initrd_size bb"] by (simp add: page_count_def round_up_def)
  then have "vread X m' pm (INITRD_START + j) = pm (bb_initrd_ptr bb + j)" if "j < bb_initrd_size bb" for j
    by (intro vread_mapped [of ?n]) (use post that in \<open>simp_all add: map_post_def INITRD_START_def\<close>)
  then have eq: "bytes (vread X m' pm) INITRD_START (bb_initrd_size bb) = bytes pm (bb_initrd_ptr bb) (bb_initrd_size bb)"
    by (simp add: bytes_def)
  have "holds (vread X m' pm) INITRD_START (concat (map entry_bytes es) @ replicate k 0)"
    using es(2) eq unfolding holds_def es(3) by simp
  then obtain initrd where i: "init_map X (vread X m' pm) bb = Some initrd"
      "\<forall>p. entry_agrees (vread X m' pm) (lookup_entry es p) (initrd p)"
    using init_map_archive [OF es(1) _ es(3) bb(2)] by blast
  have "initrd_init X bb pm m = Some (Some initrd, m')"
    using i(1) m' bb(3,4) by (simp add: initrd_init_def vmap_def unwrap_ok_def crate_eqs)
  with post eq i(2) show ?thesis by (intro exI [of _ initrd] exI [of _ m']) simp
qed

end

section \<open>Properties\<close>

definition demo_tar :: "u8 list \<Rightarrow> u8 list \<Rightarrow> TarHeader" where
  "demo_tar name c = \<lparr>th_name = name @ replicate (100 - length name) 0, th_mode = replicate 8 0,
     th_user = replicate 8 0, th_group = replicate 8 0, th_size = octal 11 (length c) @ [0],
     th_lmod = replicate 12 0, th_checksum = replicate 8 0, th_ftype = 0x30, th_link_name = replicate 100 0,
     th_ustar = ustar_magic, th_version = replicate 2 0, th_user_name = replicate 32 0,
     th_group_name = replicate 32 0, th_dev_major = replicate 8 0, th_dev_minor = replicate 8 0,
     th_name_pref = replicate 155 0, th_res0 = replicate 12 0\<rparr>"

lemma takeWhile_zero: "0 \<notin> set xs \<Longrightarrow> takeWhile (\<lambda>b. b \<noteq> 0) (xs @ replicate k (0::u8)) = xs"
  by (subst takeWhile_append2) (auto simp: takeWhile_eq_Nil_iff neq_Nil_conv Cons_replicate_eq)

lemma demo_tar_ok:
  assumes "length name \<le> 100" "0 \<notin> set name" "utf8_valid name" "length c < 8 ^ 11"
  shows "entry_ok (demo_tar name c, c)" "entry_path (demo_tar name c) = 0x2F # name"
  using assms takeWhile_zero [of name] takeWhile_zero [of "[]"]
  by (simp_all add: entry_ok_def entry_path_def demo_tar_def tar_shape_def ustar_magic_def)

text \<open>
  C5. The ramdisk. When physical memory holds an archive, \<open>init\<close> returns, maps it, and
  afterwards a path opens exactly the last entry of the archive with that path: a file opens
  as a slice with the bytes of its content, a directory and an unknown path open no file. The
  header of every entry is found by the size of the one before.
\<close>

theorem initrd_opens:
  assumes "x86_crate X"
    and "map_pre X INITRD_START (bb_initrd_ptr bb) (page_count (bb_initrd_size bb)) {} m"
    and "0 < bb_initrd_size bb" and "bb_initrd_size bb \<le> 2 ^ 46" and "bb_initrd_ptr bb < 2 ^ 52"
    and "\<forall>e \<in> set es. entry_ok e" and "holds pm (bb_initrd_ptr bb) (concat (map entry_bytes es) @ replicate k 0)"
    and "bb_initrd_size bb = length (concat (map entry_bytes es)) + k"
  shows "\<exists>initrd m'. initrd_init X bb pm m = Some (Some initrd, m') \<and> mp_inv X m' \<and>
    (\<forall>p. case lookup_entry es p of
        None \<Rightarrow> open_path (Some initrd) p = Some None
      | Some (h, c) \<Rightarrow>
          if th_ftype h = 0x35 then open_path (Some initrd) p = Some (Some InitrdDirectory) \<and>
            open_file (Some initrd) p = Some None
          else \<exists>a. open_file (Some initrd) p = Some (Some (a, length c)) \<and>
            bytes (vread X m' pm) a (length c) = c)"
proof -
  have al: "page_aligned (bb_initrd_ptr bb)" using assms(2) by (simp add: map_pre_def)
  obtain initrd m' where i: "initrd_init X bb pm m = Some (Some initrd, m')"
      "map_post X INITRD_START (bb_initrd_ptr bb) (page_count (bb_initrd_size bb)) {} m m'"
      "\<forall>p. entry_agrees (vread X m' pm) (lookup_entry es p) (initrd p)"
    using x86_crate.initrd_init_ok [OF assms(1-4) al assms(5-8)] by blast
  have "case lookup_entry es p of
        None \<Rightarrow> open_path (Some initrd) p = Some None
      | Some (h, c) \<Rightarrow>
          if th_ftype h = 0x35 then open_path (Some initrd) p = Some (Some InitrdDirectory) \<and>
            open_file (Some initrd) p = Some None
          else \<exists>a. open_file (Some initrd) p = Some (Some (a, length c)) \<and>
            bytes (vread X m' pm) a (length c) = c" for p
    using i(3) [rule_format, of p]
    by (auto simp: entry_agrees_def open_path_def open_file_def split: option.splits if_splits)
  with i(1,2) show ?thesis by (intro exI [of _ initrd] exI [of _ m']) (simp add: map_post_def)
qed

definition demo_archive :: archive where
  "demo_archive = [(demo_tar [0x61] [1, 2, 3], [1, 2, 3]), (demo_tar [0x62] [7], [7])]"

definition demo_pm :: memory where
  "demo_pm a = (let bs = concat (map entry_bytes demo_archive) @ replicate 1024 0 in
     if 0x200000 \<le> a \<and> a < 0x200000 + length bs then bs ! (a - 0x200000) else 0)"

definition demo_initrd_bb :: BootBoot where
  "demo_initrd_bb = demo_bb\<lparr>bb_initrd_ptr := 0x200000, bb_initrd_size := 3072\<rparr>"

lemma demo_archive_ok: "\<forall>e \<in> set demo_archive. entry_ok e" "length (concat (map entry_bytes demo_archive)) = 2048"
proof -
  have "entry_ok (demo_tar [0x61] [1, 2, 3], [1, 2, 3])" "entry_ok (demo_tar [0x62] [7], [7])"
    by (rule demo_tar_ok; simp)+
  then show "\<forall>e \<in> set demo_archive. entry_ok e" "length (concat (map entry_bytes demo_archive)) = 2048"
    using length_entry_bytes by (simp_all add: demo_archive_def round_up_def)
qed

theorem initrd_opens_witness:
  "\<exists>initrd m' a. initrd_init x86_ref demo_initrd_bb demo_pm big_machine = Some (Some initrd, m') \<and>
     open_file (Some initrd) [0x2F, 0x62] = Some (Some (a, 1)) \<and> bytes (vread x86_ref m' demo_pm) a 1 = [7] \<and>
     open_path (Some initrd) [0x2F, 0x63] = Some None"
proof -
  have bb: "bb_initrd_ptr demo_initrd_bb = 0x200000" "bb_initrd_size demo_initrd_bb = 3072"
    by (simp_all add: demo_initrd_bb_def)
  have pre: "map_pre x86_ref INITRD_START (bb_initrd_ptr demo_initrd_bb)
      (page_count (bb_initrd_size demo_initrd_bb)) {} big_machine"
    using big_machine_inv demo_vc_map(5) big_free_frames(1)
    by (simp add: bb map_pre_def big_path_ok page_count_def round_up_def range_ok_def KVMSPACE_def INITRD_START_def)
  have mem: "holds demo_pm (bb_initrd_ptr demo_initrd_bb) (concat (map entry_bytes demo_archive) @ replicate 1024 0)"
    unfolding bb holds_def
    by (rule nth_equalityI) (simp_all add: demo_pm_def Let_def demo_archive_ok(2))
  have paths: "entry_path (demo_tar [0x61] [1, 2, 3]) = [0x2F, 0x61]" "entry_path (demo_tar [0x62] [7]) = [0x2F, 0x62]"
    by (rule demo_tar_ok; simp)+
  then have found: "lookup_entry demo_archive [0x2F, 0x62] = Some (demo_tar [0x62] [7], [7])"
      "lookup_entry demo_archive [0x2F, 0x63] = None"
    by (simp_all add: lookup_entry_def demo_archive_def entry_listed_def is_suffix_def) (simp_all add: demo_tar_def)
  obtain initrd m' where i: "initrd_init x86_ref demo_initrd_bb demo_pm big_machine = Some (Some initrd, m')"
    and all: "\<forall>p. case lookup_entry demo_archive p of
        None \<Rightarrow> open_path (Some initrd) p = Some None
      | Some (h, c) \<Rightarrow>
          if th_ftype h = 0x35 then open_path (Some initrd) p = Some (Some InitrdDirectory) \<and>
            open_file (Some initrd) p = Some None
          else \<exists>a. open_file (Some initrd) p = Some (Some (a, length c)) \<and>
            bytes (vread x86_ref m' demo_pm) a (length c) = c"
    using initrd_opens [OF ref.x86_crate_axioms pre _ _ _ demo_archive_ok(1) mem]
    by (auto simp: bb demo_archive_ok(2))
  show ?thesis
    using i all [rule_format, of "[0x2F, 0x62]"] all [rule_format, of "[0x2F, 0x63]"]
    by (simp add: found) (simp add: demo_tar_def)
qed

end
