(* ===== verification/Memory_Map.thy ===== *)
theory Memory_Map
  imports Initrd
begin

text \<open>
  The memory of a task, \<open>MemoryMap\<close> of \<open>kernel/src/proc/task.rs\<close>: the frames allocated for it,
  their mapping into the address space of a core, the temporary mapping through which the
  kernel fills them, and \<open>ProcInfo\<close> of \<open>kernel/src/proc/mod.rs\<close>, which remembers the map that is
  active on a core.
\<close>

section \<open>Processors\<close>

record BasicProcInfo =
  save_user_rsp :: nat
  kernel_rsp :: nat

record ProcInfo =
  proc_id :: nat
  tick_miss :: nat
  current_task :: "nat option"
  basic :: BasicProcInfo
  schedule_quantum :: nat
  active_mapping :: "nat option"

section \<open>Memory maps\<close>

record MemoryMapping =
  mm_vadr :: nat
  mm_padr :: nat
  mm_n :: nat
  mm_flags :: pflags
  mm_allocated :: bool

record MemoryMap =
  map_id :: nat
  mappings :: "MemoryMapping list"

text \<open>
  \<open>ID_COUNT\<close> is a \<open>const\<close>: every use of it is a new \<open>AtomicUsize\<close> with the initial value, and
  \<open>fetch_add\<close> on it returns that value.
\<close>

definition ID_COUNT :: nat where "ID_COUNT = 0"

definition MemoryMap_new :: MemoryMap where
  "MemoryMap_new = \<lparr>map_id = ID_COUNT, mappings = []\<rparr>"

definition add_raw :: "MemoryMap \<Rightarrow> nat \<Rightarrow> nat \<Rightarrow> nat \<Rightarrow> pflags \<Rightarrow> bool \<Rightarrow> MemoryMapping option \<times> MemoryMap" where
  "add_raw mm vadr padr n flags allocated =
     (let ms = mappings mm @ [\<lparr>mm_vadr = vadr, mm_padr = padr, mm_n = n, mm_flags = flags, mm_allocated = allocated\<rparr>]
      in (if ms = [] then None else Some (last ms), mm\<lparr>mappings := ms\<rparr>))"

definition allocate_step :: "x86 \<Rightarrow> nat \<Rightarrow> pflags \<Rightarrow> nat \<Rightarrow> nat list \<times> MemoryMap \<times> machine \<Rightarrow>
    (MemoryMap \<times> machine + nat list \<times> MemoryMap \<times> machine) option" where
  "allocate_step X vadr flags i s = do {
     let (allocated_frames, mm, m) = s;
     (r, m) \<leftarrow> palloc X m;
     case r of
       Some frame \<Rightarrow> do {
         let allocated_frames = allocated_frames @ [frame];
         pg \<leftarrow> page_add X vadr i;
         let (added, mm) = add_raw mm pg frame 1 flags True;
         if added = None then do {
           m \<leftarrow> pfree_all X allocated_frames m;
           Some (Inl (mm, m)) }
         else Some (Inr (allocated_frames, mm, m)) }
     | None \<Rightarrow> do {
         m \<leftarrow> pfree_all X allocated_frames m;
         Some (Inl (mm, m)) } }"

definition allocate :: "x86 \<Rightarrow> nat \<Rightarrow> nat \<Rightarrow> pflags \<Rightarrow> MemoryMap \<Rightarrow> machine \<Rightarrow>
    (nat list option \<times> MemoryMap \<times> machine) option" where
  "allocate X vadr n flags mm m =
     (case fold_ret (allocate_step X vadr flags) [0..<n] ([], mm, m) of
        None \<Rightarrow> None
      | Some (Inl (mm, m)) \<Rightarrow> Some (None, mm, m)
      | Some (Inr (allocated_frames, mm, m)) \<Rightarrow> Some (Some allocated_frames, mm, m))"

definition mapping_apply :: "x86 \<Rightarrow> MemoryMapping \<Rightarrow> machine \<Rightarrow> ((KernelMapError + unit) \<times> machine) option" where
  "mapping_apply X mp m = do {
     nbytes \<leftarrow> mul64 (mm_n mp) PAGE_SIZE;
     vmap X (mm_vadr mp) (mm_padr mp) nbytes (mm_flags mp) m }"

definition map_apply :: "x86 \<Rightarrow> MemoryMap \<Rightarrow> ProcInfo \<times> machine \<Rightarrow> (ProcInfo \<times> machine) option" where
  "map_apply X mm s = do {
     let (pinfo, m) = s;
     if active_mapping pinfo = Some (map_id mm) then Some (pinfo, m)
     else do {
       m \<leftarrow> fold_opt (\<lambda>mp m. do { r \<leftarrow> mapping_apply X mp m; unwrap_ok r }) (mappings mm) m;
       Some (pinfo\<lparr>active_mapping := Some (map_id mm)\<rparr>, m) } }"

text \<open>Dropping a map drops its mappings in order.\<close>

definition mapping_drop :: "x86 \<Rightarrow> MemoryMapping \<Rightarrow> machine \<Rightarrow> machine option" where
  "mapping_drop X mp m = (if mm_allocated mp then pfree X (mm_padr mp) m else Some m)"

definition map_drop :: "x86 \<Rightarrow> MemoryMap \<Rightarrow> machine \<Rightarrow> machine option" where
  "map_drop X mm m = fold_opt (mapping_drop X) (mappings mm) m"

section \<open>Filling frames\<close>

text \<open>
  A store by the kernel: the page of the address has to be mapped and writable; a store
  through a translation the processor may hold from before has no defined effect.
\<close>

definition vwrite :: "x86 \<Rightarrow> nat \<Rightarrow> u8 \<Rightarrow> machine \<Rightarrow> memory \<Rightarrow> memory option" where
  "vwrite X a v m pm = do {
     let page = a - a mod 4096;
     _ \<leftarrow> rassert (page \<notin> m_stale m \<union> m_gstale m);
     f \<leftarrow> pte_frame X (pagemap X m page);
     _ \<leftarrow> rassert (WRITABLE \<in> pte_flags X (pagemap X m page));
     Some (pm(f + a mod 4096 := v)) }"

definition write_bytes :: "x86 \<Rightarrow> nat \<Rightarrow> u8 list \<Rightarrow> machine \<Rightarrow> memory \<Rightarrow> memory option" where
  "write_bytes X a bs m pm = fold_opt (\<lambda>(i, b). vwrite X (a + i) b m) (List.enumerate 0 bs) pm"

definition TMP_TASKLDMAP :: nat where
  "TMP_TASKLDMAP = KVMSPACE + 9 * 1024 * 1024 * 1024 * 1024"

definition TMP_TASK_SIZE_PER_PROC :: nat where
  "TMP_TASK_SIZE_PER_PROC = 32 * 1024 * 1024 * 1024"

text \<open>The slice is the address it starts at; its length is the argument \<open>size\<close> of the source.\<close>

definition tmp_local_reserve :: "x86 \<Rightarrow> nat \<Rightarrow> nat \<Rightarrow> nat list \<Rightarrow> machine \<Rightarrow> (nat \<times> machine) option" where
  "tmp_local_reserve X core offset frames m = do {
     off \<leftarrow> mul64 core TMP_TASK_SIZE_PER_PROC;
     a \<leftarrow> virt_add X TMP_TASKLDMAP off;
     start_page \<leftarrow> page_from_start X a;
     m \<leftarrow> vmap_many X start_page frames {WRITABLE} m;
     ptr \<leftarrow> add64 start_page offset;
     Some (ptr, m) }"

section \<open>Allocating and dropping a map\<close>

text \<open>The mappings of a run of frames at consecutive pages.\<close>

definition frame_maps :: "nat \<Rightarrow> pflags \<Rightarrow> nat list \<Rightarrow> MemoryMapping list" where
  "frame_maps vadr flags fs = map (\<lambda>(i, f). \<lparr>mm_vadr = vadr + i * 4096, mm_padr = f, mm_n = 1,
     mm_flags = flags, mm_allocated = True\<rparr>) (List.enumerate 0 fs)"

lemma frame_maps_Nil [simp]: "frame_maps vadr flags [] = []"
  by (simp add: frame_maps_def)

lemma frame_maps_snoc:
  "frame_maps vadr flags (fs @ [f]) = frame_maps vadr flags fs @
     [\<lparr>mm_vadr = vadr + length fs * 4096, mm_padr = f, mm_n = 1, mm_flags = flags, mm_allocated = True\<rparr>]"
  by (simp add: frame_maps_def enumerate_append_eq)

lemma frame_maps_frames [simp]: "map mm_padr (frame_maps vadr flags fs) = fs"
  by (induction fs rule: rev_induct) (simp_all add: frame_maps_snoc)

lemma frame_maps_allocated: "mp \<in> set (frame_maps vadr flags fs) \<Longrightarrow> mm_allocated mp"
  by (auto simp: frame_maps_def)

lemma pfree_phys:
  "pfree X f m = map_option (\<lambda>ph. m\<lparr>m_phys := ph\<rparr>) (deallocate_frame X f (m_phys m))"
  by (simp add: pfree_def map_option_case split: option.split)

lemma pfree_all_phys:
  "pfree_all X fs m = map_option (\<lambda>ph. m\<lparr>m_phys := ph\<rparr>) (fold_opt (deallocate_frame X) fs (m_phys m))"
  unfolding pfree_all_def
  by (induction fs arbitrary: m) (auto simp: pfree_phys split: bind_splits)

lemma map_drop_pfree_all:
  "\<forall>mp \<in> set (mappings mm). mm_allocated mp \<Longrightarrow> map_drop X mm m = pfree_all X (map mm_padr (mappings mm)) m"
proof -
  have "\<forall>mp \<in> set ms. mm_allocated mp \<Longrightarrow> fold_opt (mapping_drop X) ms m = fold_opt (pfree X) (map mm_padr ms) m" for ms
    by (induction ms arbitrary: m) (auto simp: mapping_drop_def split: bind_splits)
  then show "\<forall>mp \<in> set (mappings mm). mm_allocated mp \<Longrightarrow> ?thesis"
    by (simp add: map_drop_def pfree_all_def)
qed

text \<open>Only the allocator has changed.\<close>

lemma mp_inv_phys:
  assumes "mp_inv X m" "phys_inv ph" "\<And>p f. tpath p \<Longrightarrow> node X m p = Some f \<Longrightarrow> f \<notin> free_frames ph"
  shows "mp_inv X (m\<lparr>m_phys := ph\<rparr>)"
proof -
  define m' where "m' = m\<lparr>m_phys := ph\<rparr>"
  have fields: "m_tables m' = m_tables m" "m_cr3 m' = m_cr3 m" "m_phys m' = ph" "m_vcache m' = m_vcache m"
    "m_p4page m' = m_p4page m"
    by (simp_all add: m'_def)
  show ?thesis
    using assms unfolding m'_def [symmetric] mp_inv_def tree_ok_def fields same_tables [OF fields(1,2), of X] by blast
qed

lemma node_phys [simp]: "node X (m\<lparr>m_phys := ph\<rparr>) = node X m"
  "pagemap X (m\<lparr>m_phys := ph\<rparr>) = pagemap X m" "path_ok X (m\<lparr>m_phys := ph\<rparr>) = path_ok X m"
  by (simp_all add: same_tables [of "m\<lparr>m_phys := ph\<rparr>" m])

context x86_crate
begin

lemma frame_bound:
  assumes "phys_inv ph" "f \<in> managed ph"
  shows "page_aligned f" "f + 4096 \<le> 2 ^ 52"
proof -
  show al: "page_aligned f" using managed_frame [OF assms(1)] assms(2) by auto
  have "f < 2 ^ 52" using managed_frame [OF assms(1)] assms(2) by auto
  then have "f div 4096 < 2 ^ 40" by (simp add: div_less_iff_less_mult)
  then have "(f div 4096 + 1) * 4096 \<le> 2 ^ 40 * 4096" by (intro mult_right_mono) auto
  with al show "f + 4096 \<le> 2 ^ 52" by (simp add: mod_eq_0_iff_dvd)
qed

lemma allocate_ok:
  assumes inv: "phys_inv (m_phys m)" and n: "n \<le> card (free_frames (m_phys m))" and r: "range_ok vadr n"
  shows "\<exists>fs ph. allocate X vadr n flags mm m =
      Some (Some fs, mm\<lparr>mappings := mappings mm @ frame_maps vadr flags fs\<rparr>, m\<lparr>m_phys := ph\<rparr>) \<and>
    length fs = n \<and> distinct fs \<and> set fs \<subseteq> free_frames (m_phys m) \<and>
    free_frames ph = free_frames (m_phys m) - set fs \<and> managed ph = managed (m_phys m) \<and> phys_inv ph"
proof -
  have "\<exists>fs ph. fold_ret (allocate_step X vadr flags) [0..<k] ([], mm, m) =
      Some (Inr (fs, mm\<lparr>mappings := mappings mm @ frame_maps vadr flags fs\<rparr>, m\<lparr>m_phys := ph\<rparr>)) \<and>
    length fs = k \<and> distinct fs \<and> set fs \<subseteq> free_frames (m_phys m) \<and>
    free_frames ph = free_frames (m_phys m) - set fs \<and> managed ph = managed (m_phys m) \<and> phys_inv ph"
    if "k \<le> n" for k
    using that
  proof (induction k)
    case 0
    then show ?case using inv by (intro exI [of _ "[]"] exI [of _ "m_phys m"]) simp
  next
    case (Suc k)
    then obtain fs ph where IH: "fold_ret (allocate_step X vadr flags) [0..<k] ([], mm, m) =
        Some (Inr (fs, mm\<lparr>mappings := mappings mm @ frame_maps vadr flags fs\<rparr>, m\<lparr>m_phys := ph\<rparr>))"
      "length fs = k" "distinct fs" "set fs \<subseteq> free_frames (m_phys m)"
      "free_frames ph = free_frames (m_phys m) - set fs" "managed ph = managed (m_phys m)" "phys_inv ph"
      by auto
    have "card (free_frames ph) = card (free_frames (m_phys m)) - k"
      using IH(2-5) by (simp add: card_Diff_subset distinct_card)
    then have "free_frames ph \<noteq> {}" using Suc.prems n by auto
    then obtain f ph' where f: "allocate_frame X ph = Some (Some f, ph')" "f \<in> free_frames ph"
      "free_frames ph' = free_frames ph - {f}" "managed ph' = managed ph" "phys_inv ph'"
      using phys.alloc_frame [OF IH(7)] by blast
    have "page_add X vadr k = Some (vadr + k * 4096)"
      using range_ok_page(1) [OF r, of k] Suc.prems by (simp add: page_add_eq)
    then have "allocate_step X vadr flags k
        (fs, mm\<lparr>mappings := mappings mm @ frame_maps vadr flags fs\<rparr>, m\<lparr>m_phys := ph\<rparr>) =
      Some (Inr (fs @ [f], mm\<lparr>mappings := mappings mm @ frame_maps vadr flags (fs @ [f])\<rparr>, m\<lparr>m_phys := ph'\<rparr>))"
      using f(1) IH(2) by (simp add: allocate_step_def palloc_def add_raw_def frame_maps_snoc Let_def)
    with IH(1) have "fold_ret (allocate_step X vadr flags) [0..<Suc k] ([], mm, m) =
      Some (Inr (fs @ [f], mm\<lparr>mappings := mappings mm @ frame_maps vadr flags (fs @ [f])\<rparr>, m\<lparr>m_phys := ph'\<rparr>))"
      by (simp add: fold_ret_append)
    then show ?case
      using f IH(2-6) by (intro exI [of _ "fs @ [f]"] exI [of _ ph']) auto
  qed
  then show ?thesis unfolding allocate_def by fastforce
qed

text \<open>
  Without enough frames \<open>allocate\<close> gives back what it had taken. The map keeps the mappings it
  had entered for them.
\<close>

lemma allocate_fails:
  assumes inv: "phys_inv (m_phys m)" and n: "card (free_frames (m_phys m)) < n" and r: "range_ok vadr n"
  shows "\<exists>fs ph. allocate X vadr n flags mm m =
      Some (None, mm\<lparr>mappings := mappings mm @ frame_maps vadr flags fs\<rparr>, m\<lparr>m_phys := ph\<rparr>) \<and>
    set fs = free_frames (m_phys m) \<and> free_frames ph = free_frames (m_phys m) \<and>
    managed ph = managed (m_phys m) \<and> phys_inv ph"
proof -
  let ?k = "card (free_frames (m_phys m))"
  have "range_ok vadr ?k" using r n by (auto simp: range_ok_def)
  from allocate_ok [OF inv order_refl this, of flags mm]
  obtain fs ph where a: "allocate X vadr ?k flags mm m =
      Some (Some fs, mm\<lparr>mappings := mappings mm @ frame_maps vadr flags fs\<rparr>, m\<lparr>m_phys := ph\<rparr>)"
    "length fs = ?k" "distinct fs" "set fs \<subseteq> free_frames (m_phys m)"
    "free_frames ph = free_frames (m_phys m) - set fs" "managed ph = managed (m_phys m)" "phys_inv ph" by blast
  have all: "set fs = free_frames (m_phys m)"
    using a(2-4) by (simp add: card_subset_eq distinct_card finite_free_frames)
  then have "free_frames ph = {}" using a(5) by simp
  then obtain ph1 where none: "allocate_frame X ph = Some (None, ph1)" "free_frames ph1 = {}"
    "managed ph1 = managed ph" "phys_inv ph1"
    using phys.alloc_none [OF a(7)] by blast
  have "set fs \<subseteq> managed ph1" using a(4,6) none(3) phys.avail_owned [OF inv] by simp
  from phys.free_all [OF none(4) this] obtain ph2 where
    gb: "fold_opt (deallocate_frame X) fs ph1 = Some ph2" "free_frames ph2 = set fs"
      "managed ph2 = managed ph1" "phys_inv ph2"
    using none(2) by auto
  have "fold_ret (allocate_step X vadr flags) [0..<?k] ([], mm, m) =
      Some (Inr (fs, mm\<lparr>mappings := mappings mm @ frame_maps vadr flags fs\<rparr>, m\<lparr>m_phys := ph\<rparr>))"
    using a(1) by (auto simp: allocate_def split: option.splits sum.splits)
  moreover have "allocate_step X vadr flags ?k
      (fs, mm\<lparr>mappings := mappings mm @ frame_maps vadr flags fs\<rparr>, m\<lparr>m_phys := ph\<rparr>) =
    Some (Inl (mm\<lparr>mappings := mappings mm @ frame_maps vadr flags fs\<rparr>, m\<lparr>m_phys := ph2\<rparr>))"
    using none(1) gb(1) by (simp add: allocate_step_def palloc_def pfree_all_phys)
  moreover have "[0..<n] = [0..<?k] @ ?k # [Suc ?k..<n]"
    using upt_add_eq_append [of 0 ?k "n - ?k"] n by (simp add: upt_conv_Cons)
  ultimately have "fold_ret (allocate_step X vadr flags) [0..<n] ([], mm, m) =
      Some (Inl (mm\<lparr>mappings := mappings mm @ frame_maps vadr flags fs\<rparr>, m\<lparr>m_phys := ph2\<rparr>))"
    by (simp add: fold_ret_append)
  then show ?thesis
    using all gb a(6) none(3) by (intro exI [of _ fs] exI [of _ ph2]) (simp add: allocate_def)
qed

lemma map_drop_ok:
  assumes "phys_inv (m_phys m)" "\<forall>mp \<in> set (mappings mm). mm_allocated mp \<and> mm_padr mp \<in> managed (m_phys m)"
  shows "\<exists>ph. map_drop X mm m = Some (m\<lparr>m_phys := ph\<rparr>) \<and>
    free_frames ph = free_frames (m_phys m) \<union> mm_padr ` set (mappings mm) \<and>
    managed ph = managed (m_phys m) \<and> phys_inv ph"
proof -
  have "set (map mm_padr (mappings mm)) \<subseteq> managed (m_phys m)" using assms(2) by auto
  from phys.free_all [OF assms(1) this] obtain ph where
    "fold_opt (deallocate_frame X) (map mm_padr (mappings mm)) (m_phys m) = Some ph"
    "free_frames ph = free_frames (m_phys m) \<union> set (map mm_padr (mappings mm))"
    "managed ph = managed (m_phys m)" "phys_inv ph" by blast
  then show ?thesis using assms(2) by (auto simp: map_drop_pfree_all pfree_all_phys)
qed

end

section \<open>Filling frames through the temporary mapping\<close>

text \<open>Byte \<open>k\<close> of the memory made of the frames \<open>fs\<close>, one after the other.\<close>

definition frame_byte :: "nat list \<Rightarrow> memory \<Rightarrow> nat \<Rightarrow> u8" where
  "frame_byte fs pm k = pm (fs ! (k div 4096) + k mod 4096)"

definition frames_ok :: "nat list \<Rightarrow> bool" where
  "frames_ok fs \<longleftrightarrow> distinct fs \<and> (\<forall>f \<in> set fs. page_aligned f)"

lemma aligned_offset:
  assumes "page_aligned f"
  shows "(f + k mod 4096) mod 4096 = k mod 4096" "f + k mod 4096 - (f + k mod 4096) mod 4096 = f"
proof -
  show "(f + k mod 4096) mod 4096 = k mod 4096" using assms by (metis add_0 mod_add_left_eq mod_mod_trivial)
  then show "f + k mod 4096 - (f + k mod 4096) mod 4096 = f" by simp
qed

lemma frame_byte_inj:
  assumes "frames_ok fs" "j < length fs * 4096" "k < length fs * 4096"
    "fs ! (j div 4096) + j mod 4096 = fs ! (k div 4096) + k mod 4096"
  shows "j = k"
proof -
  have lt: "j div 4096 < length fs" "k div 4096 < length fs" using assms(2,3) by (simp_all add: div_less_iff_less_mult)
  then have al: "page_aligned (fs ! (j div 4096))" "page_aligned (fs ! (k div 4096))"
    using assms(1) by (simp_all add: frames_ok_def)
  have r: "j mod 4096 = k mod 4096"
    using aligned_offset(1) [OF al(1), of j] aligned_offset(1) [OF al(2), of k] unfolding assms(4) by simp
  then have "fs ! (j div 4096) = fs ! (k div 4096)" using assms(4) by linarith
  then have "j div 4096 = k div 4096"
    using nth_eq_iff_index_eq [OF _ lt] assms(1) unfolding frames_ok_def by blast
  with r show ?thesis by (metis div_mult_mod_eq)
qed

text \<open>A window on the frames: consecutive writable pages that translate to them.\<close>

definition window_on :: "x86 \<Rightarrow> machine \<Rightarrow> nat \<Rightarrow> nat list \<Rightarrow> bool" where
  "window_on X m page fs \<longleftrightarrow> page_aligned page \<and> pages page (length fs) \<inter> (m_stale m \<union> m_gstale m) = {} \<and>
     (\<forall>i<length fs. pte_frame X (pagemap X m (page + i * 4096)) = Some (fs ! i) \<and>
        WRITABLE \<in> pte_flags X (pagemap X m (page + i * 4096)))"

lemma vwrite_window:
  assumes "window_on X m page fs" "k < length fs * 4096"
  shows "vwrite X (page + k) v m pm = Some (pm(fs ! (k div 4096) + k mod 4096 := v))"
proof -
  have m: "(page + k) mod 4096 = k mod 4096"
    using assms(1) unfolding window_on_def by (metis add_0 mod_add_left_eq)
  have p: "page + k - k mod 4096 = page + k div 4096 * 4096"
    using div_mult_mod_eq [of k 4096] by linarith
  have lt: "k div 4096 < length fs" using assms(2) by (simp add: div_less_iff_less_mult)
  then have "page + k div 4096 * 4096 \<in> pages page (length fs)" by (auto simp: pages_def)
  with assms(1) lt show ?thesis
    unfolding vwrite_def Let_def m p window_on_def by (auto simp: disjoint_iff)
qed

lemma write_bytes_window:
  assumes w: "window_on X m page fs" and fs: "frames_ok fs" and len: "off + length bs \<le> length fs * 4096"
  shows "\<exists>pm'. write_bytes X (page + off) bs m pm = Some pm' \<and>
    (\<forall>k < length fs * 4096. frame_byte fs pm' k =
       (if off \<le> k \<and> k < off + length bs then bs ! (k - off) else frame_byte fs pm k)) \<and>
    (\<forall>a. a - a mod 4096 \<notin> set fs \<longrightarrow> pm' a = pm a)"
  using len
proof (induction bs rule: rev_induct)
  case Nil
  then show ?case by (auto simp: write_bytes_def)
next
  case (snoc b bs)
  then obtain pm1 where IH: "write_bytes X (page + off) bs m pm = Some pm1"
    "\<forall>k < length fs * 4096. frame_byte fs pm1 k =
       (if off \<le> k \<and> k < off + length bs then bs ! (k - off) else frame_byte fs pm k)"
    "\<forall>a. a - a mod 4096 \<notin> set fs \<longrightarrow> pm1 a = pm a" by auto
  let ?k = "off + length bs"
  have k: "?k < length fs * 4096" using snoc.prems by simp
  define pm2 where "pm2 = pm1(fs ! (?k div 4096) + ?k mod 4096 := b)"
  have "vwrite X (page + ?k) b m pm1 = Some pm2" unfolding pm2_def by (rule vwrite_window [OF w k])
  then have "write_bytes X (page + off) (bs @ [b]) m pm = Some pm2"
    using IH(1) by (simp add: write_bytes_def enumerate_append_eq fold_opt_append add.assoc)
  moreover have "frame_byte fs pm2 j = (if j = ?k then b else frame_byte fs pm1 j)" if "j < length fs * 4096" for j
    using frame_byte_inj [OF fs that k] by (auto simp: frame_byte_def pm2_def)
  then have "\<forall>j < length fs * 4096. frame_byte fs pm2 j =
      (if off \<le> j \<and> j < off + length (bs @ [b]) then (bs @ [b]) ! (j - off) else frame_byte fs pm j)"
    using IH(2) by (auto simp: nth_append)
  moreover have "pm2 a = pm a" if "a - a mod 4096 \<notin> set fs" for a
  proof -
    have lt: "?k div 4096 < length fs" using k by (simp add: div_less_iff_less_mult)
    then have "page_aligned (fs ! (?k div 4096))" using fs by (simp add: frames_ok_def)
    from aligned_offset(2) [OF this, of ?k] have "a \<noteq> fs ! (?k div 4096) + ?k mod 4096"
      using that nth_mem [OF lt] by auto
    then show ?thesis using IH(3) that by (simp add: pm2_def)
  qed
  ultimately show ?case by blast
qed

lemma moved_mono: "moved X W E k m m' \<Longrightarrow> E \<subseteq> E' \<Longrightarrow> k \<le> k' \<Longrightarrow> moved X W E' k' m m'"
  unfolding moved_def by (auto intro: order_trans)

definition tmp_page :: "nat \<Rightarrow> nat" where
  "tmp_page core = TMP_TASKLDMAP + core * TMP_TASK_SIZE_PER_PROC"

text \<open>The number of pages of a core's part of the temporary mapping, and one more.\<close>

definition tmp_pages :: nat where
  "tmp_pages = 2 ^ 23 + 1"

lemma tmp_range_ok: "core < 256 \<Longrightarrow> n \<le> tmp_pages \<Longrightarrow> range_ok (tmp_page core) n"
  "core < 256 \<Longrightarrow> KVMSPACE + VCACHE_SIZE \<le> tmp_page core"
  by (simp_all add: range_ok_def tmp_page_def tmp_pages_def TMP_TASKLDMAP_def TMP_TASK_SIZE_PER_PROC_def KVMSPACE_def)

context x86_crate
begin

lemma tmp_reserve_ok:
  assumes inv: "mp_inv X m" "2 \<le> vc_room (m_vcache m)" and core: "core < 256" and fs: "length fs \<le> tmp_pages"
    and po: "\<forall>a \<in> pages (tmp_page core) tmp_pages. path_ok X m a" and card: "3 * length fs \<le> card (free_frames (m_phys m))"
    and al: "\<forall>f \<in> set fs. page_aligned f \<and> f + 4096 \<le> 2 ^ 52" and off: "off < 4096"
  shows "\<exists>m'. tmp_local_reserve X core off fs m = Some (tmp_page core + off, m') \<and> mp_inv X m' \<and>
    moved X {} (slots X (pages (tmp_page core) tmp_pages)) (3 * length fs) m m' \<and>
    window_on X m' (tmp_page core) fs"
proof -
  note r = tmp_range_ok(1) [OF core fs]
  have sub: "pages (tmp_page core) (length fs) \<subseteq> pages (tmp_page core) tmp_pages"
    using fs by (auto simp: pages_def)
  have po': "\<forall>a \<in> pages (tmp_page core) (length fs). path_ok X m a" using po sub by blast
  obtain m' where m': "vmap_many X (tmp_page core) fs {WRITABLE} m = Some m'" "mp_inv X m'"
    "moved X {} (slots X (pages (tmp_page core) (length fs))) (3 * length fs) m m'"
    "\<forall>i<length fs. pte_frame X (pagemap X m' (tmp_page core + i * 4096)) = Some (fs ! i) \<and>
       pte_flags X (pagemap X m' (tmp_page core + i * 4096)) = page_flags (tmp_page core) {WRITABLE}"
    "pages (tmp_page core) (length fs) \<inter> (m_stale m' \<union> m_gstale m') = {}"
    using vmap_many_ok [OF inv r _ _ _ card al, of "{WRITABLE}"] tmp_range_ok(2) [OF core] po' by auto
  have "window_on X m' (tmp_page core) fs"
    using m'(4,5) r by (simp add: window_on_def range_ok_def page_flags_def)
  moreover have "slots X (pages (tmp_page core) (length fs)) \<subseteq> slots X (pages (tmp_page core) tmp_pages)"
    using sub by (auto simp: slots_def)
  then have "moved X {} (slots X (pages (tmp_page core) tmp_pages)) (3 * length fs) m m'"
    by (rule moved_mono [OF m'(3)]) simp
  moreover have "tmp_local_reserve X core off fs m = Some (tmp_page core + off, m')"
  proof -
    have b: "core * TMP_TASK_SIZE_PER_PROC < 2 ^ 64" "canonical (tmp_page core)" "page_aligned (tmp_page core)"
        "tmp_page core + off < 2 ^ 64"
      using core off by (simp_all add: tmp_page_def canonical_def TMP_TASKLDMAP_def TMP_TASK_SIZE_PER_PROC_def KVMSPACE_def)
    then show ?thesis
      using m'(1) unfolding tmp_local_reserve_def tmp_page_def
      by (simp add: mul64_def add64_def crate_eqs)
  qed
  ultimately show ?thesis using m'(2) by (intro exI [of _ m']) simp
qed

end

section \<open>Applying a map\<close>

text \<open>When a page is mapped twice the later mapping counts.\<close>

definition map_lookup :: "MemoryMapping list \<Rightarrow> nat \<Rightarrow> MemoryMapping option" where
  "map_lookup ms a = List.find (\<lambda>mp. mm_vadr mp = a) (rev ms)"

lemma map_lookup_snoc: "map_lookup (ms @ [mp]) a = (if mm_vadr mp = a then Some mp else map_lookup ms a)"
  by (simp add: map_lookup_def)

lemma map_lookup_None: "map_lookup ms a = None \<longleftrightarrow> a \<notin> mm_vadr ` set ms"
  by (auto simp: map_lookup_def find_None_iff)

text \<open>Mappings of single pages below the kernel half.\<close>

definition user_maps :: "MemoryMapping list \<Rightarrow> bool" where
  "user_maps ms \<longleftrightarrow> (\<forall>mp \<in> set ms. mm_n mp = 1 \<and> page_aligned (mm_vadr mp) \<and> mm_vadr mp + 4096 \<le> 2 ^ 47 \<and>
     page_aligned (mm_padr mp) \<and> mm_padr mp + 4096 \<le> 2 ^ 52 \<and> HUGE_PAGE \<notin> mm_flags mp)"

abbreviation apply_all :: "x86 \<Rightarrow> MemoryMapping list \<Rightarrow> machine \<Rightarrow> machine option" where
  "apply_all X \<equiv> fold_opt (\<lambda>mp m. do { r \<leftarrow> mapping_apply X mp m; unwrap_ok r })"

definition apply_post :: "x86 \<Rightarrow> MemoryMapping list \<Rightarrow> machine \<Rightarrow> machine \<Rightarrow> bool" where
  "apply_post X ms m m' \<longleftrightarrow> mp_inv X m' \<and> moved X {} (slots X (mm_vadr ` set ms)) (3 * length ms) m m' \<and>
     (\<forall>a mp. map_lookup ms a = Some mp \<longrightarrow> pte_frame X (pagemap X m' a) = Some (mm_padr mp) \<and>
        pte_flags X (pagemap X m' a) = mm_flags mp \<union> {PRESENT}) \<and>
     mm_vadr ` set ms \<inter> (m_stale m' \<union> m_gstale m') = {}"

context x86_crate
begin

lemma slots_other:
  assumes "\<forall>a \<in> A. range_ok a 1" "canonical b" "page_aligned b" "b \<notin> A"
  shows "(path X b, p1_index X b) \<notin> slots X A"
proof
  assume "(path X b, p1_index X b) \<in> slots X A"
  then obtain a where a: "a \<in> A" "(path X b, p1_index X b) \<in> slots X {a}" by (auto simp: slots_def)
  moreover have "b \<notin> pages a 1" using a(1) assms(4) by auto
  ultimately show False using slot_pages [of a 1 b] assms(1-3) by simp
qed

lemma user_map_range: "user_maps ms \<Longrightarrow> mp \<in> set ms \<Longrightarrow> range_ok (mm_vadr mp) 1"
  by (auto simp: user_maps_def range_ok_def)

lemma apply_ok:
  assumes "mp_inv X m" "2 \<le> vc_room (m_vcache m)" "user_maps ms"
    "\<forall>mp \<in> set ms. path_ok X m (mm_vadr mp)" "3 * length ms \<le> card (free_frames (m_phys m))"
  shows "\<exists>m'. apply_all X ms m = Some m' \<and> apply_post X ms m m'"
  using assms
proof (induction ms rule: rev_induct)
  case Nil
  then show ?case by (simp add: apply_post_def map_lookup_def moved_refl)
next
  case (snoc mp ms)
  let ?A = "mm_vadr ` set ms" and ?a = "mm_vadr mp"
  have um: "user_maps ms" "mm_n mp = 1" "page_aligned ?a" "?a + 4096 \<le> 2 ^ 47"
      "page_aligned (mm_padr mp)" "mm_padr mp + 4096 \<le> 2 ^ 52" "HUGE_PAGE \<notin> mm_flags mp"
    using snoc.prems(3) by (simp_all add: user_maps_def)
  obtain m1 where m1: "apply_all X ms m = Some m1" and post: "apply_post X ms m m1"
    using snoc.IH [OF snoc.prems(1,2) um(1)] snoc.prems(4,5) by auto
  note P = post [unfolded apply_post_def]
  then have mv1: "moved X {} (slots X ?A) (3 * length ms) m m1" by simp
  have r: "range_ok ?a 1" using um by (simp add: range_ok_def)
  have low: "\<not> KVMSPACE \<le> ?a" using um(4) by (simp add: KVMSPACE_def)
  have "map_pre X ?a (mm_padr mp) 1 (mm_flags mp) m1"
    unfolding map_pre_def
  proof (intro conjI)
    show "2 \<le> vc_room (m_vcache m1)" using snoc.prems(2) mv1 by (simp add: moved_def)
    show "\<forall>b \<in> pages ?a 1. path_ok X m1 b" using snoc.prems(4) mv1 by (simp add: moved_def)
    show "3 * 1 \<le> card (free_frames (m_phys m1))" using snoc.prems(5) mv1 by (simp add: moved_def)
  qed (use um r low P in simp_all)
  from vmap_page_ok [OF this] obtain m2 where v: "vmap X ?a (mm_padr mp) 4096 (mm_flags mp) m1 = Some (Inr (), m2)"
    "map_post X ?a (mm_padr mp) 1 (mm_flags mp) m1 m2" by blast
  note Q = v(2) [unfolded map_post_def]
  then have mv2: "moved X {} (slots X {?a}) 3 m1 m2" by simp
  have "apply_all X (ms @ [mp]) m = Some m2"
    using m1 v(1) um(2) by (simp add: fold_opt_append mapping_apply_def mul64_def unwrap_ok_def)
  moreover have "apply_post X (ms @ [mp]) m m2"
    unfolding apply_post_def
  proof (intro conjI)
    have "slots X ?A \<union> slots X {?a} = slots X (mm_vadr ` set (ms @ [mp]))" by (auto simp: slots_def)
    with moved_trans [OF mv1 mv2]
    show "moved X {} (slots X (mm_vadr ` set (ms @ [mp]))) (3 * length (ms @ [mp])) m m2"
      by (simp add: add.commute)
    have "pagemap X m2 b = pagemap X m1 b" if b: "b \<in> ?A" "b \<noteq> ?a" for b
    proof (rule pagemap_moved [OF mv2 slots_other])
      obtain mp' where "mp' \<in> set ms" "b = mm_vadr mp'" using b(1) by auto
      with um(1) show "canonical b" "page_aligned b" by (auto simp: user_maps_def canonical_def)
    qed (use r b(2) in auto)
    moreover have "page_flags ?a (mm_flags mp) = mm_flags mp \<union> {PRESENT}" using low by (simp add: page_flags_def)
    moreover have "map_lookup ms b = Some mp' \<Longrightarrow> b \<in> ?A" for b mp'
      using map_lookup_None [of ms b] by (cases "b \<in> ?A") auto
    ultimately show "\<forall>a mp'. map_lookup (ms @ [mp]) a = Some mp' \<longrightarrow>
        pte_frame X (pagemap X m2 a) = Some (mm_padr mp') \<and> pte_flags X (pagemap X m2 a) = mm_flags mp' \<union> {PRESENT}"
      using P Q by (auto simp: map_lookup_snoc)
    have "?A \<inter> (m_stale m1 \<union> m_gstale m1) = {}" using P by simp
    moreover have "m_stale m2 \<subseteq> m_stale m1" "m_gstale m2 \<subseteq> m_gstale m1" "?a \<notin> m_stale m2 \<union> m_gstale m2"
      using Q by (auto simp: detailed_def)
    ultimately show "mm_vadr ` set (ms @ [mp]) \<inter> (m_stale m2 \<union> m_gstale m2) = {}" by auto
  qed (use Q in simp)
  ultimately show ?case by blast
qed

end

lemma fold_allocate_id:
  "fold_ret (allocate_step X vadr flags) is (fs, mm, m) = Some r \<Longrightarrow>
   (case r of Inl (mm', m') \<Rightarrow> map_id mm' = map_id mm | Inr (fs', mm', m') \<Rightarrow> map_id mm' = map_id mm)"
proof (induction "is" arbitrary: fs mm m)
  case (Cons i "is")
  show ?case
  proof (cases "allocate_step X vadr flags i (fs, mm, m)")
    case (Some r1)
    then have "case r1 of Inl (mm', m') \<Rightarrow> map_id mm' = map_id mm | Inr (fs', mm', m') \<Rightarrow> map_id mm' = map_id mm"
      by (auto simp: allocate_step_def add_raw_def rust_simps Let_def split: option.splits if_splits)
    with Some Cons.prems Cons.IH show ?thesis
      by (cases r1) (fastforce split: sum.splits)+
  qed (use Cons.prems in simp)
qed auto

lemma allocate_id: "allocate X vadr n flags mm m = Some (r, mm', m') \<Longrightarrow> map_id mm' = map_id mm"
  using fold_allocate_id [of X vadr flags "[0..<n]" "[]" mm m]
  by (auto simp: allocate_def split: option.splits sum.splits)

section \<open>Properties\<close>

text \<open>
  C31. Applying a map. On a core where another map is active, \<open>MemoryMap::apply\<close> does not panic
  when there are three free frames per page for tables; afterwards every page of the map
  translates to the frame of its last mapping with the flags of that mapping, no translation of
  these pages is stale, every other page translates as before, and the map is the active one.
\<close>

theorem map_apply_maps:
  assumes "x86_crate X" and "mp_inv X m" and "2 \<le> vc_room (m_vcache m)" and "user_maps (mappings mm)"
    and "\<forall>mp \<in> set (mappings mm). path_ok X m (mm_vadr mp)"
    and "3 * length (mappings mm) \<le> card (free_frames (m_phys m))"
    and "active_mapping pinfo \<noteq> Some (map_id mm)"
  shows "\<exists>m'. map_apply X mm (pinfo, m) = Some (pinfo\<lparr>active_mapping := Some (map_id mm)\<rparr>, m') \<and> mp_inv X m' \<and>
    (\<forall>a mp. map_lookup (mappings mm) a = Some mp \<longrightarrow> pte_frame X (pagemap X m' a) = Some (mm_padr mp) \<and>
       pte_flags X (pagemap X m' a) = mm_flags mp \<union> {PRESENT} \<and> a \<notin> m_stale m' \<union> m_gstale m') \<and>
    (\<forall>b. canonical b \<and> page_aligned b \<and> map_lookup (mappings mm) b = None \<longrightarrow> pagemap X m' b = pagemap X m b)"
proof -
  obtain m' where m': "apply_all X (mappings mm) m = Some m'" "apply_post X (mappings mm) m m'"
    using x86_crate.apply_ok [OF assms(1-6)] by blast
  note P = m'(2) [unfolded apply_post_def]
  then have mv: "moved X {} (slots X (mm_vadr ` set (mappings mm))) (3 * length (mappings mm)) m m'" by simp
  have "\<forall>a \<in> mm_vadr ` set (mappings mm). range_ok a 1"
    using x86_crate.user_map_range [OF assms(1,4)] by blast
  then have other: "pagemap X m' b = pagemap X m b"
    if "canonical b \<and> page_aligned b \<and> map_lookup (mappings mm) b = None" for b
    using x86_crate.pagemap_moved [OF assms(1) mv x86_crate.slots_other [OF assms(1)]] that
    by (simp add: map_lookup_None)
  have fresh: "a \<notin> m_stale m' \<union> m_gstale m'" if "map_lookup (mappings mm) a = Some mp" for a mp
    using P that map_lookup_None [of "mappings mm" a] by (auto simp: disjoint_iff)
  have "map_apply X mm (pinfo, m) = Some (pinfo\<lparr>active_mapping := Some (map_id mm)\<rparr>, m')"
    using m'(1) assms(7) by (simp add: map_apply_def)
  with P other fresh show ?thesis by (intro exI [of _ m']) blast
qed

definition demo_pinfo :: ProcInfo where
  "demo_pinfo = \<lparr>proc_id = 0, tick_miss = 0, current_task = None, basic = \<lparr>save_user_rsp = 0, kernel_rsp = 0\<rparr>,
     schedule_quantum = 0, active_mapping = None\<rparr>"

definition demo_map :: MemoryMap where
  "demo_map = MemoryMap_new\<lparr>mappings := frame_maps 0x400000 {USER_ACCESSIBLE} [0x300000]\<rparr>"

theorem map_apply_maps_witness:
  "\<exists>m'. map_apply x86_ref demo_map (demo_pinfo, big_machine) = Some (demo_pinfo\<lparr>active_mapping := Some 0\<rparr>, m') \<and>
     pte_frame x86_ref (pagemap x86_ref m' 0x400000) = Some 0x300000"
proof -
  have ms: "mappings demo_map = [\<lparr>mm_vadr = 0x400000, mm_padr = 0x300000, mm_n = 1,
      mm_flags = {USER_ACCESSIBLE}, mm_allocated = True\<rparr>]" "map_id demo_map = 0"
    by (simp_all add: demo_map_def frame_maps_def MemoryMap_new_def ID_COUNT_def)
  have "user_maps (mappings demo_map)" by (simp add: ms user_maps_def)
  from map_apply_maps [OF ref.x86_crate_axioms big_machine_inv _ this, of demo_pinfo]
  show ?thesis
    using demo_vc_map(5) big_free_frames(1)
    by (auto simp: ms big_path_ok demo_pinfo_def map_lookup_def)
qed



text \<open>
  C32. All or nothing. Allocating \<open>n\<close> pages succeeds exactly when \<open>n\<close> frames are free; then it
  takes \<open>n\<close> distinct free frames and enters them at consecutive pages. Otherwise it returns
  \<open>None\<close> and the free frames are those that were free before.
\<close>

theorem allocate_all_or_nothing:
  assumes "x86_crate X" and "phys_inv (m_phys m)" and "range_ok vadr n"
  shows "\<exists>r mm' m'. allocate X vadr n flags mm m = Some (r, mm', m') \<and> phys_inv (m_phys m') \<and>
    (case r of
       Some fs \<Rightarrow> n \<le> card (free_frames (m_phys m)) \<and> length fs = n \<and> distinct fs \<and>
         set fs \<subseteq> free_frames (m_phys m) \<and> free_frames (m_phys m') = free_frames (m_phys m) - set fs \<and>
         mappings mm' = mappings mm @ frame_maps vadr flags fs
     | None \<Rightarrow> card (free_frames (m_phys m)) < n \<and> free_frames (m_phys m') = free_frames (m_phys m))"
proof (cases "n \<le> card (free_frames (m_phys m))")
  case True
  with x86_crate.allocate_ok [OF assms(1,2) True assms(3), of flags mm] show ?thesis by fastforce
next
  case False
  with x86_crate.allocate_fails [OF assms(1,2) _ assms(3), of flags mm] show ?thesis by fastforce
qed

theorem allocate_all_or_nothing_witness:
  "\<exists>r mm' m'. allocate x86_ref 0x400000 1001 {} MemoryMap_new big_machine = Some (r, mm', m') \<and> r = None \<and>
     free_frames (m_phys m') = free_frames big_pfa"
proof -
  have "range_ok 0x400000 1001" by (simp add: range_ok_def)
  from allocate_all_or_nothing [OF ref.x86_crate_axioms _ this, of big_machine "{}" MemoryMap_new]
  show ?thesis using big_pfa_inv big_free_frames(1) by (auto split: option.splits)
qed

end
