(* ===== verification/Elf.thy ===== *)
theory Elf
  imports X86_Crate Bytes
begin

text \<open>
  The ELF reader, \<open>kernel/src/elf.rs\<close>. A file is a range of memory: the packed structures of
  the source are read in place, at the offsets their declarations give, little endian as the
  processor reads them, and a pointer past the end of the file reads whatever is there. The
  enumerations \<open>Class\<close>, \<open>Endian\<close> and \<open>ProgramType\<close> are kept as the numbers in memory; the
  code only compares them.
\<close>

section \<open>The structures\<close>

record FileHeader =
  eh_magic :: "u8 list"
  eh_class :: nat
  eh_endian :: nat
  eh_idversion :: nat
  eh_ftype :: nat
  eh_machine :: nat
  eh_version :: nat
  eh_entry :: nat
  eh_phoff :: nat
  eh_shoff :: nat
  eh_flags :: nat
  eh_ehsize :: nat
  eh_phent_size :: nat
  eh_pht_len :: nat
  eh_shent_size :: nat
  eh_sht_len :: nat
  eh_shstridx :: nat

definition read_FileHeader :: "memory \<Rightarrow> nat \<Rightarrow> FileHeader" where
  "read_FileHeader mem a = \<lparr>eh_magic = bytes mem a 4, eh_class = rd mem 1 (a + 4), eh_endian = rd mem 1 (a + 5),
     eh_idversion = rd mem 1 (a + 6), eh_ftype = rd mem 2 (a + 16), eh_machine = rd mem 2 (a + 18),
     eh_version = rd mem 4 (a + 20), eh_entry = rd mem 8 (a + 24), eh_phoff = rd mem 8 (a + 32),
     eh_shoff = rd mem 8 (a + 40), eh_flags = rd mem 4 (a + 48), eh_ehsize = rd mem 2 (a + 52),
     eh_phent_size = rd mem 2 (a + 54), eh_pht_len = rd mem 2 (a + 56), eh_shent_size = rd mem 2 (a + 58),
     eh_sht_len = rd mem 2 (a + 60), eh_shstridx = rd mem 2 (a + 62)\<rparr>"

definition Class64 :: nat where "Class64 = 2"

definition LeastSignificantByte :: nat where "LeastSignificantByte = 1"

definition id_verify :: "FileHeader \<Rightarrow> bool" where
  "id_verify h \<longleftrightarrow> eh_magic h = [0x7f, 0x45, 0x4c, 0x46] \<and> eh_class h = Class64 \<and>
     eh_endian h = LeastSignificantByte \<and> eh_idversion h = 1"

definition verify :: "x86 \<Rightarrow> FileHeader \<Rightarrow> bool" where
  "verify X h \<longleftrightarrow> id_verify h \<and> eh_version h = 1 \<and> virt_try_new X (eh_entry h) \<noteq> None"

definition entrypoint :: "x86 \<Rightarrow> FileHeader \<Rightarrow> nat" where
  "entrypoint X h = virt_new_truncate X (eh_entry h)"

record ElfFile =
  ef_adr :: nat
  ef_header :: FileHeader
  ef_size :: nat

definition parse :: "x86 \<Rightarrow> memory \<Rightarrow> nat \<Rightarrow> nat \<Rightarrow> ElfFile option option" where
  "parse X mem content len = do {
     _ \<leftarrow> rassert (content \<noteq> 0);
     let r = read_FileHeader mem content;
     if \<not> verify X r then Some None
     else Some (Some \<lparr>ef_adr = content, ef_header = r, ef_size = len\<rparr>) }"

text \<open>The part of the file at an offset, as the address where it starts and its length.\<close>

definition slice :: "ElfFile \<Rightarrow> nat \<Rightarrow> nat \<Rightarrow> (nat \<times> nat) option option" where
  "slice elf offset n = do {
     end \<leftarrow> add64 offset n;
     if ef_size elf < end then Some None
     else Some (Some (ef_adr elf + offset, n)) }"

record ProgramHeader =
  ph_ptype :: nat
  ph_flags :: nat
  ph_offset :: nat
  ph_vadr :: nat
  ph_padr :: nat
  ph_file_size :: nat
  ph_mem_size :: nat
  ph_align :: nat

definition read_ProgramHeader :: "memory \<Rightarrow> nat \<Rightarrow> ProgramHeader" where
  "read_ProgramHeader mem a = \<lparr>ph_ptype = rd mem 4 a, ph_flags = rd mem 4 (a + 4), ph_offset = rd mem 8 (a + 8),
     ph_vadr = rd mem 8 (a + 16), ph_padr = rd mem 8 (a + 24), ph_file_size = rd mem 8 (a + 32),
     ph_mem_size = rd mem 8 (a + 40), ph_align = rd mem 8 (a + 48)\<rparr>"

definition PT_Load :: nat where "PT_Load = 1"

definition writable :: "ProgramHeader \<Rightarrow> bool" where
  "writable p \<longleftrightarrow> (word_of_nat (ph_flags p) :: u32) AND 2 \<noteq> 0"

definition memory_flags :: "ProgramHeader \<Rightarrow> pflags" where
  "memory_flags p = (let flags = {} in if writable p then flags \<union> {WRITABLE} else flags)"

text \<open>
  \<open>ProgramHeaderIterator::next\<close>: \<open>Some None\<close> at the end, otherwise the header and the
  iterator's next index.
\<close>

definition iter_next :: "memory \<Rightarrow> ElfFile \<Rightarrow> nat \<Rightarrow> (ProgramHeader \<times> nat) option option" where
  "iter_next mem elf index =
     (if eh_pht_len (ef_header elf) \<le> index then Some None
      else do {
        off \<leftarrow> mul64 index (eh_phent_size (ef_header elf));
        a \<leftarrow> add64 (ef_adr elf) (eh_phoff (ef_header elf));
        p \<leftarrow> add64 a off;
        _ \<leftarrow> rassert (p \<noteq> 0);
        index' \<leftarrow> add64 index 1;
        Some (Some (read_ProgramHeader mem p, index')) })"

lemma iter_next_step:
  "iter_next mem elf index = Some (Some (p, index')) \<Longrightarrow> index < eh_pht_len (ef_header elf) \<and> index' = index + 1"
  by (auto simp: iter_next_def rust_simps split: if_splits)

text \<open>A \<open>for\<close> loop over the headers, with the body's early return as the left of a sum.\<close>

function for_headers :: "memory \<Rightarrow> ElfFile \<Rightarrow> (ProgramHeader \<Rightarrow> 's \<Rightarrow> ('r + 's) option) \<Rightarrow> nat \<Rightarrow> 's \<Rightarrow> ('r + 's) option" where
  "for_headers mem elf body index s =
     (case iter_next mem elf index of
        None \<Rightarrow> None
      | Some None \<Rightarrow> Some (Inr s)
      | Some (Some (p, index')) \<Rightarrow>
          (case body p s of
             None \<Rightarrow> None
           | Some (Inl r) \<Rightarrow> Some (Inl r)
           | Some (Inr s') \<Rightarrow> for_headers mem elf body index' s'))"
  by pat_completeness auto

termination
  by (relation "measure (\<lambda>(mem, elf, body, index, s). eh_pht_len (ef_header elf) - index)")
    (auto dest: iter_next_step)

declare for_headers.simps [simp del]

section \<open>The loop over the program headers\<close>

definition headers_from :: "memory \<Rightarrow> ElfFile \<Rightarrow> nat \<Rightarrow> ProgramHeader list" where
  "headers_from mem elf i =
     map (\<lambda>j. read_ProgramHeader mem (ef_adr elf + eh_phoff (ef_header elf) + j * eh_phent_size (ef_header elf)))
       [i..<eh_pht_len (ef_header elf)]"

text \<open>The program header table lies in the address space.\<close>

definition table_ok :: "ElfFile \<Rightarrow> bool" where
  "table_ok elf \<longleftrightarrow> 0 < ef_adr elf \<and>
     ef_adr elf + eh_phoff (ef_header elf) + eh_pht_len (ef_header elf) * eh_phent_size (ef_header elf) < 2 ^ 64 \<and>
     eh_pht_len (ef_header elf) < 2 ^ 16"

lemma for_headers_fold:
  assumes "table_ok elf"
  shows "for_headers mem elf body i s = fold_ret body (headers_from mem elf i) s"
proof (induction "eh_pht_len (ef_header elf) - i" arbitrary: i s)
  case 0
  then show ?case
    by (subst for_headers.simps) (simp add: iter_next_def headers_from_def)
next
  case (Suc k)
  let ?h = "ef_header elf" and ?n = "eh_pht_len (ef_header elf)"
  have i: "i < ?n" and k: "k = ?n - Suc i" using Suc.hyps(2) by simp_all
  have "i * eh_phent_size ?h \<le> ?n * eh_phent_size ?h" using i by (intro mult_right_mono) auto
  then have lt: "ef_adr elf + eh_phoff ?h + i * eh_phent_size ?h < 2 ^ 64"
      "ef_adr elf + eh_phoff ?h < 2 ^ 64" "i * eh_phent_size ?h < 2 ^ 64"
    using assms unfolding table_ok_def by linarith+
  have "iter_next mem elf i = Some (Some (read_ProgramHeader mem
      (ef_adr elf + eh_phoff ?h + i * eh_phent_size ?h), Suc i))"
    using assms i lt by (simp add: iter_next_def table_ok_def mul64_def add64_def)
  moreover have "headers_from mem elf i =
      read_ProgramHeader mem (ef_adr elf + eh_phoff ?h + i * eh_phent_size ?h) # headers_from mem elf (Suc i)"
    using i by (simp add: headers_from_def upt_rec [of i])
  ultimately show ?case
    by (subst for_headers.simps) (simp add: Suc.hyps(1) [OF k] cong: option.case_cong sum.case_cong)
qed

section \<open>The file header as bytes\<close>

definition header_bytes_of :: "FileHeader \<Rightarrow> u8 list \<Rightarrow> u8 list" where
  "header_bytes_of h pad =
     eh_magic h @ to_le 1 (eh_class h) @ to_le 1 (eh_endian h) @ to_le 1 (eh_idversion h) @ pad @
     to_le 2 (eh_ftype h) @ to_le 2 (eh_machine h) @ to_le 4 (eh_version h) @ to_le 8 (eh_entry h) @
     to_le 8 (eh_phoff h) @ to_le 8 (eh_shoff h) @ to_le 4 (eh_flags h) @ to_le 2 (eh_ehsize h) @
     to_le 2 (eh_phent_size h) @ to_le 2 (eh_pht_len h) @ to_le 2 (eh_shent_size h) @
     to_le 2 (eh_sht_len h) @ to_le 2 (eh_shstridx h)"

text \<open>The widths of the fields.\<close>

definition header_ok :: "FileHeader \<Rightarrow> bool" where
  "header_ok h \<longleftrightarrow> length (eh_magic h) = 4 \<and> eh_class h < 256 \<and> eh_endian h < 256 \<and> eh_idversion h < 256 \<and>
     eh_ftype h < 2 ^ 16 \<and> eh_machine h < 2 ^ 16 \<and> eh_version h < 2 ^ 32 \<and> eh_entry h < 2 ^ 64 \<and>
     eh_phoff h < 2 ^ 64 \<and> eh_shoff h < 2 ^ 64 \<and> eh_flags h < 2 ^ 32 \<and> eh_ehsize h < 2 ^ 16 \<and>
     eh_phent_size h < 2 ^ 16 \<and> eh_pht_len h < 2 ^ 16 \<and> eh_shent_size h < 2 ^ 16 \<and>
     eh_sht_len h < 2 ^ 16 \<and> eh_shstridx h < 2 ^ 16"

lemma sign_extend47_canonical: "canonical a \<Longrightarrow> sign_extend47 a = a"
proof -
  assume "canonical a"
  then consider "a < 2 ^ 47" | "2 ^ 64 - 2 ^ 47 \<le> a" "a < 2 ^ 64" by (auto simp: canonical_def)
  then show ?thesis
  proof cases
    case 1
    then show ?thesis by (simp add: sign_extend47_def)
  next
    case 2
    define k where "k = a - (2 ^ 64 - 2 ^ 48)"
    have a: "a = k + 2 ^ 48 * (2 ^ 16 - 1)" "k < 2 ^ 48" "2 ^ 47 \<le> k" using 2 by (auto simp: k_def)
    then have "a mod 2 ^ 48 = k" by (simp only: mod_mult_self2 mod_less)
    with a show ?thesis by (simp add: sign_extend47_def)
  qed
qed

lemma read_header_bytes:
  assumes "header_ok h" and "length pad = 9" and "bytes mem a 64 = header_bytes_of h pad"
  shows "read_FileHeader mem a = h"
proof -
  note ok = assms(1) [unfolded header_ok_def]
  have len: "length (header_bytes_of h pad) = 64"
    using ok assms(2) by (simp add: header_bytes_of_def)
  have "bytes mem a (length (header_bytes_of h pad)) = header_bytes_of h pad"
    using assms(3) len by simp
  then have "bytes mem a 4 = eh_magic h" "bytes mem (a + 4) 1 = to_le 1 (eh_class h)"
    "bytes mem (a + 5) 1 = to_le 1 (eh_endian h)" "bytes mem (a + 6) 1 = to_le 1 (eh_idversion h)"
    "bytes mem (a + 16) 2 = to_le 2 (eh_ftype h)" "bytes mem (a + 18) 2 = to_le 2 (eh_machine h)"
    "bytes mem (a + 20) 4 = to_le 4 (eh_version h)" "bytes mem (a + 24) 8 = to_le 8 (eh_entry h)"
    "bytes mem (a + 32) 8 = to_le 8 (eh_phoff h)" "bytes mem (a + 40) 8 = to_le 8 (eh_shoff h)"
    "bytes mem (a + 48) 4 = to_le 4 (eh_flags h)" "bytes mem (a + 52) 2 = to_le 2 (eh_ehsize h)"
    "bytes mem (a + 54) 2 = to_le 2 (eh_phent_size h)" "bytes mem (a + 56) 2 = to_le 2 (eh_pht_len h)"
    "bytes mem (a + 58) 2 = to_le 2 (eh_shent_size h)" "bytes mem (a + 60) 2 = to_le 2 (eh_sht_len h)"
    "bytes mem (a + 62) 2 = to_le 2 (eh_shstridx h)"
    using ok assms(2) unfolding header_bytes_of_def bytes_split
    by (simp_all only: length_to_le add.assoc) (simp_all del: to_le.simps)
  with ok show ?thesis
    by (simp add: read_FileHeader_def rd_to_le del: to_le.simps)
qed

section \<open>Properties\<close>

definition demo_header :: FileHeader where
  "demo_header = \<lparr>eh_magic = [0x7f, 0x45, 0x4c, 0x46], eh_class = 2, eh_endian = 1, eh_idversion = 1,
     eh_ftype = 2, eh_machine = 62, eh_version = 1, eh_entry = 0x401000, eh_phoff = 64, eh_shoff = 0,
     eh_flags = 0, eh_ehsize = 64, eh_phent_size = 56, eh_pht_len = 1, eh_shent_size = 0, eh_sht_len = 0,
     eh_shstridx = 0\<rparr>"

definition demo_mem :: memory where
  "demo_mem a = (if a < 64 then 0 else
     if a < 128 then header_bytes_of demo_header (replicate 9 0) ! (a - 64) else 0)"

lemma demo_header_ok: "header_ok demo_header"
  by (simp add: header_ok_def demo_header_def)

lemma demo_mem_bytes: "bytes demo_mem 64 64 = header_bytes_of demo_header (replicate 9 0)"
proof (rule nth_equalityI)
  show "length (bytes demo_mem 64 64) = length (header_bytes_of demo_header (replicate 9 0))"
    by (simp add: header_bytes_of_def demo_header_def del: to_le.simps)
qed (simp add: demo_mem_def)

text \<open>
  C38. Reading a file header inverts writing it: whatever the addresses and the padding, the
  bytes of a header laid out as the packed structure declares them are read back field by
  field.
\<close>

theorem FileHeader_roundtrip:
  assumes "header_ok h" and "length pad = 9" and "bytes mem a 64 = header_bytes_of h pad"
  shows "read_FileHeader mem a = h"
  by (rule read_header_bytes [OF assms])

theorem FileHeader_roundtrip_witness: "read_FileHeader demo_mem 64 = demo_header"
  using FileHeader_roundtrip [OF demo_header_ok _ demo_mem_bytes] by simp



text \<open>
  C29. The iterator over the program headers is the table. With a table that lies in the
  address space, a \<open>for\<close> loop over \<open>iter_progheader\<close> ends and runs its body on the headers of
  the table, each once and in order, until the body returns.
\<close>

theorem iter_progheader_table:
  assumes "table_ok elf"
  shows "for_headers mem elf body 0 s =
    fold_ret body (map (\<lambda>j. read_ProgramHeader mem
      (ef_adr elf + eh_phoff (ef_header elf) + j * eh_phent_size (ef_header elf)))
      [0..<eh_pht_len (ef_header elf)]) s"
  using for_headers_fold [OF assms] unfolding headers_from_def .

theorem iter_progheader_table_witness:
  "for_headers demo_mem \<lparr>ef_adr = 64, ef_header = demo_header, ef_size = 200\<rparr>
     (\<lambda>p n. Some (Inr (n + 1) :: nat + nat)) 0 (5::nat) = Some (Inr 6)"
proof -
  have "table_ok \<lparr>ef_adr = 64, ef_header = demo_header, ef_size = 200\<rparr>"
    by (simp add: table_ok_def demo_header_def)
  from iter_progheader_table [OF this, of demo_mem "\<lambda>p n. Some (Inr (n + 1))" "5::nat"] show ?thesis
    by (simp add: demo_header_def)
qed

end
