(* ===== verification/Context.thy ===== *)
theory Context
  imports Prelude
begin

text \<open>
  The state of a task's processor, \<open>TaskProcState\<close> of \<open>kernel/src/proc/task.rs\<close>, and the
  assembly that saves and restores it: \<open>timer_inter_1\<close> of \<open>kernel/src/interrupts/lapic/timer.asm\<close>,
  \<open>syscall_handle_1\<close> of \<open>kernel/src/proc/syscall.asm\<close> and \<open>TaskProcState::apply\<close>. The
  instructions these routines use have a small interpreter; memory is read and written in
  64-bit words, all at addresses that differ by multiples of eight.
\<close>

section \<open>The saved state\<close>

record TaskProcState =
  ts_rip :: u64
  ts_rflags :: u64
  ts_code_seg :: u64
  ts_data_seg :: u64
  ts_rsp :: u64
  ts_rbp :: u64
  ts_rsi :: u64
  ts_rdi :: u64
  ts_r8 :: u64
  ts_r9 :: u64
  ts_r10 :: u64
  ts_r11 :: u64
  ts_r12 :: u64
  ts_r13 :: u64
  ts_r14 :: u64
  ts_r15 :: u64
  ts_rax :: u64
  ts_rbx :: u64
  ts_rcx :: u64
  ts_rdx :: u64

text \<open>The packed structure as it lies in memory, field by field.\<close>

definition read_state :: "(u64 \<Rightarrow> u64) \<Rightarrow> u64 \<Rightarrow> TaskProcState" where
  "read_state w a = \<lparr>ts_rip = w a, ts_rflags = w (a + 8), ts_code_seg = w (a + 16),
     ts_data_seg = w (a + 24), ts_rsp = w (a + 32), ts_rbp = w (a + 40), ts_rsi = w (a + 48),
     ts_rdi = w (a + 56), ts_r8 = w (a + 64), ts_r9 = w (a + 72), ts_r10 = w (a + 80),
     ts_r11 = w (a + 88), ts_r12 = w (a + 96), ts_r13 = w (a + 104), ts_r14 = w (a + 112),
     ts_r15 = w (a + 120), ts_rax = w (a + 128), ts_rbx = w (a + 136), ts_rcx = w (a + 144),
     ts_rdx = w (a + 152)\<rparr>"

section \<open>Instructions\<close>

datatype reg = RAX | RBX | RCX | RDX | RSI | RDI | RBP | RSP | R8 | R9 | R10 | R11 | R12 | R13 | R14 | R15

datatype sreg = DS | ES | FS | GS

datatype instr =
    Cli
  | Sti
  | Swapgs
  | StoreGs nat reg
  | LoadGs reg nat
  | Push reg
  | PushImm u64
  | PushMem reg u64
  | Mov reg reg
  | MovImm reg u64
  | MovSeg sreg reg
  | Load reg reg u64
  | Sub reg u64
  | And reg u64
  | Iretq

text \<open>
  \<open>gs_kernel\<close> says whether \<open>gs\<close> refers to the \<open>BasicProcInfo\<close> of the core, whose two words are
  \<open>gs_mem\<close>; before the first \<open>swapgs\<close> it does not.
\<close>

record cpu =
  c_regs :: "reg \<Rightarrow> u64"
  c_rip :: u64
  c_rflags :: u64
  c_cs :: u64
  c_ss :: u64
  c_segs :: "sreg \<Rightarrow> u64"
  c_if :: bool
  c_mem :: "u64 \<Rightarrow> u64"
  gs_kernel :: bool
  gs_mem :: "nat \<Rightarrow> u64"

definition push_val :: "u64 \<Rightarrow> cpu \<Rightarrow> cpu" where
  "push_val v c = (let sp = c_regs c RSP - 8 in
     c\<lparr>c_regs := (c_regs c)(RSP := sp), c_mem := (c_mem c)(sp := v)\<rparr>)"

fun instr_step :: "instr \<Rightarrow> cpu \<Rightarrow> cpu option" where
  "instr_step Cli c = Some (c\<lparr>c_if := False\<rparr>)"
| "instr_step Sti c = Some (c\<lparr>c_if := True\<rparr>)"
| "instr_step Swapgs c = Some (c\<lparr>gs_kernel := \<not> gs_kernel c\<rparr>)"
| "instr_step (StoreGs i r) c =
     (if gs_kernel c then Some (c\<lparr>gs_mem := (gs_mem c)(i := c_regs c r)\<rparr>) else None)"
| "instr_step (LoadGs r i) c =
     (if gs_kernel c then Some (c\<lparr>c_regs := (c_regs c)(r := gs_mem c i)\<rparr>) else None)"
| "instr_step (Push r) c = Some (push_val (c_regs c r) c)"
| "instr_step (PushImm v) c = Some (push_val v c)"
| "instr_step (PushMem r d) c = Some (push_val (c_mem c (c_regs c r + d)) c)"
| "instr_step (Mov r q) c = Some (c\<lparr>c_regs := (c_regs c)(r := c_regs c q)\<rparr>)"
| "instr_step (MovImm r v) c = Some (c\<lparr>c_regs := (c_regs c)(r := v)\<rparr>)"
| "instr_step (MovSeg s r) c = Some (c\<lparr>c_segs := (c_segs c)(s := c_regs c r AND 0xFFFF)\<rparr>)"
| "instr_step (Load r q d) c = Some (c\<lparr>c_regs := (c_regs c)(r := c_mem c (c_regs c q + d))\<rparr>)"
| "instr_step (Sub r v) c = Some (c\<lparr>c_regs := (c_regs c)(r := c_regs c r - v)\<rparr>)"
| "instr_step (And r v) c = Some (c\<lparr>c_regs := (c_regs c)(r := c_regs c r AND v)\<rparr>)"
| "instr_step Iretq c = (let sp = c_regs c RSP in
     Some (c\<lparr>c_rip := c_mem c sp, c_cs := c_mem c (sp + 8), c_rflags := c_mem c (sp + 16), c_ss := c_mem c (sp + 32),
       c_if := bit (c_mem c (sp + 16)) 9, c_regs := (c_regs c)(RSP := c_mem c (sp + 24))\<rparr>))"

definition run_asm :: "instr list \<Rightarrow> cpu \<Rightarrow> cpu option" where
  "run_asm is c = fold_opt instr_step is c"

section \<open>The routines\<close>

definition push_registers :: "instr list" where
  "push_registers = [Push RDX, Push RCX, Push RBX, Push RAX, Push R15, Push R14, Push R13, Push R12,
     Push R11, Push R10, Push R9, Push R8, Push RDI, Push RSI, Push RBP]"

definition align_stack :: "instr list" where
  "align_stack = [Sub RSP 16, And RSP 0xFFFFFFFFFFFFFFF0, Sub RSP 8]"

definition syscall_handle_1 :: "instr list" where
  "syscall_handle_1 = [Cli, Swapgs, StoreGs 0 RSP, LoadGs RSP 8] @ push_registers @
     [LoadGs RAX 0, Push RAX, PushImm 0x1B, PushImm 0x23, Push R11, Push RCX, Mov RDI RSP] @ align_stack @ [Swapgs]"

definition timer_inter_1 :: "instr list" where
  "timer_inter_1 = [Cli, Swapgs, StoreGs 0 RSP] @ push_registers @
     [LoadGs RAX 0, Load RBX RAX 24, Push RBX, PushImm 0x1B, PushImm 0x23, Load R11 RAX 16, Load RCX RAX 0,
      Push R11, Push RCX, Mov RDI RSP] @ align_stack @ [Swapgs]"

definition apply_asm :: "instr list" where
  "apply_asm = [MovSeg DS RAX, MovSeg ES RAX, MovSeg FS RAX, MovSeg GS RAX,
     Push RAX, PushMem RDI 32, PushMem RDI 8, Push RCX, PushMem RDI 0,
     Load RAX RDI 128, Load RBX RDI 136, Load RCX RDI 144, Load RDX RDI 152, Load RBP RDI 40, Load RSI RDI 48,
     Load R8 RDI 64, Load R9 RDI 72, Load R10 RDI 80, Load R11 RDI 88, Load R12 RDI 96, Load R13 RDI 104,
     Load R14 RDI 112, Load R15 RDI 120, Load RDI RDI 56, Iretq]"

text \<open>The operands of the \<open>asm!\<close> block are in \<open>rax\<close>, \<open>rcx\<close> and \<open>rdi\<close>; \<open>a\<close> is the address of \<open>self\<close>.\<close>

definition state_apply :: "u64 \<Rightarrow> cpu \<Rightarrow> cpu option" where
  "state_apply a c = (let s = read_state (c_mem c) a in
     run_asm apply_asm (c\<lparr>c_regs := (c_regs c)(RAX := ts_data_seg s, RCX := ts_code_seg s, RDI := a)\<rparr>))"

text \<open>\<open>sys::event_loop\<close> up to its \<open>hlt\<close>.\<close>

definition event_loop_asm :: "instr list" where
  "event_loop_asm = [Swapgs, LoadGs RSP 8, Swapgs, Sti]"

section \<open>Entering the kernel\<close>

text \<open>
  What the processor does on an interrupt from user mode, with the kernel stack of the task
  state segment, and on the instruction \<open>syscall\<close>, which leaves the stack as it is.
\<close>

definition interrupt_entry :: "u64 \<Rightarrow> cpu \<Rightarrow> cpu" where
  "interrupt_entry kstack c =
     push_val (c_rip c) (push_val (c_cs c) (push_val (c_rflags c) (push_val (c_regs c RSP) (push_val (c_ss c)
       (c\<lparr>c_regs := (c_regs c)(RSP := kstack)\<rparr>)))))\<lparr>c_regs := (c_regs c)(RSP := kstack - 40), c_if := False\<rparr>"

definition syscall_entry :: "cpu \<Rightarrow> cpu" where
  "syscall_entry c = c\<lparr>c_regs := (c_regs c)(RCX := c_rip c, R11 := c_rflags c)\<rparr>"

text \<open>The state of a task as the user program sees it.\<close>

definition user_state :: "cpu \<Rightarrow> TaskProcState" where
  "user_state c = \<lparr>ts_rip = c_rip c, ts_rflags = c_rflags c, ts_code_seg = 0x23, ts_data_seg = 0x1B,
     ts_rsp = c_regs c RSP, ts_rbp = c_regs c RBP, ts_rsi = c_regs c RSI, ts_rdi = c_regs c RDI, ts_r8 = c_regs c R8,
     ts_r9 = c_regs c R9, ts_r10 = c_regs c R10, ts_r11 = c_regs c R11, ts_r12 = c_regs c R12, ts_r13 = c_regs c R13,
     ts_r14 = c_regs c R14, ts_r15 = c_regs c R15, ts_rax = c_regs c RAX, ts_rbx = c_regs c RBX, ts_rcx = c_regs c RCX,
     ts_rdx = c_regs c RDX\<rparr>"

lemmas asm_simps = run_asm_def push_registers_def align_stack_def push_val_def Let_def

lemma timer_saves:
  assumes "\<not> gs_kernel c"
  shows "\<exists>c'. run_asm timer_inter_1 (interrupt_entry kstack c) = Some c' \<and>
    read_state (c_mem c') (c_regs c' RDI) = user_state c \<and> \<not> gs_kernel c' \<and> \<not> c_if c'"
  using assms
  by (simp add: asm_simps timer_inter_1_def interrupt_entry_def read_state_def user_state_def diff_diff_add)

lemma syscall_saves:
  assumes "\<not> gs_kernel c"
  shows "\<exists>c'. run_asm syscall_handle_1 (syscall_entry c) = Some c' \<and>
    read_state (c_mem c') (c_regs c' RDI) = user_state (syscall_entry c) \<and> \<not> gs_kernel c' \<and> \<not> c_if c'"
  using assms
  by (simp add: asm_simps syscall_handle_1_def syscall_entry_def read_state_def user_state_def diff_diff_add)

text \<open>
  The event loop starts at the bottom of the stack of the core: however often a tick interrupts it
  and comes back to it, the stack does not grow.
\<close>

lemma event_loop_stack:
  assumes "\<not> gs_kernel c"
  shows "run_asm event_loop_asm c = Some (c\<lparr>c_regs := (c_regs c)(RSP := gs_mem c 8), c_if := True\<rparr>)"
    and "\<exists>c'. run_asm (timer_inter_1 @ event_loop_asm) (interrupt_entry sp c) = Some c' \<and>
      c_regs c' RSP = gs_mem c 8 \<and> gs_mem c' 8 = gs_mem c 8 \<and> c_if c' \<and> \<not> gs_kernel c'"
  using assms by (simp_all add: event_loop_asm_def timer_inter_1_def interrupt_entry_def asm_simps)

text \<open>
  The routines claim to leave the stack aligned to 16 bytes before the call; the last subtraction
  leaves it eight bytes off.
\<close>

lemma align_stack_off:
  "\<exists>c'. run_asm align_stack c = Some c' \<and> c_regs c' RSP AND 15 = 8"
proof -
  have "((x AND 0xFFFFFFFFFFFFFFF0) - 8) AND 15 = (8 :: u64)" for x :: u64
  proof -
    define y where "y = drop_bit 4 x"
    have "x AND 0xFFFFFFFFFFFFFFF0 = push_bit 4 y"
    proof (rule bit_word_eqI)
      fix n assume n: "n < LENGTH(64)"
      have eq: "(0xFFFFFFFFFFFFFFF0 :: u64) = NOT (mask 4)" by (simp add: mask_eq_exp_minus_1)
      show "bit (x AND 0xFFFFFFFFFFFFFFF0) n \<longleftrightarrow> bit (push_bit 4 y) n"
        unfolding eq using n by (auto simp: y_def bit_simps)
    qed
    moreover have "(push_bit 4 y - 8) AND 15 = 8"
    proof -
      have n: "(8 :: u64) = push_bit 3 1" "(15 :: u64) = mask 4" by (simp_all add: mask_eq_exp_minus_1)
      have "push_bit 4 y - 8 = push_bit 4 (y - 1) + 8" by (simp add: push_bit_eq_mult algebra_simps)
      also have "\<dots> = push_bit 4 (y - 1) OR 8"
        unfolding n(1) by (rule disjunctive_add) (auto simp: bit_simps simp del: push_bit_of_1)
      finally have e: "push_bit 4 y - push_bit 3 1 = push_bit 4 (y - 1) OR push_bit 3 1" unfolding n(1) .
      show ?thesis
        unfolding n e by (rule bit_word_eqI) (auto simp: bit_simps simp del: push_bit_of_1)
    qed
    ultimately show ?thesis by simp
  qed
  then show ?thesis by (simp add: run_asm_def align_stack_def)
qed

text \<open>The five words that \<open>apply\<close> pushes lie outside the structure it reads.\<close>

definition stack_apart :: "u64 \<Rightarrow> u64 \<Rightarrow> bool" where
  "stack_apart a sp \<longleftrightarrow> (\<forall>i<20. \<forall>j \<in> {1, 2, 3, 4, 5}. sp - 8 * word_of_nat j \<noteq> a + 8 * word_of_nat i)"

lemma stack_apartD:
  assumes "stack_apart a sp"
  shows "i < 20 \<Longrightarrow> sp - 8 \<noteq> a + 8 * word_of_nat i" "i < 20 \<Longrightarrow> sp - 16 \<noteq> a + 8 * word_of_nat i"
    "i < 20 \<Longrightarrow> sp - 24 \<noteq> a + 8 * word_of_nat i" "i < 20 \<Longrightarrow> sp - 32 \<noteq> a + 8 * word_of_nat i"
    "i < 20 \<Longrightarrow> sp - 40 \<noteq> a + 8 * word_of_nat i"
  using assms unfolding stack_apart_def by force+

definition push5 :: "(u64 \<Rightarrow> u64) \<Rightarrow> u64 \<Rightarrow> u64 \<Rightarrow> u64 \<Rightarrow> u64 \<Rightarrow> u64 \<Rightarrow> u64 \<Rightarrow> u64 \<Rightarrow> u64" where
  "push5 m sp v1 v2 v3 v4 v5 = m(sp - 8 := v1, sp - 16 := v2, sp - 24 := v3, sp - 32 := v4, sp - 40 := v5)"

lemma push5_apart:
  assumes "stack_apart a sp"
  shows "i < 20 \<Longrightarrow> push5 m sp v1 v2 v3 v4 v5 (a + 8 * word_of_nat i) = m (a + 8 * word_of_nat i)"
  using stack_apartD [OF assms, of i] by (simp add: push5_def)

lemma read_state_push5:
  assumes "stack_apart a sp"
  shows "read_state (push5 m sp v1 v2 v3 v4 v5) a = read_state m a"
  using push5_apart [OF assms, of 0 m] push5_apart [OF assms, of 1 m] push5_apart [OF assms, of 2 m]
    push5_apart [OF assms, of 3 m] push5_apart [OF assms, of 4 m] push5_apart [OF assms, of 5 m]
    push5_apart [OF assms, of 6 m] push5_apart [OF assms, of 7 m] push5_apart [OF assms, of 8 m]
    push5_apart [OF assms, of 9 m] push5_apart [OF assms, of 10 m] push5_apart [OF assms, of 11 m]
    push5_apart [OF assms, of 12 m] push5_apart [OF assms, of 13 m] push5_apart [OF assms, of 14 m]
    push5_apart [OF assms, of 15 m] push5_apart [OF assms, of 16 m] push5_apart [OF assms, of 17 m]
    push5_apart [OF assms, of 18 m] push5_apart [OF assms, of 19 m]
  by (simp add: read_state_def)

lemma push5_top:
  "push5 m sp v1 v2 v3 v4 v5 (sp - 40) = v5" "push5 m sp v1 v2 v3 v4 v5 (sp - 40 + 8) = v4"
  "push5 m sp v1 v2 v3 v4 v5 (sp - 40 + 16) = v3" "push5 m sp v1 v2 v3 v4 v5 (sp - 40 + 24) = v2"
  "push5 m sp v1 v2 v3 v4 v5 (sp - 40 + 32) = v1"
  by (simp_all add: push5_def)

lemma apply_pushes:
  assumes "stack_apart (c_regs c RDI) (c_regs c RSP)"
  shows "run_asm (take 9 apply_asm) c = Some (c\<lparr>c_segs := (\<lambda>_. c_regs c RAX AND 0xFFFF), c_regs := (c_regs c)(RSP := c_regs c RSP - 40),
    c_mem := push5 (c_mem c) (c_regs c RSP) (c_regs c RAX) (c_mem c (c_regs c RDI + 32)) (c_mem c (c_regs c RDI + 8)) (c_regs c RCX)
      (c_mem c (c_regs c RDI))\<rparr>)"
proof -
  have "((c_segs c)(DS := v, ES := v, FS := v, GS := v)) r = v" for v r
    by (cases r) simp_all
  then have "(c_segs c)(DS := v, ES := v, FS := v, GS := v) = (\<lambda>_. v)" for v by blast
  then show ?thesis
    using stack_apartD [OF assms, of 4] stack_apartD [OF assms, of 1] stack_apartD [OF assms, of 0]
    by (simp add: apply_asm_def asm_simps push5_def diff_diff_add)
qed

lemma apply_loads:
  assumes "read_state (c_mem c) (c_regs c RDI) = s"
  shows "\<exists>c'. run_asm (drop 9 apply_asm) c = Some c' \<and>
    c_regs c' = (\<lambda>r. case r of RAX \<Rightarrow> ts_rax s | RBX \<Rightarrow> ts_rbx s | RCX \<Rightarrow> ts_rcx s | RDX \<Rightarrow> ts_rdx s |
      RSI \<Rightarrow> ts_rsi s | RDI \<Rightarrow> ts_rdi s | RBP \<Rightarrow> ts_rbp s | RSP \<Rightarrow> c_mem c (c_regs c RSP + 24) | R8 \<Rightarrow> ts_r8 s |
      R9 \<Rightarrow> ts_r9 s | R10 \<Rightarrow> ts_r10 s | R11 \<Rightarrow> ts_r11 s | R12 \<Rightarrow> ts_r12 s | R13 \<Rightarrow> ts_r13 s |
      R14 \<Rightarrow> ts_r14 s | R15 \<Rightarrow> ts_r15 s) \<and>
    c_rip c' = c_mem c (c_regs c RSP) \<and> c_cs c' = c_mem c (c_regs c RSP + 8) \<and> c_rflags c' = c_mem c (c_regs c RSP + 16) \<and>
    c_ss c' = c_mem c (c_regs c RSP + 32) \<and> c_segs c' = c_segs c \<and> gs_kernel c' = gs_kernel c"
  unfolding assms [symmetric]
  by (auto simp: apply_asm_def asm_simps read_state_def fun_eq_iff split: reg.split)

lemma run_take_drop: "run_asm is c = Option.bind (run_asm (take n is) c) (run_asm (drop n is))"
  using fold_opt_append [of instr_step "take n is" "drop n is" c] by (simp add: run_asm_def [abs_def])

lemma apply_restores:
  assumes s: "read_state (c_mem c) a = s" and ap: "stack_apart a (c_regs c RSP)"
  shows "\<exists>c'. state_apply a c = Some c' \<and> c_rip c' = ts_rip s \<and> c_rflags c' = ts_rflags s \<and>
    c_cs c' = ts_code_seg s \<and> c_ss c' = ts_data_seg s \<and> gs_kernel c' = gs_kernel c \<and>
    user_state c' = s\<lparr>ts_code_seg := 0x23, ts_data_seg := 0x1B\<rparr>"
proof -
  define c0 where "c0 = c\<lparr>c_regs := (c_regs c)(RAX := ts_data_seg s, RCX := ts_code_seg s, RDI := a)\<rparr>"
  have c0: "c_regs c0 RDI = a" "c_regs c0 RSP = c_regs c RSP" "c_regs c0 RAX = ts_data_seg s" "c_regs c0 RCX = ts_code_seg s"
    "c_mem c0 = c_mem c" "gs_kernel c0 = gs_kernel c"
    by (simp_all add: c0_def)
  have f: "c_mem c a = ts_rip s" "c_mem c (a + 8) = ts_rflags s" "c_mem c (a + 32) = ts_rsp s"
    using s by (auto simp: read_state_def)
  define c1 where "c1 = c0\<lparr>c_segs := (\<lambda>_. c_regs c0 RAX AND 0xFFFF), c_regs := (c_regs c0)(RSP := c_regs c RSP - 40),
    c_mem := push5 (c_mem c) (c_regs c RSP) (ts_data_seg s) (ts_rsp s) (ts_rflags s) (ts_code_seg s) (ts_rip s)\<rparr>"
  have pushes: "run_asm (take 9 apply_asm) c0 = Some c1"
    using apply_pushes [of c0] ap by (simp add: c0 f c1_def)
  have c1: "c_regs c1 RDI = a" "c_regs c1 RSP = c_regs c RSP - 40" "gs_kernel c1 = gs_kernel c"
    "c_mem c1 = push5 (c_mem c) (c_regs c RSP) (ts_data_seg s) (ts_rsp s) (ts_rflags s) (ts_code_seg s) (ts_rip s)"
    by (simp_all add: c1_def c0)
  have "read_state (c_mem c1) (c_regs c1 RDI) = s" using read_state_push5 [OF ap] s by (simp add: c1)
  from apply_loads [OF this] obtain c' where c': "run_asm (drop 9 apply_asm) c1 = Some c'"
    "c_regs c' = (\<lambda>r. case r of RAX \<Rightarrow> ts_rax s | RBX \<Rightarrow> ts_rbx s | RCX \<Rightarrow> ts_rcx s | RDX \<Rightarrow> ts_rdx s |
      RSI \<Rightarrow> ts_rsi s | RDI \<Rightarrow> ts_rdi s | RBP \<Rightarrow> ts_rbp s | RSP \<Rightarrow> c_mem c1 (c_regs c1 RSP + 24) | R8 \<Rightarrow> ts_r8 s |
      R9 \<Rightarrow> ts_r9 s | R10 \<Rightarrow> ts_r10 s | R11 \<Rightarrow> ts_r11 s | R12 \<Rightarrow> ts_r12 s | R13 \<Rightarrow> ts_r13 s |
      R14 \<Rightarrow> ts_r14 s | R15 \<Rightarrow> ts_r15 s)"
    "c_rip c' = c_mem c1 (c_regs c1 RSP)" "c_cs c' = c_mem c1 (c_regs c1 RSP + 8)" "c_rflags c' = c_mem c1 (c_regs c1 RSP + 16)"
    "c_ss c' = c_mem c1 (c_regs c1 RSP + 32)" "gs_kernel c' = gs_kernel c1" by blast
  have "state_apply a c = Some c'"
    using pushes c'(1) run_take_drop [of apply_asm c0 9] by (simp add: state_apply_def s c0_def)
  moreover have "c_rip c' = ts_rip s" "c_rflags c' = ts_rflags s" "c_cs c' = ts_code_seg s" "c_ss c' = ts_data_seg s"
      "gs_kernel c' = gs_kernel c" "c_regs c' RSP = ts_rsp s"
    using c' by (simp_all only: c1 push5_top reg.case)
  moreover from this have "user_state c' = s\<lparr>ts_code_seg := 0x23, ts_data_seg := 0x1B\<rparr>"
    using c'(2) by (cases s) (simp add: user_state_def)
  ultimately show ?thesis by blast
qed

section \<open>Properties\<close>

text \<open>
  C7. A task does not notice the timer. When the timer interrupts a user program, the structure
  that \<open>timer_inter_1\<close> leaves for \<open>timer_inter_2\<close> is the state of the program; and applying that
  state later, on whatever core and stack, continues the program with the same instruction
  pointer, flags, segments, stack pointer and general registers.
\<close>

theorem timer_context_roundtrip:
  assumes "\<not> gs_kernel c" and "c_cs c = 0x23" and "c_ss c = 0x1B"
    and "read_state (c_mem d) a = user_state c" and "stack_apart a (c_regs d RSP)"
  shows "(\<exists>c'. run_asm timer_inter_1 (interrupt_entry kstack c) = Some c' \<and>
      read_state (c_mem c') (c_regs c' RDI) = user_state c) \<and>
    (\<exists>d'. state_apply a d = Some d' \<and> c_regs d' = c_regs c \<and> c_rip d' = c_rip c \<and> c_rflags d' = c_rflags c \<and>
      c_cs d' = c_cs c \<and> c_ss d' = c_ss c)"
proof -
  obtain d' where d': "state_apply a d = Some d'" "c_rip d' = c_rip c" "c_rflags d' = c_rflags c" "c_cs d' = 0x23"
    "c_ss d' = 0x1B" "user_state d' = user_state c"
    using apply_restores [OF assms(4,5)] by (auto simp: user_state_def)
  have "c_regs d' r = c_regs c r" for r using d'(6) by (cases r) (simp_all add: user_state_def)
  then have "c_regs d' = c_regs c" by blast
  with d' assms(2,3) timer_saves [OF assms(1)] show ?thesis by metis
qed

definition demo_cpu :: cpu where
  "demo_cpu = \<lparr>c_regs = (\<lambda>r. if r = RSP then 0x7000 else if r = RAX then 5 else 7), c_rip = 0x401000, c_rflags = 0x202,
     c_cs = 0x23, c_ss = 0x1B, c_segs = (\<lambda>_. 0x1B), c_if = True, c_mem = (\<lambda>_. 0), gs_kernel = False, gs_mem = (\<lambda>_. 0)\<rparr>"

text \<open>A processor whose memory holds that state at \<open>0x9000\<close>.\<close>

definition demo_cpu2 :: cpu where
  "demo_cpu2 = demo_cpu\<lparr>c_regs := (\<lambda>_. 0x8000), c_mem := (\<lambda>x. if x = 0x9000 then 0x401000 else if x = 0x9008 then 0x202
     else if x = 0x9010 then 0x23 else if x = 0x9018 then 0x1B else if x = 0x9020 then 0x7000
     else if x = 0x9080 then 5 else 7)\<rparr>"

theorem timer_context_roundtrip_witness:
  "\<exists>d'. state_apply 0x9000 demo_cpu2 = Some d' \<and> c_regs d' = c_regs demo_cpu \<and> c_rip d' = 0x401000"
proof -
  have st: "read_state (c_mem demo_cpu2) 0x9000 = user_state demo_cpu"
    by (simp add: read_state_def demo_cpu2_def demo_cpu_def user_state_def)
  have "stack_apart 0x9000 (c_regs demo_cpu2 RSP)"
  proof -
    have "list_all (\<lambda>i. \<forall>j \<in> {1, 2, 3, 4, 5}. 0x8000 - 8 * word_of_nat j \<noteq> (0x9000 + 8 * word_of_nat i :: u64)) [0..<20]"
      by (simp add: upt_conv_Cons)
    then show ?thesis by (auto simp: stack_apart_def demo_cpu2_def list_all_iff)
  qed
  from timer_context_roundtrip [OF _ _ _ st this, of 0] show ?thesis
    by (auto simp: demo_cpu_def)
qed

text \<open>
  C34. A system call carries the registers of the caller. The structure that
  \<open>syscall_handle_1\<close> leaves for \<open>syscall_handle_2\<close> is the state of the caller, except for
  \<open>rcx\<close> and \<open>r11\<close>, which the instruction \<open>syscall\<close> itself overwrites with the return address
  and the flags.
\<close>

theorem syscall_context:
  assumes "\<not> gs_kernel c"
  shows "\<exists>c'. run_asm syscall_handle_1 (syscall_entry c) = Some c' \<and>
    read_state (c_mem c') (c_regs c' RDI) = (user_state c)\<lparr>ts_rcx := c_rip c, ts_r11 := c_rflags c\<rparr> \<and>
    \<not> gs_kernel c' \<and> \<not> c_if c'"
  using syscall_saves [OF assms] by (auto simp: user_state_def syscall_entry_def)

theorem syscall_context_witness:
  "\<exists>c'. run_asm syscall_handle_1 (syscall_entry demo_cpu) = Some c' \<and> ts_rax (read_state (c_mem c') (c_regs c' RDI)) = 5 \<and>
     ts_rip (read_state (c_mem c') (c_regs c' RDI)) = 0x401000"
  using syscall_context [of demo_cpu] by (auto simp: demo_cpu_def user_state_def)

end
