(* ===== verification/Framebuffer.thy ===== *)
theory Framebuffer
  imports Bootboot Bytes
begin

text \<open>
  The linear framebuffer of \<open>kernel/src/dev/framebuffer.rs\<close>. The memory the code writes through
  raw pointers, the screen and the optional second buffer, is one store of bytes indexed by
  address; the second buffer is a \<open>Vec<u8>\<close>, here the address its allocation returned.
\<close>

section \<open>Pixels\<close>

record PixelColor =
  red :: u8
  green :: u8
  blue :: u8
  alpha :: u8

datatype FramebufferFormat = Argb | Idk1 | Idk2 | Bgra

definition format_try_into :: "u8 \<Rightarrow> FramebufferFormat option" where
  "format_try_into b =
     (if b = 0 then Some Argb else if b = 1 then Some Idk1 else if b = 2 then Some Idk2
      else if b = 3 then Some Bgra else None)"

definition pixel_word :: "PixelColor \<Rightarrow> FramebufferFormat \<Rightarrow> u32 option" where
  "pixel_word p format = (case format of
       Argb \<Rightarrow> Some (push_bit 24 (ucast (alpha p) AND 0xff) OR push_bit 16 (ucast (red p) AND 0xff)
         OR push_bit 8 (ucast (green p) AND 0xff) OR (ucast (blue p) AND 0xff))
     | Idk1 \<Rightarrow> None
     | Idk2 \<Rightarrow> None
     | Bgra \<Rightarrow> Some (push_bit 24 (ucast (blue p) AND 0xff) OR push_bit 16 (ucast (green p) AND 0xff)
         OR push_bit 8 (ucast (red p) AND 0xff) OR (ucast (alpha p) AND 0xff)))"

definition pixel_rgba :: "u8 \<times> u8 \<times> u8 \<times> u8 \<Rightarrow> PixelColor" where
  "pixel_rgba c = (case c of (r, g, b, a) \<Rightarrow> \<lparr>red = r, green = g, blue = b, alpha = a\<rparr>)"

definition pixel_rgb :: "u8 \<times> u8 \<times> u8 \<Rightarrow> PixelColor" where
  "pixel_rgb c = (case c of (r, g, b) \<Rightarrow> \<lparr>red = r, green = g, blue = b, alpha = 255\<rparr>)"

section \<open>The framebuffer\<close>

record Framebuffer =
  fb_format :: FramebufferFormat
  fb_width :: nat
  fb_height :: nat
  fb_scanline :: nat
  fb_ptr :: nat
  lowest_offset :: "nat option"
  highest_offset :: "nat option"
  double_buffer :: "nat option"

text \<open>\<open>fb_virt\<close> is the address the linker gives the symbol \<open>fb\<close>.\<close>

definition from_bootboot :: "BootBoot \<Rightarrow> nat \<Rightarrow> Framebuffer option" where
  "from_bootboot bb fb_virt = do {
     format \<leftarrow> format_try_into (bb_fb_type bb);
     Some \<lparr>fb_format = format, fb_width = bb_fb_width bb, fb_height = bb_fb_height bb,
       fb_scanline = bb_fb_scanline bb, fb_ptr = fb_virt, lowest_offset = None, highest_offset = None,
       double_buffer = None\<rparr> }"

definition get_or_insert :: "'a option \<Rightarrow> 'a \<Rightarrow> 'a" where
  "get_or_insert x v = (case x of Some w \<Rightarrow> w | None \<Rightarrow> v)"

text \<open>A four byte store, little endian, through a pointer.\<close>

definition store32 :: "memory \<Rightarrow> nat \<Rightarrow> u32 \<Rightarrow> memory" where
  "store32 mem a w = mem(a mod 2 ^ 64 := ucast w, (a + 1) mod 2 ^ 64 := ucast (drop_bit 8 w),
     (a + 2) mod 2 ^ 64 := ucast (drop_bit 16 w), (a + 3) mod 2 ^ 64 := ucast (drop_bit 24 w))"

definition set_pixel :: "nat \<Rightarrow> nat \<Rightarrow> PixelColor \<Rightarrow> Framebuffer \<times> memory \<Rightarrow> (Framebuffer \<times> memory) option" where
  "set_pixel x y pixel s = do {
     let (f, mem) = s;
     row \<leftarrow> mul64 y (fb_scanline f);
     col \<leftarrow> mul64 x 4;
     offset \<leftarrow> add64 row col;
     word \<leftarrow> pixel_word pixel (fb_format f);
     _ \<leftarrow> rassert (x < fb_width f);
     _ \<leftarrow> rassert (y < fb_height f);
     buffer_len \<leftarrow> mul64 (fb_scanline f) (fb_height f);
     _ \<leftarrow> rassert (offset < buffer_len);
     let lowest = get_or_insert (lowest_offset f) offset;
     let f = f\<lparr>lowest_offset := Some (if offset < lowest then offset else lowest)\<rparr>;
     next_offset \<leftarrow> add64 offset 4;
     let highest = get_or_insert (highest_offset f) next_offset;
     let f = f\<lparr>highest_offset := Some (if highest < offset then next_offset else highest)\<rparr>;
     let final_ptr = (case double_buffer f of Some buffer \<Rightarrow> buffer | None \<Rightarrow> fb_ptr f);
     Some (f, store32 mem (final_ptr + 4 * offset) word) }"

text \<open>The vector of zeroes is placed where the allocator decides, at \<open>buffer\<close>.\<close>

definition init_dfb :: "nat \<Rightarrow> Framebuffer \<times> memory \<Rightarrow> (Framebuffer \<times> memory) option" where
  "init_dfb buffer s = do {
     let (f, mem) = s;
     n \<leftarrow> mul64 (fb_scanline f) (fb_height f);
     Some (f\<lparr>double_buffer := Some buffer, lowest_offset := None, highest_offset := None\<rparr>,
       (\<lambda>a. if buffer \<le> a \<and> a < buffer + n then 0 else mem a)) }"

definition refresh :: "Framebuffer \<times> memory \<Rightarrow> (Framebuffer \<times> memory) option" where
  "refresh s = do {
     let (f, mem) = s;
     let lowest = get_or_insert (lowest_offset f) 0;
     let highest = get_or_insert (highest_offset f) 0;
     let f = f\<lparr>lowest_offset := None, highest_offset := None\<rparr>;
     copy_len \<leftarrow> sub64 highest lowest;
     Some (f, case double_buffer f of
         Some buffer \<Rightarrow> (\<lambda>a. if fb_ptr f + lowest \<le> a \<and> a < fb_ptr f + lowest + copy_len
           then mem (buffer + (a - fb_ptr f)) else mem a)
       | None \<Rightarrow> mem) }"

definition debug_set_pixel :: "nat \<Rightarrow> nat \<Rightarrow> PixelColor \<Rightarrow> Framebuffer option \<times> memory \<Rightarrow>
    (Framebuffer option \<times> memory) option" where
  "debug_set_pixel x y pixel s = do {
     f \<leftarrow> fst s;
     (f, mem) \<leftarrow> set_pixel x y pixel (f, snd s);
     Some (Some f, mem) }"

definition debug_printbin :: "nat \<Rightarrow> nat \<Rightarrow> u64 \<Rightarrow> Framebuffer option \<times> memory \<Rightarrow>
    (Framebuffer option \<times> memory) option" where
  "debug_printbin x y val s = do {
     f \<leftarrow> fst s;
     (f, mem) \<leftarrow> fold_opt (\<lambda>bitindex fm. do {
         n \<leftarrow> add64 x 64;
         n \<leftarrow> sub64 n bitindex;
         xindex \<leftarrow> sub64 n 1;
         let bitval = (drop_bit bitindex val AND 1 = 1);
         let color = (if bitval then (255, 0, 0) else (0, 0, 255));
         set_pixel xindex y (pixel_rgb color) fm }) [0..<64] (f, snd s);
     Some (Some f, mem) }"

section \<open>Colours\<close>

lemma u8_high: "8 \<le> n \<Longrightarrow> \<not> bit (c :: u8) n"
  using bit_imp_le_length [of c n] by auto

lemma ucast_ff [simp]: "ucast (c :: u8) AND 0xff = (ucast c :: u32)"
proof -
  have "(0xff :: u32) = mask 8" by (simp add: mask_eq_exp_minus_1)
  then have "ucast c AND 0xff = (ucast c AND mask 8 :: u32)" by simp
  also have "\<dots> = ucast c"
  proof (rule bit_word_eqI)
    fix n
    show "bit (ucast c AND mask 8 :: u32) n \<longleftrightarrow> bit (ucast c :: u32) n"
      by (cases "n < 8") (auto simp: bit_simps u8_high)
  qed
  finally show ?thesis .
qed

text \<open>The four channels of a colour occupy the four bytes of a word without overlap.\<close>

lemma pixel_word_bytes:
  "pixel_word p Argb = Some w \<Longrightarrow>
     ucast w = blue p \<and> ucast (drop_bit 8 w) = green p \<and> ucast (drop_bit 16 w) = red p \<and> ucast (drop_bit 24 w) = alpha p"
  "pixel_word p Bgra = Some w \<Longrightarrow>
     ucast w = alpha p \<and> ucast (drop_bit 8 w) = red p \<and> ucast (drop_bit 16 w) = green p \<and> ucast (drop_bit 24 w) = blue p"
  unfolding pixel_word_def FramebufferFormat.case ucast_ff
  by (auto intro!: bit_word_eqI simp: bit_simps u8_high)

lemma store32_bytes:
  "a + 4 \<le> 2 ^ 64 \<Longrightarrow> store32 mem a w b = (if a \<le> b \<and> b < a + 4 then ucast (drop_bit (8 * (b - a)) w) else mem b)"
proof -
  assume a: "a + 4 \<le> 2 ^ 64"
  consider "b < a" | "b = a" | "b = a + 1" | "b = a + 2" | "b = a + 3" | "a + 4 \<le> b" by linarith
  then show ?thesis using a by cases (simp_all add: store32_def)
qed

lemma store32_read:
  assumes "a + 4 \<le> 2 ^ 64"
  shows "bytes (store32 mem a w) a 4 = [ucast w, ucast (drop_bit 8 w), ucast (drop_bit 16 w), ucast (drop_bit 24 w)]"
proof -
  have "[0..<4] = [0, 1, 2, 3 :: nat]" by (simp add: upt_rec)
  then show ?thesis by (simp add: bytes_def store32_bytes [OF assms])
qed

section \<open>Drawing\<close>

text \<open>
  A framebuffer the code supports: one of the two implemented formats, lines that hold their
  pixels, and a size far from the end of the address space.
\<close>

definition fb_ok :: "Framebuffer \<Rightarrow> bool" where
  "fb_ok f \<longleftrightarrow> fb_format f \<in> {Argb, Bgra} \<and> 4 * fb_width f \<le> fb_scanline f \<and> fb_scanline f * fb_height f < 2 ^ 62"

definition pixel_offset :: "Framebuffer \<Rightarrow> nat \<Rightarrow> nat \<Rightarrow> nat" where
  "pixel_offset f x y = y * fb_scanline f + 4 * x"

lemma pixel_offset_less:
  assumes "4 * fb_width f \<le> fb_scanline f" "x < fb_width f" "y < fb_height f"
  shows "pixel_offset f x y + 4 \<le> fb_scanline f * fb_height f"
proof -
  have "pixel_offset f x y + 4 \<le> y * fb_scanline f + fb_scanline f" using assms by (simp add: pixel_offset_def)
  also have "\<dots> = (y + 1) * fb_scanline f" by simp
  also have "\<dots> \<le> fb_height f * fb_scanline f" using assms(3) by (intro mult_le_mono1) simp
  finally show ?thesis by (simp add: mult.commute)
qed

lemma pixel_word_ok: "fb_ok f \<Longrightarrow> \<exists>w. pixel_word p (fb_format f) = Some w"
  by (auto simp: fb_ok_def pixel_word_def)

text \<open>The two offsets after a pixel at \<open>o'\<close> was drawn.\<close>

definition touch :: "nat \<Rightarrow> Framebuffer \<Rightarrow> Framebuffer" where
  "touch o' f = f\<lparr>
     lowest_offset := Some (min o' (get_or_insert (lowest_offset f) o')),
     highest_offset := Some (if get_or_insert (highest_offset f) (o' + 4) < o' then o' + 4
       else get_or_insert (highest_offset f) (o' + 4))\<rparr>"

definition draw_base :: "Framebuffer \<Rightarrow> nat" where
  "draw_base f = (case double_buffer f of Some buffer \<Rightarrow> buffer | None \<Rightarrow> fb_ptr f)"

lemma set_pixel_eq:
  assumes f: "fb_ok f" and xy: "x < fb_width f" "y < fb_height f" and w: "pixel_word p (fb_format f) = Some w"
  shows "set_pixel x y p (f, mem) =
    Some (touch (pixel_offset f x y) f, store32 mem (draw_base f + 4 * pixel_offset f x y) w)"
proof -
  let ?o = "pixel_offset f x y"
  have l: "?o + 4 \<le> fb_scanline f * fb_height f" and b: "fb_scanline f * fb_height f < 2 ^ 62"
    using f xy by (auto simp: fb_ok_def intro!: pixel_offset_less)
  have o: "y * fb_scanline f + x * 4 = ?o" by (simp add: pixel_offset_def)
  have s: "y * fb_scanline f \<le> ?o" "x * 4 \<le> ?o" by (simp_all add: pixel_offset_def)
  have c: "mul64 y (fb_scanline f) = Some (y * fb_scanline f)" "mul64 x 4 = Some (x * 4)"
    "add64 (y * fb_scanline f) (x * 4) = Some ?o" "mul64 (fb_scanline f) (fb_height f) = Some (fb_scanline f * fb_height f)"
    "add64 ?o 4 = Some (?o + 4)"
    using l b s o by (simp_all add: rust_simps)
  have "?o < fb_scanline f * fb_height f" using l by linarith
  then show ?thesis
    using xy w by (cases "double_buffer f") (auto simp: set_pixel_def c touch_def draw_base_def min_def Let_def)
qed

lemma set_pixel_off_screen: "\<not> (x < fb_width f \<and> y < fb_height f) \<Longrightarrow> set_pixel x y p (f, mem) = None"
  by (auto simp: set_pixel_def rassert_def bind_eq_None_conv Let_def)

text \<open>
  C36. Drawing a pixel succeeds exactly on the screen (off the screen the kernel panics). It
  changes four bytes and no other, which hold the colour in the order of the format; their
  distance from the start of the buffer is four times the offset of the pixel.
\<close>

theorem set_pixel_writes:
  assumes "fb_ok f" and "draw_base f + 4 * (fb_scanline f * fb_height f) \<le> 2 ^ 64"
  shows "(set_pixel x y p (f, mem) \<noteq> None \<longleftrightarrow> x < fb_width f \<and> y < fb_height f) \<and>
    (\<forall>f' mem'. set_pixel x y p (f, mem) = Some (f', mem') \<longrightarrow>
      bytes mem' (draw_base f + 4 * pixel_offset f x y) 4 =
        (if fb_format f = Argb then [blue p, green p, red p, alpha p] else [alpha p, red p, green p, blue p]) \<and>
      (\<forall>a. a \<notin> {draw_base f + 4 * pixel_offset f x y ..< draw_base f + 4 * pixel_offset f x y + 4} \<longrightarrow> mem' a = mem a))"
proof (intro conjI [of "_ \<longleftrightarrow> _"] allI impI)
  obtain w where w: "pixel_word p (fb_format f) = Some w" using pixel_word_ok [OF assms(1)] by blast
  show iff: "set_pixel x y p (f, mem) \<noteq> None \<longleftrightarrow> x < fb_width f \<and> y < fb_height f"
    using set_pixel_eq [OF assms(1) _ _ w, of x y mem] set_pixel_off_screen [of x f y p mem] by (cases "x < fb_width f \<and> y < fb_height f") auto
  let ?a = "draw_base f + 4 * pixel_offset f x y"
  fix f' mem' assume s: "set_pixel x y p (f, mem) = Some (f', mem')"
  then have xy: "x < fb_width f" "y < fb_height f" using iff by auto
  have "pixel_offset f x y + 4 \<le> fb_scanline f * fb_height f"
    using assms(1) xy by (auto simp: fb_ok_def intro!: pixel_offset_less)
  then have a: "?a + 4 \<le> 2 ^ 64" using assms(2) by linarith
  have m: "mem' = store32 mem ?a w" using s set_pixel_eq [OF assms(1) xy w] by simp
  have b: "bytes mem' ?a 4 = [ucast w, ucast (drop_bit 8 w), ucast (drop_bit 16 w), ucast (drop_bit 24 w)]"
    unfolding m by (rule store32_read [OF a])
  have "fb_format f = Argb \<or> fb_format f = Bgra" using assms(1) by (auto simp: fb_ok_def)
  then show "bytes mem' ?a 4 =
      (if fb_format f = Argb then [blue p, green p, red p, alpha p] else [alpha p, red p, green p, blue p]) \<and>
      (\<forall>a. a \<notin> {?a ..< ?a + 4} \<longrightarrow> mem' a = mem a)"
    using pixel_word_bytes [of p w] w unfolding b by (auto simp: m store32_bytes [OF a])
qed

definition demo_fb :: Framebuffer where
  "demo_fb = \<lparr>fb_format = Argb, fb_width = 4, fb_height = 8, fb_scanline = 16, fb_ptr = 0x1000,
     lowest_offset = None, highest_offset = None, double_buffer = None\<rparr>"

lemma demo_fb_ok: "fb_ok demo_fb" "draw_base demo_fb + 4 * (fb_scanline demo_fb * fb_height demo_fb) \<le> 2 ^ 64"
  by (simp_all add: fb_ok_def demo_fb_def draw_base_def)

theorem set_pixel_writes_witness:
  "set_pixel 4 0 (pixel_rgb (1, 2, 3)) (demo_fb, \<lambda>_. 0) = None \<and>
   (\<exists>f' mem'. set_pixel 1 2 (pixel_rgb (1, 2, 3)) (demo_fb, \<lambda>_. 0) = Some (f', mem') \<and>
      bytes mem' 0x1090 4 = [3, 2, 1, 255])"
proof
  note w = set_pixel_writes [OF demo_fb_ok]
  show "set_pixel 4 0 (pixel_rgb (1, 2, 3)) (demo_fb, \<lambda>_. 0) = None"
    using w [of 4 0 "pixel_rgb (1, 2, 3)" "\<lambda>_. 0"] not_None_eq by (fastforce simp: demo_fb_def)
  obtain f' mem' where s: "set_pixel 1 2 (pixel_rgb (1, 2, 3)) (demo_fb, \<lambda>_. 0) = Some (f', mem')"
    using w [of 1 2 "pixel_rgb (1, 2, 3)" "\<lambda>_. 0"] by (fastforce simp: demo_fb_def)
  with w [of 1 2 "pixel_rgb (1, 2, 3)" "\<lambda>_. 0"] have "bytes mem' 0x1090 4 = [3, 2, 1, 255]"
    by (simp add: demo_fb_def draw_base_def pixel_offset_def pixel_rgb_def)
  with s show "\<exists>f' mem'. set_pixel 1 2 (pixel_rgb (1, 2, 3)) (demo_fb, \<lambda>_. 0) = Some (f', mem') \<and>
      bytes mem' 0x1090 4 = [3, 2, 1, 255]" by blast
qed

text \<open>
  The pointer is a \<open>*mut u32\<close> and the offset counts bytes, so a pixel in the last three quarters
  of the lines is written behind the end of the buffer.
\<close>

lemma set_pixel_overrun:
  assumes "fb_ok f" "draw_base f + 4 * (fb_scanline f * fb_height f) \<le> 2 ^ 64"
    and "x < fb_width f" "y < fb_height f" "fb_height f \<le> 4 * y"
  shows "draw_base f + fb_scanline f * fb_height f \<le> draw_base f + 4 * pixel_offset f x y"
proof -
  have "fb_height f * fb_scanline f \<le> 4 * y * fb_scanline f" using assms(5) by (rule mult_le_mono1)
  then have "fb_scanline f * fb_height f \<le> 4 * (y * fb_scanline f)" by (simp only: ac_simps)
  then show ?thesis unfolding pixel_offset_def distrib_left by linarith
qed

text \<open>
  Two pixels drawn from left to right leave the second one out of the range that the next
  refresh copies.
\<close>

lemma refresh_range_short:
  assumes "lowest_offset f = None" "highest_offset f = None"
  shows "lowest_offset (touch (o' + 4) (touch o' f)) = Some o'" "highest_offset (touch (o' + 4) (touch o' f)) = Some (o' + 4)"
  using assms by (simp_all add: touch_def get_or_insert_def)

end
