(* ===== verification/Lapic.thy ===== *)
theory Lapic
  imports Prelude
begin

text \<open>
  The registers of the local APIC, \<open>kernel/src/proc/apic/regmap.rs\<close>. The registers are mapped into
  memory; what the kernel does to them is the sequence of its writes, each an offset into the
  page of registers and a value. The structure of the source fixes the offsets by the order of
  its fields, every one a number of sixteen byte cells; they are computed here from that order.
\<close>

section \<open>Layout\<close>

definition regmap_layout :: "(string \<times> nat) list" where
  "regmap_layout = [(''res0'', 1), (''res1'', 1), (''idreg'', 1), (''verreg'', 1), (''res2'', 4),
     (''taskprreg'', 1), (''arbprreg'', 1), (''procprreg'', 1), (''eoireg'', 1), (''remoterreg'', 1),
     (''logdestreg'', 1), (''destfmtreg'', 1), (''sivreg'', 1), (''isr'', 8), (''tmr'', 8), (''irr'', 8),
     (''errstatereg'', 1), (''res3'', 6), (''lvt_cmcireg'', 1), (''icr'', 2), (''lvt_timerreg'', 1),
     (''lvt_thermalreg'', 1), (''lvt_perfmonreg'', 1), (''lvt_lint0reg'', 1), (''lvt_lint1reg'', 1),
     (''lvt_errreg'', 1), (''initcountreg'', 1), (''currcountreg'', 1), (''res4'', 4), (''divcfgreg'', 1),
     (''res5'', 193)]"

fun field_offset :: "(string \<times> nat) list \<Rightarrow> string \<Rightarrow> nat option" where
  "field_offset [] f = None"
| "field_offset ((g, n) # fs) f = (if f = g then Some 0 else map_option ((+) (16 * n)) (field_offset fs f))"

definition reg :: "string \<Rightarrow> nat" where
  "reg f = the (field_offset regmap_layout f)"

definition regmap_size :: nat where
  "regmap_size = 16 * sum_list (map snd regmap_layout)"

section \<open>Operations\<close>

type_synonym mmio = "(nat \<times> u32) list"

definition reg_write :: "string \<Rightarrow> u32 \<Rightarrow> mmio \<Rightarrow> mmio" where
  "reg_write f v l = l @ [(reg f, v)]"

datatype TimerMode = OneShot | Periodic | TSCDeadline

definition mode_word :: "TimerMode \<Rightarrow> u32" where
  "mode_word mode = (case mode of OneShot \<Rightarrow> 0 | Periodic \<Rightarrow> 1 | TSCDeadline \<Rightarrow> 2)"

text \<open>\<open>&\<close> binds weaker than \<open><<\<close> in Rust, and stronger than \<open>|\<close>.\<close>

definition timer_divcfg :: "nat \<Rightarrow> u32 option" where
  "timer_divcfg divpow =
     (if divpow = 0 then Some 0b1011
      else if divpow \<le> 7 then
        Some (ucast ((word_of_nat (divpow - 1) :: u64) AND push_bit 3 0b100 OR word_of_nat (divpow - 1) AND 0b11))
      else None)"

definition timer_setup :: "u8 \<Rightarrow> TimerMode \<Rightarrow> nat \<Rightarrow> mmio \<Rightarrow> mmio option" where
  "timer_setup vector mode divpow l = do {
     let l = reg_write ''lvt_timerreg'' (ucast vector OR push_bit 17 (mode_word mode)) l;
     d \<leftarrow> timer_divcfg divpow;
     Some (reg_write ''divcfgreg'' d l) }"

definition timer_reset :: "nat \<Rightarrow> mmio \<Rightarrow> mmio" where
  "timer_reset init l = reg_write ''initcountreg'' (word_of_nat init) l"

definition spurious_setup :: "u8 \<Rightarrow> mmio \<Rightarrow> mmio" where
  "spurious_setup vector l = reg_write ''sivreg'' (ucast vector OR push_bit 8 1) l"

definition error_setup :: "u8 \<Rightarrow> mmio \<Rightarrow> mmio" where
  "error_setup vector l = reg_write ''lvt_errreg'' (ucast vector) l"

definition lint_setup :: "nat \<Rightarrow> u16 \<Rightarrow> mmio \<Rightarrow> mmio option" where
  "lint_setup lint flags l =
     (if lint = 0 then Some (reg_write ''lvt_lint0reg'' (ucast flags) l)
      else if lint = 1 then Some (reg_write ''lvt_lint1reg'' (ucast flags) l)
      else None)"

definition eoi :: "mmio \<Rightarrow> mmio" where
  "eoi l = reg_write ''eoireg'' 0 l"

section \<open>What the hardware sees\<close>

lemma reg_offsets:
  "reg ''idreg'' = 0x20" "reg ''eoireg'' = 0xB0" "reg ''sivreg'' = 0xF0" "reg ''lvt_timerreg'' = 0x320"
  "reg ''lvt_lint0reg'' = 0x350" "reg ''lvt_lint1reg'' = 0x360" "reg ''lvt_errreg'' = 0x370"
  "reg ''initcountreg'' = 0x380" "reg ''currcountreg'' = 0x390" "reg ''divcfgreg'' = 0x3E0"
  by (simp_all add: reg_def regmap_layout_def)

text \<open>
  The registers of the local APIC by the offset the processor's manual gives them; these are
  the ones the kernel uses.
\<close>

definition manual_offset :: "(string \<times> nat) list" where
  "manual_offset = [(''idreg'', 0x20), (''verreg'', 0x30), (''taskprreg'', 0x80), (''eoireg'', 0xB0),
     (''sivreg'', 0xF0), (''isr'', 0x100), (''tmr'', 0x180), (''irr'', 0x200), (''errstatereg'', 0x280),
     (''lvt_cmcireg'', 0x2F0), (''icr'', 0x300), (''lvt_timerreg'', 0x320), (''lvt_thermalreg'', 0x330),
     (''lvt_perfmonreg'', 0x340), (''lvt_lint0reg'', 0x350), (''lvt_lint1reg'', 0x360), (''lvt_errreg'', 0x370),
     (''initcountreg'', 0x380), (''currcountreg'', 0x390), (''divcfgreg'', 0x3E0)]"


text \<open>The divisor that bits 0, 1 and 3 of the divide configuration register select.\<close>

definition divisor :: "u32 \<Rightarrow> nat" where
  "divisor v = (let c = (if bit v 3 then 4 else 0) + (if bit v 1 then 2 else 0) + (if bit v 0 then 1 else 0)
     in if c = (7 :: nat) then 1 else 2 ^ (c + 1))"

text \<open>
  Up to 16 the timer runs at the divisor asked for. For the three larger ones the bit that
  should be moved to position 3 is lost, and it runs 16 times faster.
\<close>

lemma timer_divisor:
  "divpow \<le> 4 \<Longrightarrow> \<exists>v. timer_divcfg divpow = Some v \<and> divisor v = 2 ^ divpow"
  "divpow \<in> {5, 6, 7} \<Longrightarrow> \<exists>v. timer_divcfg divpow = Some v \<and> 16 * divisor v = 2 ^ divpow"
proof -
  show "\<exists>v. timer_divcfg divpow = Some v \<and> divisor v = 2 ^ divpow" if "divpow \<le> 4"
  proof -
    from that consider "divpow = 0" | "divpow = 1" | "divpow = 2" | "divpow = 3" | "divpow = 4" by linarith
    then show ?thesis by cases (simp_all add: timer_divcfg_def divisor_def)
  qed
  show "\<exists>v. timer_divcfg divpow = Some v \<and> 16 * divisor v = 2 ^ divpow" if "divpow \<in> {5, 6, 7}"
    using that by (auto simp: timer_divcfg_def divisor_def)
qed

end
