(* ===== verification/Exec.thy ===== *)
theory Exec
  imports Memory_Map Elf Context Framebuffer Lapic
begin

text \<open>
  Creating tasks, \<open>Task\<close> of \<open>kernel/src/proc/task.rs\<close>: \<open>exec\<close> loads the segments of an ELF file into
  frames of its own, gives the task a stack and enters it in the list of tasks. A file is a
  slice of the ramdisk; \<open>k_file\<close> is the memory it is read from. A slice borrowed by \<open>exec\<close> cannot
  change while the function runs, so this memory is a constant of the run. \<open>k_pm\<close> is the content
  of the frames the kernel writes.
\<close>

section \<open>Tasks\<close>

definition USERSPACE_TOP :: nat where
  "USERSPACE_TOP = 0x7fffffffffff"

definition USERSTACK_SIZE :: nat where
  "USERSTACK_SIZE = 512 * 1024"

definition USERSTACK_BOTTOM :: nat where
  "USERSTACK_BOTTOM = USERSPACE_TOP + 1 - 1024 * 1024"

definition USERSTACK_TOP :: nat where
  "USERSTACK_TOP = USERSTACK_BOTTOM - USERSTACK_SIZE"

datatype TaskState = Running nat | Pending

record Task =
  task_id :: nat
  priority :: nat
  procstate :: TaskProcState
  memory_map :: MemoryMap
  state :: TaskState

datatype ExecResult =
    Success nat
  | FileError
  | ParseError
  | InsecureLoad nat nat
  | AllocationError
  | LargeAlignment nat
  | LargeSize nat
  | BinaryEnd nat nat
  | UnsupportedDirective nat

text \<open>The selectors of a core's descriptor table.\<close>

record KernelGlobalDescriptorTable =
  kcode_seg :: u16
  kdata_seg :: u16
  ucode_seg :: u16
  udata_seg :: u16
  tss_seg :: u16

text \<open>
  The state of the kernel that tasks live in. An \<open>Arc<RwLock<Task>>\<close> is named by the id of its
  task, which is never used twice: \<open>k_tasks\<close> is the list \<open>TASKS\<close> of such references, \<open>k_store\<close>
  what they refer to, and a processor's \<open>current_task\<close> is another such reference. \<open>k_lapic\<close> holds the
  writes of each core to its local APIC, \<open>k_fb\<close> and \<open>k_screen\<close> the framebuffer and the memory it is
  drawn in, \<open>k_count\<close> the counter of the timer interrupts of the primary core.
\<close>

record kernel =
  k_mem :: machine
  k_pm :: memory
  k_file :: memory
  k_initrd :: "initrd option"
  k_gdt :: "nat \<Rightarrow> KernelGlobalDescriptorTable"
  k_tasks :: "nat list"
  k_store :: "nat \<rightharpoonup> Task"
  k_idcount :: nat
  k_clock :: nat
  k_numcores :: nat
  k_procs :: "nat \<rightharpoonup> ProcInfo"
  k_bspid :: nat
  k_lapic :: "nat \<Rightarrow> mmio"
  k_fb :: "Framebuffer option"
  k_screen :: memory
  k_count :: nat

definition TaskProcState_new :: "KernelGlobalDescriptorTable \<Rightarrow> nat \<Rightarrow> TaskProcState" where
  "TaskProcState_new kgdt entry = \<lparr>ts_rip = word_of_nat entry, ts_rflags = 0x200,
     ts_code_seg = ucast (ucode_seg kgdt), ts_data_seg = ucast (udata_seg kgdt),
     ts_rsp = word_of_nat USERSTACK_BOTTOM, ts_rbp = 0, ts_rsi = 0, ts_rdi = 0, ts_r8 = 0, ts_r9 = 0, ts_r10 = 0,
     ts_r11 = 0, ts_r12 = 0, ts_r13 = 0, ts_r14 = 0, ts_r15 = 0, ts_rax = 0, ts_rbx = 0, ts_rcx = 0, ts_rdx = 0\<rparr>"

definition new_locked :: "TaskProcState \<Rightarrow> MemoryMap \<Rightarrow> kernel \<Rightarrow> (nat \<times> kernel) option" where
  "new_locked ps mm k = do {
     idcount \<leftarrow> add64 (k_idcount k) 1;
     let task = \<lparr>task_id = idcount, priority = 0, procstate = ps, memory_map = mm, state = Pending\<rparr>;
     Some (idcount, k\<lparr>k_idcount := idcount, k_store := (k_store k)(idcount \<mapsto> task),
       k_tasks := k_tasks k @ [idcount]\<rparr>) }"

definition life_expectancy :: "Task \<Rightarrow> nat \<Rightarrow> nat option" where
  "life_expectancy t numcores = do {
     p \<leftarrow> add64 (priority t) 10;
     mul64 p numcores }"

section \<open>Loading a file\<close>

text \<open>
  The body of the loop over the program headers, with the memory map, the machine and the
  content of memory as its state.
\<close>

definition load_segment :: "x86 \<Rightarrow> nat \<Rightarrow> memory \<Rightarrow> ElfFile \<Rightarrow> ProgramHeader \<Rightarrow> MemoryMap \<times> machine \<times> memory \<Rightarrow>
    ((ExecResult \<times> MemoryMap \<times> machine \<times> memory) + (MemoryMap \<times> machine \<times> memory)) option" where
  "load_segment X core mem elf p s = (case s of (mm, m, pm) \<Rightarrow>
     if ph_ptype p \<noteq> PT_Load then Some (Inr s)
     else if PAGE_SIZE < ph_align p then Some (Inl (LargeAlignment (ph_align p), s))
     else do {
       end \<leftarrow> add64 (ph_vadr p) (ph_mem_size p);
       if USERSPACE_TOP \<le> end then Some (Inl (InsecureLoad (ph_vadr p) (ph_mem_size p), s))
       else if TMP_TASK_SIZE_PER_PROC < ph_mem_size p then Some (Inl (LargeSize (ph_mem_size p), s))
       else do {
         content \<leftarrow> slice elf (ph_offset p) (ph_file_size p);
         case content of
           None \<Rightarrow> Some (Inl (BinaryEnd (ph_offset p) (ph_file_size p), s))
         | Some (adr, len) \<Rightarrow> do {
             let flags = memory_flags p \<union> {USER_ACCESSIBLE};
             let page_start = page_containing X (virt_new_truncate X (ph_vadr p));
             end \<leftarrow> add64 (ph_mem_size p) (ph_vadr p);
             nbytes \<leftarrow> sub64 end page_start;
             nbytes \<leftarrow> align_up X nbytes PAGE_SIZE;
             let pgn = nbytes div PAGE_SIZE;
             (r, mm, m) \<leftarrow> allocate X page_start pgn flags mm m;
             case r of
               None \<Rightarrow> Some (Inl (AllocationError, mm, m, pm))
             | Some frames \<Rightarrow> do {
                 off \<leftarrow> sub64 (ph_vadr p) page_start;
                 (data, m) \<leftarrow> tmp_local_reserve X core off frames m;
                 pm \<leftarrow> write_bytes X data (replicate (ph_mem_size p) 0) m pm;
                 _ \<leftarrow> rassert (len \<le> ph_mem_size p);
                 pm \<leftarrow> write_bytes X data (bytes mem adr len) m pm;
                 Some (Inr (mm, m, pm)) } } } })"

text \<open>An early return drops the memory map.\<close>

definition exec_return :: "x86 \<Rightarrow> ExecResult \<Rightarrow> MemoryMap \<Rightarrow> machine \<Rightarrow> memory \<Rightarrow> kernel \<Rightarrow> (ExecResult \<times> kernel) option" where
  "exec_return X r mm m pm k = do {
     m \<leftarrow> map_drop X mm m;
     Some (r, k\<lparr>k_mem := m, k_pm := pm\<rparr>) }"

definition exec :: "x86 \<Rightarrow> nat \<Rightarrow> ElfFile \<Rightarrow> kernel \<Rightarrow> (ExecResult \<times> kernel) option" where
  "exec X core elf k = do {
     r \<leftarrow> for_headers (k_file k) elf (load_segment X core (k_file k) elf) 0 (MemoryMap_new, k_mem k, k_pm k);
     case r of
       Inl (r, mm, m, pm) \<Rightarrow> exec_return X r mm m pm k
     | Inr (mm, m, pm) \<Rightarrow> do {
         page_start \<leftarrow> page_from_start X USERSTACK_TOP;
         let pgn = USERSTACK_SIZE div PAGE_SIZE;
         (r, mm, m) \<leftarrow> allocate X page_start pgn {USER_ACCESSIBLE, WRITABLE} mm m;
         case r of
           None \<Rightarrow> exec_return X AllocationError mm m pm k
         | Some frames \<Rightarrow> do {
             (data, m) \<leftarrow> tmp_local_reserve X core 0 frames m;
             pm \<leftarrow> write_bytes X data (replicate USERSTACK_SIZE 0) m pm;
             let ps = TaskProcState_new (k_gdt k core) (entrypoint X (ef_header elf));
             (id, k) \<leftarrow> new_locked ps mm (k\<lparr>k_mem := m, k_pm := pm\<rparr>);
             Some (Success id, k) } } }"

definition exec_raw :: "x86 \<Rightarrow> nat \<Rightarrow> nat \<times> nat \<Rightarrow> kernel \<Rightarrow> (ExecResult \<times> kernel) option" where
  "exec_raw X core content k = do {
     elf \<leftarrow> parse X (k_file k) (fst content) (snd content);
     case elf of
       Some elf \<Rightarrow> exec X core elf k
     | None \<Rightarrow> Some (ParseError, k) }"

definition exec_initrd :: "x86 \<Rightarrow> nat \<Rightarrow> u8 list \<Rightarrow> kernel \<Rightarrow> (ExecResult \<times> kernel) option" where
  "exec_initrd X core file_path k = do {
     file \<leftarrow> open_file (k_initrd k) file_path;
     case file of
       Some content \<Rightarrow> exec_raw X core content k
     | None \<Rightarrow> Some (FileError, k) }"

section \<open>Loaded memory\<close>

text \<open>
  A block of a task's memory: the page it starts in, the flags of its pages, the offset of the
  data in the first page and the data.
\<close>

record block =
  b_page :: nat
  b_flags :: pflags
  b_off :: nat
  b_data :: "u8 list"

definition block_pages :: "block \<Rightarrow> nat" where
  "block_pages b = page_count (b_off b + length (b_data b))"

definition block_maps :: "block list \<Rightarrow> nat list list \<Rightarrow> MemoryMapping list" where
  "block_maps bs fss = concat (map (\<lambda>(b, fs). frame_maps (b_page b) (b_flags b) fs) (zip bs fss))"

definition block_ok :: "block \<Rightarrow> bool" where
  "block_ok b \<longleftrightarrow> range_ok (b_page b) (block_pages b) \<and> block_pages b \<le> tmp_pages \<and> b_off b < 4096"

text \<open>
  The blocks \<open>bs\<close> have been loaded into the frames \<open>fss\<close>: the map holds their pages in order, the
  frames hold the data, and they are frames that were free, that are free no longer, and of
  which none is a page table.
\<close>

definition loaded :: "x86 \<Rightarrow> nat \<Rightarrow> machine \<Rightarrow> memory \<Rightarrow> block list \<Rightarrow> nat list list \<Rightarrow> MemoryMap \<times> machine \<times> memory \<Rightarrow> bool" where
  "loaded X core m0 pm0 bs fss s \<longleftrightarrow> (case s of (mm, m, pm) \<Rightarrow>
     mm = MemoryMap_new\<lparr>mappings := block_maps bs fss\<rparr> \<and>
     list_all2 (\<lambda>b fs. length fs = block_pages b \<and>
       (\<forall>j<length (b_data b). frame_byte fs pm (b_off b + j) = b_data b ! j)) bs fss \<and>
     frames_ok (concat fss) \<and> set (concat fss) \<subseteq> free_frames (m_phys m0) - free_frames (m_phys m) \<and>
     (\<forall>f q. f \<in> set (concat fss) \<and> tpath q \<longrightarrow> node X m q \<noteq> Some f) \<and>
     (\<forall>a. a - a mod 4096 \<notin> set (concat fss) \<longrightarrow> pm a = pm0 a) \<and>
     mp_inv X m \<and> moved X {} (slots X (pages (tmp_page core) tmp_pages)) (4 * length (concat fss)) m0 m)"

lemma block_length: "b_off b + length (b_data b) \<le> block_pages b * 4096"
proof -
  let ?n = "b_off b + length (b_data b)"
  have "round_up ?n 4096 div 4096 * 4096 = round_up ?n 4096"
    using round_up_dvd [of 4096 ?n] by (rule dvd_div_mult_self)
  then show ?thesis using round_up_ge [of 4096 ?n] by (simp add: block_pages_def page_count_def)
qed

context x86_crate
begin

lemma loaded_Nil: "mp_inv X m \<Longrightarrow> loaded X core m pm [] [] (MemoryMap_new, m, pm)"
  by (simp add: loaded_def block_maps_def moved_refl MemoryMap_new_def frames_ok_def)

lemma block_maps_snoc:
  "length bs = length fss \<Longrightarrow>
   block_maps (bs @ [b]) (fss @ [fs]) = block_maps bs fss @ frame_maps (b_page b) (b_flags b) fs"
  by (simp add: block_maps_def)

text \<open>Writing to other frames leaves the bytes of a block alone.\<close>

lemma frame_byte_other:
  assumes "frames_ok gs" "set gs \<inter> set fs = {}" "k < length gs * 4096"
    and "\<forall>a. a - a mod 4096 \<notin> set fs \<longrightarrow> pm' a = pm a"
  shows "frame_byte gs pm' k = frame_byte gs pm k"
proof -
  let ?f = "gs ! (k div 4096)"
  have f: "?f \<in> set gs" using assms(3) by (simp add: div_less_iff_less_mult)
  then have "page_aligned ?f" using assms(1) by (simp add: frames_ok_def)
  from aligned_offset(2) [OF this, of k] f assms(2)
  have "(?f + k mod 4096) - (?f + k mod 4096) mod 4096 \<notin> set fs" by auto
  with assms(4) show ?thesis by (simp add: frame_byte_def)
qed

lemma loaded_extend:
  assumes L: "loaded X core m0 pm0 bs fss (mm, m, pm)"
    and fs: "length fs = block_pages b" "frames_ok fs" "set fs \<subseteq> free_frames (m_phys m)"
    and m1: "free_frames (m_phys m1) = free_frames (m_phys m) - set fs" "node X m1 = node X m"
      "moved X {} {} (length fs) m m1"
    and m2: "mp_inv X m2" "moved X {} (slots X (pages (tmp_page core) tmp_pages)) (3 * length fs) m1 m2"
    and d: "\<forall>j<length (b_data b). frame_byte fs pm' (b_off b + j) = b_data b ! j"
    and other: "\<forall>a. a - a mod 4096 \<notin> set fs \<longrightarrow> pm' a = pm a"
  shows "loaded X core m0 pm0 (bs @ [b]) (fss @ [fs])
    (mm\<lparr>mappings := mappings mm @ frame_maps (b_page b) (b_flags b) fs\<rparr>, m2, pm')"
proof -
  note L' = L [unfolded loaded_def prod.case]
  let ?tmp = "slots X (pages (tmp_page core) tmp_pages)"
  have la: "list_all2 (\<lambda>b fs. length fs = block_pages b \<and>
      (\<forall>j<length (b_data b). frame_byte fs pm (b_off b + j) = b_data b ! j)) bs fss"
    and fok: "frames_ok (concat fss)" and mv: "moved X {} ?tmp (4 * length (concat fss)) m0 m"
    and inv: "mp_inv X m" and sub: "set (concat fss) \<subseteq> free_frames (m_phys m0) - free_frames (m_phys m)"
    using L' by simp_all
  have dis: "set (concat fss) \<inter> set fs = {}" using sub fs(3) by blast
  have free2: "free_frames (m_phys m2) \<subseteq> free_frames (m_phys m) - set fs"
    using m2(2) m1(1) by (simp add: moved_def)
  have free0: "free_frames (m_phys m) \<subseteq> free_frames (m_phys m0)" using mv by (simp add: moved_def)
  have "list_all2 (\<lambda>b fs. length fs = block_pages b \<and>
      (\<forall>j<length (b_data b). frame_byte fs pm' (b_off b + j) = b_data b ! j)) bs fss"
  proof (rule list_all2_all_nthI [OF list_all2_lengthD [OF la]], intro conjI allI impI)
    fix i assume i: "i < length bs"
    note n = list_all2_nthD [OF la i]
    then show "length (fss ! i) = block_pages (bs ! i)" by simp
    fix j assume j: "j < length (b_data (bs ! i))"
    have g: "fss ! i \<in> set fss" using i list_all2_lengthD [OF la] by simp
    then have "frames_ok (fss ! i)" using fok by (auto simp: frames_ok_def distinct_concat_iff)
    moreover have "set (fss ! i) \<inter> set fs = {}" using dis g by auto
    moreover have "b_off (bs ! i) + j < length (fss ! i) * 4096" using block_length [of "bs ! i"] j n by simp
    ultimately have "frame_byte (fss ! i) pm' (b_off (bs ! i) + j) = frame_byte (fss ! i) pm (b_off (bs ! i) + j)"
      by (rule frame_byte_other [OF _ _ _ other])
    with n j show "frame_byte (fss ! i) pm' (b_off (bs ! i) + j) = b_data (bs ! i) ! j" by simp
  qed
  then have "list_all2 (\<lambda>b fs. length fs = block_pages b \<and>
      (\<forall>j<length (b_data b). frame_byte fs pm' (b_off b + j) = b_data b ! j)) (bs @ [b]) (fss @ [fs])"
    using fs(1) d by (intro list_all2_appendI) simp_all
  moreover have "frames_ok (concat (fss @ [fs]))" using fok fs(2) dis by (auto simp: frames_ok_def)
  moreover have "set (concat (fss @ [fs])) \<subseteq> free_frames (m_phys m0) - free_frames (m_phys m2)"
    using sub fs(3) free0 free2 by auto
  moreover have "node X m2 q \<noteq> Some f" if "f \<in> set (concat (fss @ [fs]))" "tpath q" for f q
  proof
    assume "node X m2 q = Some f"
    then have n: "node X m q = Some f \<or> f \<in> free_frames (m_phys m) - set fs"
      using m2(2) that(2) unfolding moved_def m1(1,2) by blast
    from that(1) consider "f \<in> set (concat fss)" | "f \<in> set fs" by auto
    then show False
    proof cases
      case 1
      with n L' sub that(2) show False by blast
    next
      case 2
      with n fs(3) tree_okD(1) [OF mp_inv_tree [OF inv] that(2)] show False by blast
    qed
  qed
  moreover have "pm' a = pm0 a" if "a - a mod 4096 \<notin> set (concat (fss @ [fs]))" for a
    using that other L' by simp
  moreover have "moved X {} ?tmp (4 * length (concat (fss @ [fs]))) m0 m2"
    using moved_trans [OF moved_trans [OF mv m1(3)] m2(2)] by (simp add: algebra_simps)
  moreover have "mm\<lparr>mappings := mappings mm @ frame_maps (b_page b) (b_flags b) fs\<rparr> =
      MemoryMap_new\<lparr>mappings := block_maps (bs @ [b]) (fss @ [fs])\<rparr>"
    using L' block_maps_snoc [OF list_all2_lengthD [OF la]] by simp
  ultimately show ?thesis using m2(1) unfolding loaded_def prod.case by blast
qed

text \<open>One block: the frames are allocated and mapped, and whatever puts the data there loads it.\<close>

lemma load_block:
  assumes L: "loaded X core m0 pm0 bs fss (mm, m, pm)" and b: "block_ok b" and core: "core < 256"
    and m0: "2 \<le> vc_room (m_vcache m0)" "\<forall>a \<in> pages (tmp_page core) tmp_pages. path_ok X m0 a"
    and card: "4 * block_pages b \<le> card (free_frames (m_phys m))"
  obtains fs mm' m1 m2 where
    "allocate X (b_page b) (block_pages b) (b_flags b) mm m = Some (Some fs, mm', m1)"
    "tmp_local_reserve X core (b_off b) fs m1 = Some (tmp_page core + b_off b, m2)"
    "length fs = block_pages b" "frames_ok fs" "window_on X m2 (tmp_page core) fs"
    "\<And>pm'. (\<forall>j<length (b_data b). frame_byte fs pm' (b_off b + j) = b_data b ! j) \<Longrightarrow>
       (\<forall>a. a - a mod 4096 \<notin> set fs \<longrightarrow> pm' a = pm a) \<Longrightarrow>
       loaded X core m0 pm0 (bs @ [b]) (fss @ [fs]) (mm', m2, pm')"
proof -
  note L' = L [unfolded loaded_def prod.case]
  let ?n = "block_pages b" and ?tmp = "slots X (pages (tmp_page core) tmp_pages)"
  have inv: "mp_inv X m" and pinv: "phys_inv (m_phys m)" and mv: "moved X {} ?tmp (4 * length (concat fss)) m0 m"
    using L' by (simp_all add: mp_inv_def)
  have r: "range_ok (b_page b) ?n" and tp: "?n \<le> tmp_pages" and off: "b_off b < 4096"
    using b by (simp_all add: block_ok_def)
  obtain fs ph where a: "allocate X (b_page b) ?n (b_flags b) mm m =
      Some (Some fs, mm\<lparr>mappings := mappings mm @ frame_maps (b_page b) (b_flags b) fs\<rparr>, m\<lparr>m_phys := ph\<rparr>)"
    "length fs = ?n" "distinct fs" "set fs \<subseteq> free_frames (m_phys m)"
    "free_frames ph = free_frames (m_phys m) - set fs" "managed ph = managed (m_phys m)" "phys_inv ph"
    using allocate_ok [OF pinv _ r, of "b_flags b" mm] card by auto
  define m1 where "m1 = m\<lparr>m_phys := ph\<rparr>"
  have m1: "m_vcache m1 = m_vcache m" "m_phys m1 = ph" "node X m1 = node X m" "path_ok X m1 = path_ok X m"
      "m_cr3 m1 = m_cr3 m" "m_p4page m1 = m_p4page m" "ent X m1 = ent X m"
    by (simp_all add: m1_def same_tables [of "m\<lparr>m_phys := ph\<rparr>" m])
  have inv1: "mp_inv X m1"
    unfolding m1_def by (rule mp_inv_phys [OF inv a(7)]) (use tree_okD(1) [OF mp_inv_tree [OF inv]] a(5) in blast)
  have cf: "card (free_frames (m_phys m)) = card (free_frames ph) + ?n"
    using a(2-5) card_Diff_subset [of "set fs" "free_frames (m_phys m)"] card_mono [OF finite_free_frames a(4)]
    by (simp add: distinct_card)
  have mv1: "moved X {} {} ?n m m1"
    unfolding moved_def m1 using a(5,6) cf by auto
  have al: "\<forall>f \<in> set fs. page_aligned f \<and> f + 4096 \<le> 2 ^ 52"
    using frame_bound [OF pinv] a(4) phys.avail_owned [OF pinv] by blast
  have fok: "frames_ok fs" using a(3) al by (simp add: frames_ok_def)
  have "\<forall>a \<in> pages (tmp_page core) tmp_pages. path_ok X m1 a" using m0(2) mv by (simp add: m1 moved_def)
  moreover have "2 \<le> vc_room (m_vcache m1)" using m0(1) mv by (simp add: m1 moved_def)
  moreover have "3 * length fs \<le> card (free_frames (m_phys m1))" using card cf a(2) by (simp add: m1)
  ultimately obtain m2 where t: "tmp_local_reserve X core (b_off b) fs m1 = Some (tmp_page core + b_off b, m2)"
    "mp_inv X m2" "moved X {} ?tmp (3 * length fs) m1 m2" "window_on X m2 (tmp_page core) fs"
    using tmp_reserve_ok [OF inv1 _ core _ _ _ al off] tp a(2) by auto
  define mm' where "mm' = mm\<lparr>mappings := mappings mm @ frame_maps (b_page b) (b_flags b) fs\<rparr>"
  have new: "loaded X core m0 pm0 (bs @ [b]) (fss @ [fs]) (mm', m2, pm')"
    if "\<forall>j<length (b_data b). frame_byte fs pm' (b_off b + j) = b_data b ! j"
      and "\<forall>a. a - a mod 4096 \<notin> set fs \<longrightarrow> pm' a = pm a" for pm'
    unfolding mm'_def
    by (rule loaded_extend [OF L a(2) fok a(4) _ m1(3) _ t(2,3) that]) (use a(2,5) mv1 in \<open>simp_all add: m1\<close>)
  show ?thesis
    by (rule that [OF a(1) [folded m1_def mm'_def] t(1) a(2) fok t(4) new])
qed

lemma loaded_card:
  assumes "loaded X core m0 pm0 bs fss (mm, m, pm)"
  shows "card (free_frames (m_phys m0)) \<le> card (free_frames (m_phys m)) + 4 * sum_list (map block_pages bs)"
proof -
  have "list_all2 (\<lambda>b fs. length fs = block_pages b) bs fss"
    using assms unfolding loaded_def prod.case by (auto elim: list_all2_mono)
  then have "length (concat fss) = sum_list (map block_pages bs)"
    by (induction rule: list_all2_induct) simp_all
  then show ?thesis using assms by (simp add: loaded_def moved_def)
qed

end

section \<open>Segments\<close>

definition seg_block :: "memory \<Rightarrow> ElfFile \<Rightarrow> ProgramHeader \<Rightarrow> block" where
  "seg_block mem elf p = \<lparr>b_page = round_down (ph_vadr p) 4096, b_flags = memory_flags p \<union> {USER_ACCESSIBLE},
     b_off = ph_vadr p mod 4096,
     b_data = bytes mem (ef_adr elf + ph_offset p) (ph_file_size p) @ replicate (ph_mem_size p - ph_file_size p) 0\<rparr>"

lemma seg_block_simps [simp]:
  "b_page (seg_block mem elf p) = round_down (ph_vadr p) 4096"
  "b_flags (seg_block mem elf p) = memory_flags p \<union> {USER_ACCESSIBLE}"
  "b_off (seg_block mem elf p) = ph_vadr p mod 4096"
  "b_data (seg_block mem elf p) =
     bytes mem (ef_adr elf + ph_offset p) (ph_file_size p) @ replicate (ph_mem_size p - ph_file_size p) 0"
  by (simp_all add: seg_block_def)

definition stack_block :: block where
  "stack_block = \<lparr>b_page = USERSTACK_TOP, b_flags = {USER_ACCESSIBLE, WRITABLE}, b_off = 0,
     b_data = replicate USERSTACK_SIZE 0\<rparr>"

text \<open>Everything \<open>exec\<close> loads: the segments in the order of the table, then the stack.\<close>

definition exec_blocks :: "memory \<Rightarrow> ElfFile \<Rightarrow> block list" where
  "exec_blocks mem elf =
     map (seg_block mem elf) (filter (\<lambda>p. ph_ptype p = PT_Load) (headers_from mem elf 0)) @ [stack_block]"

text \<open>The checks of \<open>exec\<close>, and the one it leaves to the bounds check of the copy.\<close>

definition segment_ok :: "ElfFile \<Rightarrow> ProgramHeader \<Rightarrow> bool" where
  "segment_ok elf p \<longleftrightarrow> ph_align p \<le> PAGE_SIZE \<and> ph_vadr p + ph_mem_size p < USERSPACE_TOP \<and>
     ph_mem_size p \<le> TMP_TASK_SIZE_PER_PROC \<and> ph_offset p + ph_file_size p \<le> ef_size elf \<and>
     ph_file_size p \<le> ph_mem_size p"

lemma round_down_mod: "a - round_down a 4096 = a mod 4096" "round_down a 4096 + a mod 4096 = a"
  by (simp_all add: round_down_def minus_div_mult_eq_mod)

lemma page_end:
  assumes "vadr + n < 2 ^ 47"
  shows "round_down vadr 4096 + round_up (vadr mod 4096 + n) 4096 \<le> 2 ^ 47"
proof -
  let ?e = "round_down vadr 4096 + round_up (vadr mod 4096 + n) 4096"
  have "4096 dvd ?e" by (intro dvd_add round_down_dvd round_up_dvd)
  then obtain k where k: "?e = 4096 * k" by (elim dvdE)
  have "?e < 2 ^ 47 + 4096"
    using round_up_less [of 4096 "vadr mod 4096 + n"] round_down_mod(2) [of vadr] assms by linarith
  then show ?thesis unfolding k by simp
qed

lemma seg_block_ok:
  assumes "segment_ok elf p"
  shows "block_ok (seg_block mem elf p)"
    and "block_pages (seg_block mem elf p) = round_up (ph_vadr p mod 4096 + ph_mem_size p) 4096 div 4096"
proof -
  note ok = assms [unfolded segment_ok_def USERSPACE_TOP_def TMP_TASK_SIZE_PER_PROC_def]
  let ?n = "ph_vadr p mod 4096 + ph_mem_size p"
  show n: "block_pages (seg_block mem elf p) = round_up ?n 4096 div 4096"
    using ok by (simp add: block_pages_def page_count_def)
  have mult: "round_up ?n 4096 div 4096 * 4096 = round_up ?n 4096" using round_up_dvd [of 4096 ?n] by simp
  have "ph_vadr p mod 4096 < 4096" "ph_mem_size p \<le> 2 ^ 35" using ok by simp_all
  moreover have "round_up ?n 4096 < ?n + 4096" by (rule round_up_less) simp
  ultimately have "round_up ?n 4096 < 2 ^ 35 + 2 * 4096" by linarith
  then have "round_up ?n 4096 div 4096 \<le> 2 ^ 23 + 1" by simp
  then show "block_ok (seg_block mem elf p)"
    using page_end [of "ph_vadr p" "ph_mem_size p"] ok round_down_dvd [of 4096 "ph_vadr p"] mult
    by (simp add: block_ok_def n range_ok_def tmp_pages_def mod_eq_0_iff_dvd)
qed

context x86_crate
begin

lemma load_segment_ok:
  assumes L: "loaded X core m0 pm0 bs fss s" and p: "ph_ptype p = PT_Load" "segment_ok elf p" and core: "core < 256"
    and m0: "2 \<le> vc_room (m_vcache m0)" "\<forall>a \<in> pages (tmp_page core) tmp_pages. path_ok X m0 a"
    and card: "4 * (sum_list (map block_pages bs) + block_pages (seg_block mem elf p)) \<le> card (free_frames (m_phys m0))"
    and sz: "ef_size elf < 2 ^ 64"
  obtains fs s' where "load_segment X core mem elf p s = Some (Inr s')"
    "loaded X core m0 pm0 (bs @ [seg_block mem elf p]) (fss @ [fs]) s'"
proof -
  obtain mm m pm where s: "s = (mm, m, pm)" by (cases s)
  let ?b = "seg_block mem elf p"
  note n = seg_block_ok(2) [OF p(2), of mem]
  note ok = p(2) [unfolded segment_ok_def USERSPACE_TOP_def TMP_TASK_SIZE_PER_PROC_def]
  have "4 * block_pages ?b \<le> card (free_frames (m_phys m))"
    using loaded_card [OF L [unfolded s]] card by simp
  from load_block [OF L [unfolded s] seg_block_ok(1) [OF p(2)] core m0 this]
  obtain fs mm' m1 m2 where a: "allocate X (b_page ?b) (block_pages ?b) (b_flags ?b) mm m = Some (Some fs, mm', m1)"
    "tmp_local_reserve X core (b_off ?b) fs m1 = Some (tmp_page core + b_off ?b, m2)"
    "length fs = block_pages ?b" "frames_ok fs" "window_on X m2 (tmp_page core) fs"
    and ld: "\<And>pm'. (\<forall>j<length (b_data ?b). frame_byte fs pm' (b_off ?b + j) = b_data ?b ! j) \<Longrightarrow>
       (\<forall>a. a - a mod 4096 \<notin> set fs \<longrightarrow> pm' a = pm a) \<Longrightarrow>
       loaded X core m0 pm0 (bs @ [?b]) (fss @ [fs]) (mm', m2, pm')"
    by metis
  have len: "b_off ?b + ph_mem_size p \<le> length fs * 4096"
    using block_length [of ?b] ok by (simp add: a(3))
  let ?c = "bytes mem (ef_adr elf + ph_offset p) (ph_file_size p)"
  obtain pm1 where w1: "write_bytes X (tmp_page core + b_off ?b) (replicate (ph_mem_size p) 0) m2 pm = Some pm1"
    "\<forall>k<length fs * 4096. frame_byte fs pm1 k =
       (if b_off ?b \<le> k \<and> k < b_off ?b + ph_mem_size p then replicate (ph_mem_size p) 0 ! (k - b_off ?b) else frame_byte fs pm k)"
    "\<forall>a. a - a mod 4096 \<notin> set fs \<longrightarrow> pm1 a = pm a"
    using write_bytes_window [OF a(5,4), of "b_off ?b" "replicate (ph_mem_size p) 0" pm] len by auto
  obtain pm2 where w2: "write_bytes X (tmp_page core + b_off ?b) ?c m2 pm1 = Some pm2"
    "\<forall>k<length fs * 4096. frame_byte fs pm2 k =
       (if b_off ?b \<le> k \<and> k < b_off ?b + ph_file_size p then ?c ! (k - b_off ?b) else frame_byte fs pm1 k)"
    "\<forall>a. a - a mod 4096 \<notin> set fs \<longrightarrow> pm2 a = pm1 a"
    using write_bytes_window [OF a(5,4), of "b_off ?b" ?c pm1] len ok by auto
  have "frame_byte fs pm2 (b_off ?b + j) = b_data ?b ! j" if "j < length (b_data ?b)" for j
    using w1(2) w2(2) that len ok by (simp add: nth_append)
  then have new: "loaded X core m0 pm0 (bs @ [?b]) (fss @ [fs]) (mm', m2, pm2)"
    using w1(3) w2(3) by (intro ld) simp_all
  have v: "virt_new_truncate X (ph_vadr p) = ph_vadr p"
    using ok by (simp add: virt_new_truncate_eq sign_extend47_def)
  have "round_up (ph_vadr p mod 4096 + ph_mem_size p) 4096 < 2 ^ 64"
    using page_end [of "ph_vadr p" "ph_mem_size p"] ok by simp
  moreover have "ph_mem_size p + ph_vadr p - round_down (ph_vadr p) 4096 = ph_vadr p mod 4096 + ph_mem_size p"
    "round_down (ph_vadr p) 4096 \<le> ph_mem_size p + ph_vadr p"
    using round_down_mod(2) [of "ph_vadr p"] by linarith+
  ultimately have "load_segment X core mem elf p s = Some (Inr (mm', m2, pm2))"
    using a(1,2) w1(1) w2(1) ok p(1) sz round_down_le [of "ph_vadr p" 4096] unfolding n s load_segment_def
    by (simp add: add64_def sub64_def slice_def page_containing_eq v align_up_4096 round_down_mod
        USERSPACE_TOP_def TMP_TASK_SIZE_PER_PROC_def)
  then show ?thesis using new by (rule that)
qed

lemma load_all_ok:
  assumes "loaded X core m0 pm0 bs fss s" "\<forall>p \<in> set hs. ph_ptype p = PT_Load \<longrightarrow> segment_ok elf p"
    "4 * (sum_list (map block_pages bs) +
       sum_list (map (\<lambda>p. block_pages (seg_block mem elf p)) (filter (\<lambda>p. ph_ptype p = PT_Load) hs))) \<le>
     card (free_frames (m_phys m0))"
    and core: "core < 256" and m0: "2 \<le> vc_room (m_vcache m0)" "\<forall>a \<in> pages (tmp_page core) tmp_pages. path_ok X m0 a"
    and sz: "ef_size elf < 2 ^ 64"
  shows "\<exists>fss' s'. fold_ret (load_segment X core mem elf) hs s = Some (Inr s') \<and>
    loaded X core m0 pm0 (bs @ map (seg_block mem elf) (filter (\<lambda>p. ph_ptype p = PT_Load) hs)) fss' s'"
  using assms(1-3)
proof (induction hs arbitrary: bs fss s)
  case (Cons p hs)
  show ?case
  proof (cases "ph_ptype p = PT_Load")
    case True
    have ok: "segment_ok elf p" using Cons.prems(2) True by simp
    have "4 * (sum_list (map block_pages bs) + block_pages (seg_block mem elf p)) \<le> card (free_frames (m_phys m0))"
      using Cons.prems(3) True by simp
    then obtain fs s' where s': "load_segment X core mem elf p s = Some (Inr s')"
      "loaded X core m0 pm0 (bs @ [seg_block mem elf p]) (fss @ [fs]) s'"
      by (rule load_segment_ok [OF Cons.prems(1) True ok core m0 _ sz])
    from Cons.IH [OF s'(2)] Cons.prems(2,3) True s'(1) show ?thesis by (simp add: add.assoc)
  next
    case False
    then have "load_segment X core mem elf p s = Some (Inr s)" by (cases s) (simp add: load_segment_def)
    with Cons False show ?thesis by simp
  qed
qed auto

lemma stack_block_ok: "block_ok stack_block" "block_pages stack_block = 128"
  by (simp_all add: block_ok_def stack_block_def block_pages_def page_count_def round_up_def range_ok_def
      tmp_pages_def USERSTACK_TOP_def USERSTACK_BOTTOM_def USERSPACE_TOP_def USERSTACK_SIZE_def)

end

text \<open>What the caller has to provide for \<open>exec\<close> to succeed.\<close>

definition exec_pre :: "x86 \<Rightarrow> nat \<Rightarrow> ElfFile \<Rightarrow> kernel \<Rightarrow> bool" where
  "exec_pre X core elf k \<longleftrightarrow> core < 256 \<and> table_ok elf \<and> ef_size elf < 2 ^ 64 \<and> k_idcount k < 2 ^ 64 - 1 \<and>
     mp_inv X (k_mem k) \<and> 2 \<le> vc_room (m_vcache (k_mem k)) \<and>
     (\<forall>a \<in> pages (tmp_page core) tmp_pages. path_ok X (k_mem k) a) \<and>
     (\<forall>p \<in> set (headers_from (k_file k) elf 0). ph_ptype p = PT_Load \<longrightarrow> segment_ok elf p) \<and>
     4 * sum_list (map block_pages (exec_blocks (k_file k) elf)) \<le> card (free_frames (m_phys (k_mem k)))"

context x86_crate
begin

lemma exec_ok:
  assumes pre: "exec_pre X core elf k"
  shows "\<exists>fss mm m pm. loaded X core (k_mem k) (k_pm k) (exec_blocks (k_file k) elf) fss (mm, m, pm) \<and>
    exec X core elf k = Some (Success (k_idcount k + 1),
      k\<lparr>k_mem := m, k_pm := pm, k_idcount := k_idcount k + 1,
        k_store := (k_store k)(k_idcount k + 1 \<mapsto> \<lparr>task_id = k_idcount k + 1, priority = 0,
          procstate = TaskProcState_new (k_gdt k core) (entrypoint X (ef_header elf)), memory_map = mm, state = Pending\<rparr>),
        k_tasks := k_tasks k @ [k_idcount k + 1]\<rparr>)"
proof -
  note P = pre [unfolded exec_pre_def]
  then have core: "core < 256" and tab: "table_ok elf" and sz: "ef_size elf < 2 ^ 64" and inv: "mp_inv X (k_mem k)"
    and m0: "2 \<le> vc_room (m_vcache (k_mem k))" "\<forall>a \<in> pages (tmp_page core) tmp_pages. path_ok X (k_mem k) a"
    by simp_all
  let ?mem = "k_file k" and ?hs = "headers_from (k_file k) elf 0"
  let ?bs = "map (seg_block ?mem elf) (filter (\<lambda>p. ph_ptype p = PT_Load) ?hs)"
  obtain fss mm m pm where f: "fold_ret (load_segment X core ?mem elf) ?hs (MemoryMap_new, k_mem k, k_pm k) =
      Some (Inr (mm, m, pm))" and L: "loaded X core (k_mem k) (k_pm k) ?bs fss (mm, m, pm)"
    using load_all_ok [OF loaded_Nil [OF inv, of core "k_pm k"] _ _ core m0 sz, of ?hs ?mem] P
    by (auto simp: exec_blocks_def comp_def)
  have "4 * block_pages stack_block \<le> card (free_frames (m_phys m))"
    using loaded_card [OF L] P by (simp add: exec_blocks_def)
  from load_block [OF L stack_block_ok(1) core m0 this]
  obtain fs mm' m1 m2 where a: "allocate X (b_page stack_block) (block_pages stack_block) (b_flags stack_block) mm m =
        Some (Some fs, mm', m1)"
    "tmp_local_reserve X core (b_off stack_block) fs m1 = Some (tmp_page core + b_off stack_block, m2)"
    "length fs = block_pages stack_block" "frames_ok fs" "window_on X m2 (tmp_page core) fs"
    and ld: "\<And>pm'. (\<forall>j<length (b_data stack_block). frame_byte fs pm' (b_off stack_block + j) = b_data stack_block ! j) \<Longrightarrow>
       (\<forall>a. a - a mod 4096 \<notin> set fs \<longrightarrow> pm' a = pm a) \<Longrightarrow>
       loaded X core (k_mem k) (k_pm k) (?bs @ [stack_block]) (fss @ [fs]) (mm', m2, pm')"
    by metis
  have len: "0 + length (replicate USERSTACK_SIZE (0::u8)) \<le> length fs * 4096"
    by (simp add: a(3) stack_block_ok USERSTACK_SIZE_def)
  from write_bytes_window [OF a(5,4) this, of pm]
  obtain pm' where w: "write_bytes X (tmp_page core + 0) (replicate USERSTACK_SIZE 0) m2 pm = Some pm'"
    "\<forall>k<length fs * 4096. frame_byte fs pm' k =
       (if 0 \<le> k \<and> k < 0 + length (replicate USERSTACK_SIZE (0::u8)) then replicate USERSTACK_SIZE 0 ! (k - 0) else frame_byte fs pm k)"
    "\<forall>a. a - a mod 4096 \<notin> set fs \<longrightarrow> pm' a = pm a" by blast
  have "frame_byte fs pm' (b_off stack_block + j) = b_data stack_block ! j" if "j < length (b_data stack_block)" for j
    using w(2) that len by (simp add: stack_block_def)
  then have new: "loaded X core (k_mem k) (k_pm k) (exec_blocks ?mem elf) (fss @ [fs]) (mm', m2, pm')"
    unfolding exec_blocks_def using w(3) by (intro ld) simp_all
  have "page_from_start X USERSTACK_TOP = Some USERSTACK_TOP"
    by (simp add: page_from_start_eq USERSTACK_TOP_def USERSTACK_BOTTOM_def USERSPACE_TOP_def USERSTACK_SIZE_def)
  moreover have "USERSTACK_SIZE div 4096 = 128" by (simp add: USERSTACK_SIZE_def)
  moreover note a(1,2) [unfolded stack_block_ok(2)]
  moreover have "b_page stack_block = USERSTACK_TOP" "b_flags stack_block = {USER_ACCESSIBLE, WRITABLE}" "b_off stack_block = 0"
    by (simp_all add: stack_block_def)
  ultimately have "exec X core elf k = Some (Success (k_idcount k + 1),
      k\<lparr>k_mem := m2, k_pm := pm', k_idcount := k_idcount k + 1,
        k_store := (k_store k)(k_idcount k + 1 \<mapsto> \<lparr>task_id = k_idcount k + 1, priority = 0,
          procstate = TaskProcState_new (k_gdt k core) (entrypoint X (ef_header elf)), memory_map = mm', state = Pending\<rparr>),
        k_tasks := k_tasks k @ [k_idcount k + 1]\<rparr>)"
    using f w(1) P unfolding exec_def for_headers_fold [OF tab]
    by (simp add: new_locked_def add64_def)
  with new show ?thesis by blast
qed

end

context x86_crate
begin

lemma exec_task:
  assumes "exec_pre X core elf k"
  obtains k' t fss where "exec X core elf k = Some (Success (k_idcount k + 1), k')"
    "k_store k' = (k_store k)(k_idcount k + 1 \<mapsto> t)" "k_tasks k' = k_tasks k @ [k_idcount k + 1]"
    "task_id t = k_idcount k + 1" "state t = Pending"
    "procstate t = TaskProcState_new (k_gdt k core) (entrypoint X (ef_header elf))"
    "loaded X core (k_mem k) (k_pm k) (exec_blocks (k_file k) elf) fss (memory_map t, k_mem k', k_pm k')"
proof -
  obtain fss mm m pm where L: "loaded X core (k_mem k) (k_pm k) (exec_blocks (k_file k) elf) fss (mm, m, pm)"
    and e: "exec X core elf k = Some (Success (k_idcount k + 1),
      k\<lparr>k_mem := m, k_pm := pm, k_idcount := k_idcount k + 1,
        k_store := (k_store k)(k_idcount k + 1 \<mapsto> \<lparr>task_id = k_idcount k + 1, priority = 0,
          procstate = TaskProcState_new (k_gdt k core) (entrypoint X (ef_header elf)), memory_map = mm, state = Pending\<rparr>),
        k_tasks := k_tasks k @ [k_idcount k + 1]\<rparr>)"
    using exec_ok [OF assms] by blast
  define t where "t = \<lparr>task_id = k_idcount k + 1, priority = 0,
    procstate = TaskProcState_new (k_gdt k core) (entrypoint X (ef_header elf)), memory_map = mm, state = Pending\<rparr>"
  have t: "task_id t = k_idcount k + 1" "memory_map t = mm" "state t = Pending"
    "procstate t = TaskProcState_new (k_gdt k core) (entrypoint X (ef_header elf))"
    by (simp_all add: t_def)
  show ?thesis
    by (rule that [OF e [folded t_def], of t fss]) (use L t in simp_all)
qed

end

section \<open>The address space of a task\<close>

text \<open>The byte of a task's memory at a virtual address.\<close>

definition task_byte :: "MemoryMap \<Rightarrow> memory \<Rightarrow> nat \<Rightarrow> u8 option" where
  "task_byte mm pm a =
     (case map_lookup (mappings mm) (a - a mod 4096) of
        None \<Rightarrow> None
      | Some mp \<Rightarrow> Some (pm (mm_padr mp + a mod 4096)))"

definition block_range :: "block \<Rightarrow> nat set" where
  "block_range b = pages (b_page b) (block_pages b)"

lemma map_lookup_append:
  "map_lookup (xs @ ys) a = (case map_lookup ys a of Some mp \<Rightarrow> Some mp | None \<Rightarrow> map_lookup xs a)"
proof (induction ys rule: rev_induct)
  case (snoc mp ys)
  show ?case unfolding append_assoc [symmetric] map_lookup_snoc using snoc by simp
qed (simp add: map_lookup_def)

lemma frame_maps_vadr: "mm_vadr ` set (frame_maps v fl fs) = pages v (length fs)"
  by (induction fs rule: rev_induct) (simp_all add: frame_maps_snoc pages_def lessThan_Suc)

lemma map_lookup_frame_maps:
  "t < length fs \<Longrightarrow> map_lookup (frame_maps v fl fs) (v + t * 4096) =
     Some \<lparr>mm_vadr = v + t * 4096, mm_padr = fs ! t, mm_n = 1, mm_flags = fl, mm_allocated = True\<rparr>"
  by (induction fs rule: rev_induct) (auto simp: frame_maps_snoc map_lookup_snoc nth_append less_Suc_eq)

lemma block_maps_vadr:
  "list_all2 (\<lambda>b fs. length fs = block_pages b) bs fss \<Longrightarrow>
   mm_vadr ` set (block_maps bs fss) = (\<Union>b \<in> set bs. block_range b)"
proof (induction rule: list_all2_induct)
  case (Cons b bs fs fss)
  have "block_maps (b # bs) (fs # fss) = frame_maps (b_page b) (b_flags b) fs @ block_maps bs fss"
    by (simp add: block_maps_def)
  with Cons show ?case by (simp add: image_Un frame_maps_vadr block_range_def)
qed (simp add: block_maps_def)

text \<open>A page that no later block contains is mapped to the frame of its block.\<close>

lemma map_lookup_block:
  assumes "list_all2 (\<lambda>b fs. length fs = block_pages b) bs fss" "i < length bs" "t < block_pages (bs ! i)"
    "\<And>j. i < j \<Longrightarrow> j < length bs \<Longrightarrow> b_page (bs ! i) + t * 4096 \<notin> block_range (bs ! j)"
  shows "map_lookup (block_maps bs fss) (b_page (bs ! i) + t * 4096) =
    Some \<lparr>mm_vadr = b_page (bs ! i) + t * 4096, mm_padr = fss ! i ! t, mm_n = 1, mm_flags = b_flags (bs ! i),
      mm_allocated = True\<rparr>"
  using assms
proof (induction arbitrary: i rule: list_all2_induct)
  case (Cons b bs fs fss)
  have e: "block_maps (b # bs) (fs # fss) = frame_maps (b_page b) (b_flags b) fs @ block_maps bs fss"
    by (simp add: block_maps_def)
  show ?case
  proof (cases i)
    case 0
    have "b_page b + t * 4096 \<notin> block_range c" if "c \<in> set bs" for c
      using Cons.prems(3) [of "Suc j" for j] that 0 by (auto simp: in_set_conv_nth)
    then have "map_lookup (block_maps bs fss) (b_page b + t * 4096) = None"
      using block_maps_vadr [OF Cons.hyps(2)] by (auto simp: map_lookup_None)
    with 0 Cons.prems(2) Cons.hyps(1) show ?thesis by (simp add: e map_lookup_append map_lookup_frame_maps)
  next
    case (Suc i')
    have "map_lookup (block_maps bs fss) (b_page (bs ! i') + t * 4096) =
      Some \<lparr>mm_vadr = b_page (bs ! i') + t * 4096, mm_padr = fss ! i' ! t, mm_n = 1, mm_flags = b_flags (bs ! i'),
        mm_allocated = True\<rparr>"
      by (rule Cons.IH) (use Cons.prems(1,2) Cons.prems(3) [of "Suc j" for j] Suc in auto)
    with Suc show ?thesis by (simp add: e map_lookup_append)
  qed
qed simp

lemma loaded_lengths:
  "loaded X core m0 pm0 bs fss (mm, m, pm) \<Longrightarrow> list_all2 (\<lambda>b fs. length fs = block_pages b) bs fss"
  unfolding loaded_def prod.case by (auto elim: list_all2_mono)

lemma loaded_byte:
  assumes L: "loaded X core m0 pm0 bs fss (mm, m, pm)" and i: "i < length bs" and j: "j < length (b_data (bs ! i))"
    and page: "page_aligned (b_page (bs ! i))"
    and later: "\<And>k. i < k \<Longrightarrow> k < length bs \<Longrightarrow> block_range (bs ! i) \<inter> block_range (bs ! k) = {}"
  shows "task_byte mm pm (b_page (bs ! i) + b_off (bs ! i) + j) = Some (b_data (bs ! i) ! j)"
    and "map_option mm_flags (map_lookup (mappings mm) (b_page (bs ! i) + (b_off (bs ! i) + j) div 4096 * 4096)) =
      Some (b_flags (bs ! i))"
proof -
  let ?b = "bs ! i"
  let ?o = "b_off ?b + j"
  let ?t = "?o div 4096"
  have la: "list_all2 (\<lambda>b fs. length fs = block_pages b \<and>
      (\<forall>j<length (b_data b). frame_byte fs pm (b_off b + j) = b_data b ! j)) bs fss"
    and mm: "mappings mm = block_maps bs fss"
    using L by (simp_all add: loaded_def)
  have "?o < block_pages ?b * 4096" using block_length [of ?b] j by linarith
  then have t: "?t < block_pages ?b" by (simp add: div_less_iff_less_mult)
  then have "b_page ?b + ?t * 4096 \<in> block_range ?b" by (auto simp: block_range_def pages_def)
  with later have look: "map_lookup (block_maps bs fss) (b_page ?b + ?t * 4096) =
      Some \<lparr>mm_vadr = b_page ?b + ?t * 4096, mm_padr = fss ! i ! ?t, mm_n = 1, mm_flags = b_flags ?b,
        mm_allocated = True\<rparr>"
    by (intro map_lookup_block [OF loaded_lengths [OF L] i t]) blast
  then show "map_option mm_flags (map_lookup (mappings mm) (b_page ?b + ?t * 4096)) = Some (b_flags ?b)"
    by (simp add: mm)
  have m: "(b_page ?b + ?o) mod 4096 = ?o mod 4096" using page by (metis add_0 mod_add_left_eq)
  have p: "b_page ?b + ?o - ?o mod 4096 = b_page ?b + ?t * 4096"
    using div_mult_mod_eq [of ?o 4096] by linarith
  have "frame_byte (fss ! i) pm ?o = b_data ?b ! j" using list_all2_nthD [OF la i] j by simp
  then show "task_byte mm pm (b_page ?b + b_off ?b + j) = Some (b_data ?b ! j)"
    using look unfolding task_byte_def mm add.assoc m p by (simp add: frame_byte_def)
qed

lemma headers_ok:
  assumes "exec_pre X core elf k" "p \<in> set (headers_from (k_file k) elf 0)" "ph_ptype p = PT_Load"
  obtains i where "i < length (exec_blocks (k_file k) elf)" "exec_blocks (k_file k) elf ! i = seg_block (k_file k) elf p"
    "segment_ok elf p"
proof -
  have "seg_block (k_file k) elf p \<in> set (exec_blocks (k_file k) elf)"
    using assms(2,3) by (auto simp: exec_blocks_def)
  then obtain i where "i < length (exec_blocks (k_file k) elf)"
      "exec_blocks (k_file k) elf ! i = seg_block (k_file k) elf p"
    by (auto simp: in_set_conv_nth)
  moreover have "segment_ok elf p" using assms by (simp add: exec_pre_def)
  ultimately show ?thesis by (rule that)
qed

lemma loaded_segment:
  assumes L: "loaded X core m0 pm0 (exec_blocks (k_file k) elf) fss (mm, m, pm)" and pre: "exec_pre X core elf k"
    and dis: "\<forall>i j. i < j \<and> j < length (exec_blocks (k_file k) elf) \<longrightarrow>
      block_range (exec_blocks (k_file k) elf ! i) \<inter> block_range (exec_blocks (k_file k) elf ! j) = {}"
    and p: "p \<in> set (headers_from (k_file k) elf 0)" "ph_ptype p = PT_Load" and j: "j < ph_mem_size p"
  shows "task_byte mm pm (ph_vadr p + j) =
      Some (if j < ph_file_size p then k_file k (ef_adr elf + ph_offset p + j) else 0)"
    and "map_option mm_flags (map_lookup (mappings mm) (round_down (ph_vadr p + j) 4096)) =
      Some (memory_flags p \<union> {USER_ACCESSIBLE})"
proof -
  obtain i where i: "i < length (exec_blocks (k_file k) elf)"
      "exec_blocks (k_file k) elf ! i = seg_block (k_file k) elf p" and ok: "segment_ok elf p"
    by (rule headers_ok [OF pre p])
  let ?b = "seg_block (k_file k) elf p"
  have al: "page_aligned (b_page ?b)" using round_down_dvd [of 4096 "ph_vadr p"] by (simp add: mod_eq_0_iff_dvd)
  have len: "length (b_data ?b) = ph_mem_size p" using ok by (simp add: segment_ok_def)
  note b = loaded_byte [OF L i(1), unfolded i(2), OF _ al, unfolded len, OF j]
  have v: "b_page ?b + b_off ?b + j = ph_vadr p + j" using round_down_mod(2) [of "ph_vadr p"] by simp
  have "task_byte mm pm (ph_vadr p + j) = Some (b_data ?b ! j)"
    using b(1) dis i unfolding v by metis
  then show "task_byte mm pm (ph_vadr p + j) =
      Some (if j < ph_file_size p then k_file k (ef_adr elf + ph_offset p + j) else 0)"
    using j ok by (simp add: nth_append add.assoc segment_ok_def)
  have r: "b_page ?b + (b_off ?b + j) div 4096 * 4096 = round_down (ph_vadr p + j) 4096"
  proof -
    have "ph_vadr p + j = ph_vadr p div 4096 * 4096 + (ph_vadr p mod 4096 + j)"
      using div_mult_mod_eq [of "ph_vadr p" 4096] by linarith
    then have "(ph_vadr p + j) div 4096 = ph_vadr p div 4096 + (ph_vadr p mod 4096 + j) div 4096"
      by (metis div_mult_self3 zero_neq_numeral)
    then show ?thesis by (simp add: round_down_def add_mult_distrib)
  qed
  show "map_option mm_flags (map_lookup (mappings mm) (round_down (ph_vadr p + j) 4096)) =
      Some (memory_flags p \<union> {USER_ACCESSIBLE})"
    using b(2) dis i unfolding r by (metis seg_block_simps(2))
qed

lemma loaded_stack:
  assumes L: "loaded X core m0 pm0 (exec_blocks mem elf) fss (mm, m, pm)"
    and a: "USERSTACK_TOP \<le> a" "a < USERSTACK_BOTTOM"
  shows "task_byte mm pm a = Some 0"
proof -
  let ?bs = "exec_blocks mem elf"
  let ?i = "length ?bs - 1"
  have i: "?i < length ?bs" "?bs ! ?i = stack_block" by (simp_all add: exec_blocks_def nth_append)
  have j: "a - USERSTACK_TOP < length (b_data stack_block)"
    using a by (simp add: stack_block_def USERSTACK_TOP_def USERSTACK_BOTTOM_def USERSPACE_TOP_def USERSTACK_SIZE_def)
  have al: "page_aligned (b_page stack_block)"
    by (simp add: stack_block_def USERSTACK_TOP_def USERSTACK_BOTTOM_def USERSPACE_TOP_def USERSTACK_SIZE_def)
  have "task_byte mm pm (b_page stack_block + b_off stack_block + (a - USERSTACK_TOP)) =
      Some (b_data stack_block ! (a - USERSTACK_TOP))"
    by (rule loaded_byte(1) [OF L i(1), unfolded i(2), OF j al]) simp
  with a(1) j show ?thesis by (simp add: stack_block_def)
qed

section \<open>The pages of a task\<close>

definition user_block :: "block \<Rightarrow> bool" where
  "user_block b \<longleftrightarrow> page_aligned (b_page b) \<and> b_page b + block_pages b * 4096 \<le> 2 ^ 47 \<and>
     USER_ACCESSIBLE \<in> b_flags b \<and> b_flags b \<subseteq> {USER_ACCESSIBLE, WRITABLE}"

lemma exec_blocks_user:
  assumes "exec_pre X core elf k" "b \<in> set (exec_blocks (k_file k) elf)"
  shows "user_block b"
proof -
  from assms(2) consider p where "p \<in> set (headers_from (k_file k) elf 0)" "ph_ptype p = PT_Load"
      "b = seg_block (k_file k) elf p" | "b = stack_block"
    by (auto simp: exec_blocks_def)
  then show ?thesis
  proof cases
    case 1
    then have ok: "segment_ok elf p" using assms(1) by (simp add: exec_pre_def)
    have "round_down (ph_vadr p) 4096 + block_pages (seg_block (k_file k) elf p) * 4096 \<le> 2 ^ 47"
      using page_end [of "ph_vadr p" "ph_mem_size p"] ok round_up_dvd [of 4096 "ph_vadr p mod 4096 + ph_mem_size p"]
      unfolding seg_block_ok(2) [OF ok] by (simp add: segment_ok_def USERSPACE_TOP_def)
    then show ?thesis
      using round_down_dvd [of 4096 "ph_vadr p"]
      by (auto simp: 1(3) user_block_def mod_eq_0_iff_dvd memory_flags_def Let_def)
  next
    case 2
    have "block_pages stack_block = 128"
      by (simp add: stack_block_def block_pages_def page_count_def round_up_def USERSTACK_SIZE_def)
    then show ?thesis unfolding 2 user_block_def
      by (simp add: stack_block_def USERSTACK_TOP_def USERSTACK_BOTTOM_def USERSPACE_TOP_def USERSTACK_SIZE_def)
  qed
qed

lemma block_maps_padr: "length bs = length fss \<Longrightarrow> map mm_padr (block_maps bs fss) = concat fss"
  by (induction bs fss rule: list_induct2) (simp_all add: block_maps_def)

lemma block_maps_mem:
  assumes "list_all2 (\<lambda>b fs. length fs = block_pages b) bs fss" "mp \<in> set (block_maps bs fss)"
  obtains b i where "b \<in> set bs" "i < block_pages b" "mm_vadr mp = b_page b + i * 4096" "mm_flags mp = b_flags b"
    "mm_n mp = 1" "mm_allocated mp" "mm_padr mp \<in> set (concat fss)"
proof -
  from assms(2) obtain b fs where z: "(b, fs) \<in> set (zip bs fss)" and m: "mp \<in> set (frame_maps (b_page b) (b_flags b) fs)"
    by (auto simp: block_maps_def)
  from m obtain i where i: "i < length fs" "mp = \<lparr>mm_vadr = b_page b + i * 4096, mm_padr = fs ! i, mm_n = 1,
      mm_flags = b_flags b, mm_allocated = True\<rparr>"
    by (auto simp: frame_maps_def in_set_enumerate_eq)
  have "length fs = block_pages b" using assms(1) z by (auto simp: list_all2_iff)
  moreover have "fs ! i \<in> set (concat fss)"
    using nth_mem [OF i(1)] set_zip_rightD [OF z] by (auto simp del: nth_mem)
  ultimately show ?thesis using i set_zip_leftD [OF z] by (intro that [of b i]) simp_all
qed

text \<open>All mappings of a loaded task are single user pages with frames of their own.\<close>

lemma loaded_pages:
  assumes pre: "exec_pre X core elf k"
    and L: "loaded X core (k_mem k) (k_pm k) (exec_blocks (k_file k) elf) fss (mm, m, pm)"
  shows "distinct (map mm_padr (mappings mm))"
    and "mp \<in> set (mappings mm) \<Longrightarrow> mm_n mp = 1 \<and> mm_allocated mp \<and> page_aligned (mm_vadr mp) \<and>
      mm_vadr mp + 4096 \<le> 2 ^ 47 \<and> USER_ACCESSIBLE \<in> mm_flags mp \<and> mm_flags mp \<subseteq> {USER_ACCESSIBLE, WRITABLE} \<and>
      mm_padr mp \<in> free_frames (m_phys (k_mem k)) - free_frames (m_phys m) \<and>
      (\<forall>q. tpath q \<longrightarrow> node X m q \<noteq> Some (mm_padr mp))"
proof -
  note len = loaded_lengths [OF L]
  have mm: "mappings mm = block_maps (exec_blocks (k_file k) elf) fss" using L by (simp add: loaded_def)
  show "distinct (map mm_padr (mappings mm))"
    unfolding mm block_maps_padr [OF list_all2_lengthD [OF len]] using L by (simp add: loaded_def frames_ok_def)
  assume "mp \<in> set (mappings mm)"
  then obtain b i where b: "b \<in> set (exec_blocks (k_file k) elf)" "i < block_pages b"
      "mm_vadr mp = b_page b + i * 4096" "mm_flags mp = b_flags b" "mm_n mp = 1" "mm_allocated mp"
      "mm_padr mp \<in> set (concat fss)"
    unfolding mm by (rule block_maps_mem [OF len])
  have "i * 4096 + 4096 \<le> block_pages b * 4096" using b(2) by (cases "block_pages b") auto
  moreover note exec_blocks_user [OF pre b(1), unfolded user_block_def]
  ultimately have "page_aligned (mm_vadr mp)" "mm_vadr mp + 4096 \<le> 2 ^ 47" by (auto simp: b(3))
  moreover have "mm_padr mp \<in> free_frames (m_phys (k_mem k)) - free_frames (m_phys m)"
      "\<forall>q. tpath q \<longrightarrow> node X m q \<noteq> Some (mm_padr mp)"
    using L b(7) unfolding loaded_def prod.case by blast+
  ultimately show "mm_n mp = 1 \<and> mm_allocated mp \<and> page_aligned (mm_vadr mp) \<and>
      mm_vadr mp + 4096 \<le> 2 ^ 47 \<and> USER_ACCESSIBLE \<in> mm_flags mp \<and> mm_flags mp \<subseteq> {USER_ACCESSIBLE, WRITABLE} \<and>
      mm_padr mp \<in> free_frames (m_phys (k_mem k)) - free_frames (m_phys m) \<and>
      (\<forall>q. tpath q \<longrightarrow> node X m q \<noteq> Some (mm_padr mp))"
    using b(4-6) exec_blocks_user [OF pre b(1), unfolded user_block_def] by blast
qed

context x86_crate
begin

text \<open>The map of a new task can be applied.\<close>

lemma loaded_apply:
  assumes pre: "exec_pre X core elf k"
    and L: "loaded X core (k_mem k) (k_pm k) (exec_blocks (k_file k) elf) fss (mm, m, pm)"
    and card: "7 * sum_list (map block_pages (exec_blocks (k_file k) elf)) \<le> card (free_frames (m_phys (k_mem k)))"
    and po: "\<forall>a<2 ^ 47. path_ok X (k_mem k) a"
  shows "\<exists>m'. apply_all X (mappings mm) m = Some m' \<and> apply_post X (mappings mm) m m'"
proof (rule apply_ok)
  note p = loaded_pages(2) [OF pre L]
  have inv0: "phys_inv (m_phys (k_mem k))" using pre by (simp add: exec_pre_def mp_inv_def)
  have mv: "moved X {} (slots X (pages (tmp_page core) tmp_pages)) (4 * length (concat fss)) (k_mem k) m"
    using L by (simp add: loaded_def)
  show "mp_inv X m" using L by (simp add: loaded_def)
  show "2 \<le> vc_room (m_vcache m)" using mv pre by (simp add: moved_def exec_pre_def)
  show "user_maps (mappings mm)"
    unfolding user_maps_def
  proof (intro ballI)
    fix mp assume mp: "mp \<in> set (mappings mm)"
    then have "mm_padr mp \<in> managed (m_phys (k_mem k))" using p phys.avail_owned [OF inv0] by blast
    from frame_bound [OF inv0 this] p [OF mp]
    show "mm_n mp = 1 \<and> page_aligned (mm_vadr mp) \<and> mm_vadr mp + 4096 \<le> 2 ^ 47 \<and>
        page_aligned (mm_padr mp) \<and> mm_padr mp + 4096 \<le> 2 ^ 52 \<and> HUGE_PAGE \<notin> mm_flags mp" by auto
  qed
  show "\<forall>mp \<in> set (mappings mm). path_ok X m (mm_vadr mp)"
  proof
    fix mp assume "mp \<in> set (mappings mm)"
    from p [OF this] have "mm_vadr mp < 2 ^ 47" by simp
    then show "path_ok X m (mm_vadr mp)" using po mv by (simp add: moved_def)
  qed
  have "length (mappings mm) = sum_list (map block_pages (exec_blocks (k_file k) elf))"
  proof -
    note len = loaded_lengths [OF L]
    have "length (mappings mm) = length (map mm_padr (block_maps (exec_blocks (k_file k) elf) fss))"
      using L by (simp add: loaded_def)
    also have "\<dots> = length (concat fss)" unfolding block_maps_padr [OF list_all2_lengthD [OF len]] ..
    also have "\<dots> = sum_list (map block_pages (exec_blocks (k_file k) elf))"
      using len by (induction rule: list_all2_induct) simp_all
    finally show ?thesis .
  qed
  then show "3 * length (mappings mm) \<le> card (free_frames (m_phys m))" using loaded_card [OF L] card by simp
qed

end

lemma round_down_minus: "round_down a 4096 = a - a mod 4096"
  by (simp add: round_down_def minus_mod_eq_div_mult)

text \<open>Once a map is applied, the processor reads the memory of the task.\<close>

lemma applied_byte:
  assumes "apply_post X (mappings mm) m m'" "map_lookup (mappings mm) (a - a mod 4096) = Some mp"
  shows "vread X m' pm a = pm (mm_padr mp + a mod 4096)"
    "pte_flags X (pagemap X m' (a - a mod 4096)) = mm_flags mp \<union> {PRESENT}"
    "a - a mod 4096 \<notin> m_stale m' \<union> m_gstale m'"
proof -
  have "a - a mod 4096 \<in> mm_vadr ` set (mappings mm)"
    using assms(2) map_lookup_None [of "mappings mm" "a - a mod 4096"] by (cases "a - a mod 4096 \<in> mm_vadr ` set (mappings mm)") auto
  with assms show "vread X m' pm a = pm (mm_padr mp + a mod 4096)"
    "pte_flags X (pagemap X m' (a - a mod 4096)) = mm_flags mp \<union> {PRESENT}"
    "a - a mod 4096 \<notin> m_stale m' \<union> m_gstale m'"
    unfolding apply_post_def by (auto simp: vread_def disjoint_iff)
qed

section \<open>Rejected files\<close>

text \<open>The checks of \<open>exec\<close> on a loadable segment, in their order.\<close>

definition segment_error :: "ElfFile \<Rightarrow> ProgramHeader \<Rightarrow> ExecResult option" where
  "segment_error elf p =
     (if PAGE_SIZE < ph_align p then Some (LargeAlignment (ph_align p))
      else if USERSPACE_TOP \<le> ph_vadr p + ph_mem_size p then Some (InsecureLoad (ph_vadr p) (ph_mem_size p))
      else if TMP_TASK_SIZE_PER_PROC < ph_mem_size p then Some (LargeSize (ph_mem_size p))
      else if ef_size elf < ph_offset p + ph_file_size p then Some (BinaryEnd (ph_offset p) (ph_file_size p))
      else None)"

lemma load_segment_error:
  assumes "ph_ptype p = PT_Load" "segment_error elf p = Some e"
    "ph_vadr p + ph_mem_size p < 2 ^ 64" "ph_offset p + ph_file_size p < 2 ^ 64"
  shows "load_segment X core mem elf p s = Some (Inl (e, s))"
  using assms
  by (cases s) (auto simp: load_segment_def segment_error_def add64_def slice_def split: if_splits)

text \<open>What loading the headers \<open>hs\<close> needs.\<close>

definition load_pre :: "x86 \<Rightarrow> nat \<Rightarrow> ElfFile \<Rightarrow> ProgramHeader list \<Rightarrow> kernel \<Rightarrow> bool" where
  "load_pre X core elf hs k \<longleftrightarrow> core < 256 \<and> table_ok elf \<and> ef_size elf < 2 ^ 64 \<and>
     mp_inv X (k_mem k) \<and> 2 \<le> vc_room (m_vcache (k_mem k)) \<and>
     (\<forall>a \<in> pages (tmp_page core) tmp_pages. path_ok X (k_mem k) a) \<and>
     (\<forall>p \<in> set hs. ph_ptype p = PT_Load \<longrightarrow> segment_ok elf p) \<and>
     4 * sum_list (map (\<lambda>p. block_pages (seg_block (k_file k) elf p)) (filter (\<lambda>p. ph_ptype p = PT_Load) hs)) \<le>
       card (free_frames (m_phys (k_mem k)))"

context x86_crate
begin

text \<open>Dropping the map of what has been loaded gives all its frames back.\<close>

lemma loaded_drop:
  assumes L: "loaded X core m0 pm0 bs fss (mm, m, pm)" and inv0: "phys_inv (m_phys m0)"
  obtains m' where "map_drop X mm m = Some m'" "mp_inv X m'" "free_frames (m_phys m') \<subseteq> free_frames (m_phys m0)"
    "card (free_frames (m_phys m0)) \<le> card (free_frames (m_phys m')) + 3 * sum_list (map block_pages bs)"
proof -
  note L' = L [unfolded loaded_def prod.case]
  note len = loaded_lengths [OF L]
  have inv: "mp_inv X m" and mv: "moved X {} (slots X (pages (tmp_page core) tmp_pages)) (4 * length (concat fss)) m0 m"
    and sub: "set (concat fss) \<subseteq> free_frames (m_phys m0) - free_frames (m_phys m)"
    and fok: "frames_ok (concat fss)" and mm: "mappings mm = block_maps bs fss"
    using L' by simp_all
  have padr: "mm_padr ` set (mappings mm) = set (concat fss)"
    using arg_cong [OF block_maps_padr [OF list_all2_lengthD [OF len]], of set] by (simp add: mm)
  have "set (concat fss) \<subseteq> managed (m_phys m)"
    using sub phys.avail_owned [OF inv0] mv by (auto simp: moved_def)
  then have "\<forall>mp \<in> set (mappings mm). mm_allocated mp \<and> mm_padr mp \<in> managed (m_phys m)"
    using padr unfolding mm by (auto elim!: block_maps_mem [OF len])
  from map_drop_ok [OF _ this] inv obtain ph where ph: "map_drop X mm m = Some (m\<lparr>m_phys := ph\<rparr>)"
    "free_frames ph = free_frames (m_phys m) \<union> set (concat fss)" "phys_inv ph"
    unfolding padr mp_inv_def by blast
  have "mp_inv X (m\<lparr>m_phys := ph\<rparr>)"
  proof (rule mp_inv_phys [OF inv ph(3)])
    fix q f assume "tpath q" "node X m q = Some f"
    then show "f \<notin> free_frames ph"
      using tree_okD(1) [OF mp_inv_tree [OF inv]] L' unfolding ph(2) by blast
  qed
  moreover have "free_frames (m_phys (m\<lparr>m_phys := ph\<rparr>)) \<subseteq> free_frames (m_phys m0)"
    using sub mv ph(2) by (auto simp: moved_def)
  moreover have "card (free_frames ph) = card (free_frames (m_phys m)) + length (concat fss)"
  proof -
    have "card (set (concat fss)) = length (concat fss)" using fok by (intro distinct_card) (simp add: frames_ok_def)
    moreover have "free_frames (m_phys m) \<inter> set (concat fss) = {}" using sub by blast
    ultimately show ?thesis
      unfolding ph(2) using card_Un_disjoint [OF finite_free_frames finite_set] by metis
  qed
  moreover have "length (concat fss) = sum_list (map block_pages bs)"
    using len by (induction rule: list_all2_induct) simp_all
  moreover have "card (free_frames (m_phys m0)) \<le> card (free_frames (m_phys m)) + 4 * length (concat fss)"
    using mv by (simp add: moved_def)
  ultimately show ?thesis by (intro that [OF ph(1)]) simp_all
qed

lemma exec_rejects_ok:
  assumes pre: "load_pre X core elf hs k" and h: "headers_from (k_file k) elf 0 = hs @ p # hs'"
    and e: "ph_ptype p = PT_Load" "segment_error elf p = Some e"
      "ph_vadr p + ph_mem_size p < 2 ^ 64" "ph_offset p + ph_file_size p < 2 ^ 64"
  shows "\<exists>m pm. exec X core elf k = Some (e, k\<lparr>k_mem := m, k_pm := pm\<rparr>) \<and> mp_inv X m \<and>
    free_frames (m_phys m) \<subseteq> free_frames (m_phys (k_mem k)) \<and>
    card (free_frames (m_phys (k_mem k))) \<le> card (free_frames (m_phys m)) +
      3 * sum_list (map (\<lambda>p. block_pages (seg_block (k_file k) elf p)) (filter (\<lambda>p. ph_ptype p = PT_Load) hs))"
proof -
  note P = pre [unfolded load_pre_def]
  then have inv: "mp_inv X (k_mem k)" and tab: "table_ok elf" by simp_all
  obtain fss mm m pm where f: "fold_ret (load_segment X core (k_file k) elf) hs (MemoryMap_new, k_mem k, k_pm k) =
      Some (Inr (mm, m, pm))"
    and L: "loaded X core (k_mem k) (k_pm k) (map (seg_block (k_file k) elf) (filter (\<lambda>p. ph_ptype p = PT_Load) hs)) fss (mm, m, pm)"
    using load_all_ok [OF loaded_Nil [OF inv, of core "k_pm k"], of hs elf "k_file k"] P by auto
  obtain m' where d: "map_drop X mm m = Some m'" "mp_inv X m'" "free_frames (m_phys m') \<subseteq> free_frames (m_phys (k_mem k))"
    "card (free_frames (m_phys (k_mem k))) \<le> card (free_frames (m_phys m')) +
       3 * sum_list (map block_pages (map (seg_block (k_file k) elf) (filter (\<lambda>p. ph_ptype p = PT_Load) hs)))"
    by (rule loaded_drop [OF L]) (use inv in \<open>simp add: mp_inv_def\<close>)
  have "exec X core elf k = Some (e, k\<lparr>k_mem := m', k_pm := pm\<rparr>)"
    using f d(1) unfolding exec_def for_headers_fold [OF tab] h
    by (simp add: fold_ret_append load_segment_error [OF e] exec_return_def)
  with d show ?thesis by (auto simp: comp_def)
qed

end

section \<open>Properties\<close>

text \<open>
  C22. Running a file. Given memory, \<open>exec\<close> accepts a file whose loadable segments pass its
  checks; when no two of them, nor the stack, share a page, the new task's memory is what the
  file says: every segment's bytes at their virtual addresses, then zeros up to its size in
  memory, a zeroed stack, and the task starts at the entry point with its stack pointer at the
  bottom of the stack. The task is pending and the last of the list.
\<close>

theorem exec_loads:
  assumes "x86_crate X" and "exec_pre X core elf k"
    and "\<forall>i j. i < j \<and> j < length (exec_blocks (k_file k) elf) \<longrightarrow>
      block_range (exec_blocks (k_file k) elf ! i) \<inter> block_range (exec_blocks (k_file k) elf ! j) = {}"
  shows "\<exists>k' t. exec X core elf k = Some (Success (k_idcount k + 1), k') \<and>
    k_store k' (k_idcount k + 1) = Some t \<and> k_tasks k' = k_tasks k @ [k_idcount k + 1] \<and> state t = Pending \<and>
    ts_rip (procstate t) = word_of_nat (entrypoint X (ef_header elf)) \<and>
    ts_rsp (procstate t) = word_of_nat USERSTACK_BOTTOM \<and>
    (\<forall>p \<in> set (headers_from (k_file k) elf 0). ph_ptype p = PT_Load \<longrightarrow>
       (\<forall>j<ph_mem_size p. task_byte (memory_map t) (k_pm k') (ph_vadr p + j) =
          Some (if j < ph_file_size p then k_file k (ef_adr elf + ph_offset p + j) else 0) \<and>
        map_option mm_flags (map_lookup (mappings (memory_map t)) (round_down (ph_vadr p + j) 4096)) =
          Some (memory_flags p \<union> {USER_ACCESSIBLE}))) \<and>
    (\<forall>a. USERSTACK_TOP \<le> a \<and> a < USERSTACK_BOTTOM \<longrightarrow> task_byte (memory_map t) (k_pm k') a = Some 0) \<and>
    mp_inv X (k_mem k')"
proof -
  obtain k' t fss where e: "exec X core elf k = Some (Success (k_idcount k + 1), k')"
    "k_store k' = (k_store k)(k_idcount k + 1 \<mapsto> t)" "k_tasks k' = k_tasks k @ [k_idcount k + 1]"
    "task_id t = k_idcount k + 1" "state t = Pending"
    "procstate t = TaskProcState_new (k_gdt k core) (entrypoint X (ef_header elf))"
    and L: "loaded X core (k_mem k) (k_pm k) (exec_blocks (k_file k) elf) fss (memory_map t, k_mem k', k_pm k')"
    by (rule x86_crate.exec_task [OF assms(1,2)])
  have "mp_inv X (k_mem k')" using L by (simp add: loaded_def)
  with e loaded_segment [OF L assms(2,3)] loaded_stack [OF L] show ?thesis
    by (intro exI [of _ k'] exI [of _ t]) (simp add: TaskProcState_new_def del: map_option_eq_Some)
qed

definition demo_ph :: ProgramHeader where
  "demo_ph = \<lparr>ph_ptype = 1, ph_flags = 5, ph_offset = 0, ph_vadr = 0x401000, ph_padr = 0, ph_file_size = 120,
     ph_mem_size = 4000, ph_align = 4096\<rparr>"

definition demo_file :: memory where
  "demo_file a = (if a < 128 then demo_mem a else
     if a < 184 then (to_le 4 1 @ to_le 4 5 @ to_le 8 0 @ to_le 8 0x401000 @ to_le 8 0 @ to_le 8 120 @ to_le 8 4000 @
       to_le 8 4096) ! (a - 128) else 0)"

definition demo_elf :: ElfFile where
  "demo_elf = \<lparr>ef_adr = 64, ef_header = demo_header, ef_size = 200\<rparr>"

definition demo_kernel :: kernel where
  "demo_kernel = \<lparr>k_mem = big_machine, k_pm = (\<lambda>_. 7), k_file = demo_file, k_initrd = Some (\<lambda>_. None),
     k_gdt = (\<lambda>_. \<lparr>kcode_seg = 8, kdata_seg = 0x10, ucode_seg = 0x23, udata_seg = 0x1B, tss_seg = 0x28\<rparr>),
     k_tasks = [], k_store = Map.empty, k_idcount = 0, k_clock = 0, k_numcores = 1,
     k_procs = [0 \<mapsto> demo_pinfo], k_bspid = 0, k_lapic = (\<lambda>_. []), k_fb = Some demo_fb, k_screen = (\<lambda>_. 0),
     k_count = 0\<rparr>"

lemma demo_headers: "headers_from demo_file demo_elf 0 = [demo_ph]"
proof -
  have "headers_from demo_file demo_elf 0 = [read_ProgramHeader demo_file 128]"
    by (simp add: headers_from_def demo_elf_def demo_header_def)
  also have "read_ProgramHeader demo_file 128 = demo_ph"
  proof -
    have "holds demo_file 128 (to_le 4 1 @ to_le 4 5 @ to_le 8 0 @ to_le 8 0x401000 @ to_le 8 0 @ to_le 8 120 @
        to_le 8 4000 @ to_le 8 4096)"
      unfolding holds_def by (rule nth_equalityI) (simp_all add: demo_file_def)
    then have "holds demo_file 128 (to_le 4 1)" "holds demo_file 132 (to_le 4 5)" "holds demo_file 136 (to_le 8 0)"
      "holds demo_file 144 (to_le 8 0x401000)" "holds demo_file 152 (to_le 8 0)" "holds demo_file 160 (to_le 8 120)"
      "holds demo_file 168 (to_le 8 4000)" "holds demo_file 176 (to_le 8 4096)"
      unfolding holds_append by simp_all
    note h = this [THEN holds_bytes [OF _ length_to_le [symmetric]]]
    show ?thesis by (simp add: read_ProgramHeader_def demo_ph_def rd_to_le [OF h(1)] rd_to_le [OF h(2)]
        rd_to_le [OF h(3)] rd_to_le [OF h(4)] rd_to_le [OF h(5)] rd_to_le [OF h(6)] rd_to_le [OF h(7)] rd_to_le [OF h(8)])
  qed
  finally show ?thesis .
qed

lemma demo_blocks:
  "exec_blocks demo_file demo_elf = [seg_block demo_file demo_elf demo_ph, stack_block]"
  "block_pages (seg_block demo_file demo_elf demo_ph) = 1" "segment_ok demo_elf demo_ph"
proof -
  show "exec_blocks demo_file demo_elf = [seg_block demo_file demo_elf demo_ph, stack_block]"
    by (simp add: exec_blocks_def demo_headers) (simp add: demo_ph_def PT_Load_def)
  show ok: "segment_ok demo_elf demo_ph"
    by (simp add: segment_ok_def demo_ph_def demo_elf_def USERSPACE_TOP_def TMP_TASK_SIZE_PER_PROC_def)
  show "block_pages (seg_block demo_file demo_elf demo_ph) = 1"
    unfolding seg_block_ok(2) [OF ok] by (simp add: demo_ph_def round_up_def)
qed

lemma demo_exec_pre: "exec_pre x86_ref 0 demo_elf demo_kernel"
  using big_machine_inv demo_vc_map(5) big_free_frames(1)
  by (simp add: exec_pre_def demo_kernel_def demo_headers demo_blocks big_path_ok ref.stack_block_ok)
    (simp add: table_ok_def demo_elf_def demo_header_def)

lemma demo_disjoint:
  "\<forall>i j. i < j \<and> j < length (exec_blocks (k_file demo_kernel) demo_elf) \<longrightarrow>
     block_range (exec_blocks (k_file demo_kernel) demo_elf ! i) \<inter>
     block_range (exec_blocks (k_file demo_kernel) demo_elf ! j) = {}"
proof -
  have "block_range (seg_block demo_file demo_elf demo_ph) = {0x401000}"
    by (simp add: block_range_def demo_blocks) (simp add: demo_ph_def round_down_def)
  moreover have "0x401000 \<notin> block_range stack_block"
    by (auto simp: block_range_def pages_def stack_block_def USERSTACK_TOP_def USERSTACK_BOTTOM_def USERSPACE_TOP_def
        USERSTACK_SIZE_def)
  ultimately show ?thesis by (auto simp: demo_kernel_def demo_blocks less_Suc_eq)
qed

theorem exec_loads_witness:
  "\<exists>k' t. exec x86_ref 0 demo_elf demo_kernel = Some (Success 1, k') \<and> k_store k' 1 = Some t \<and>
     task_byte (memory_map t) (k_pm k') 0x401000 = Some 0x7f \<and> task_byte (memory_map t) (k_pm k') 0x401F00 = Some 0"
proof -
  have h: "demo_ph \<in> set (headers_from (k_file demo_kernel) demo_elf 0)" "ph_ptype demo_ph = PT_Load"
    by (simp_all add: demo_kernel_def demo_headers) (simp add: demo_ph_def PT_Load_def)
  have f: "k_file demo_kernel = demo_file" "k_idcount demo_kernel = 0" by (simp_all add: demo_kernel_def)
  obtain k' t where e: "exec x86_ref 0 demo_elf demo_kernel = Some (Success 1, k')" "k_store k' 1 = Some t"
    and b: "\<forall>p \<in> set (headers_from (k_file demo_kernel) demo_elf 0). ph_ptype p = PT_Load \<longrightarrow>
       (\<forall>j<ph_mem_size p. task_byte (memory_map t) (k_pm k') (ph_vadr p + j) =
          Some (if j < ph_file_size p then demo_file (ef_adr demo_elf + ph_offset p + j) else 0))"
    using exec_loads [OF ref.x86_crate_axioms demo_exec_pre demo_disjoint] unfolding f by auto
  have b': "j < ph_mem_size demo_ph \<Longrightarrow> task_byte (memory_map t) (k_pm k') (ph_vadr demo_ph + j) =
      Some (if j < ph_file_size demo_ph then demo_file (ef_adr demo_elf + ph_offset demo_ph + j) else 0)" for j
    using b h by blast
  have "demo_file 64 = 0x7f"
    by (simp add: demo_file_def demo_mem_def header_bytes_of_def) (simp add: demo_header_def)
  with b' [of 0] b' [of "0xF00"] e show ?thesis by (simp add: demo_ph_def demo_elf_def)
qed

text \<open>
  C6. What a task gets. The pages of a new task lie below the kernel half and below
  \<open>USERSPACE_TOP\<close>, each is accessible from user mode, and its frame was free before, is not free
  now, is mapped at no other page of the task and holds no page table.
\<close>

theorem exec_user_pages:
  assumes "x86_crate X" and "exec_pre X core elf k"
  shows "\<exists>k' t. exec X core elf k = Some (Success (k_idcount k + 1), k') \<and> k_store k' (k_idcount k + 1) = Some t \<and>
    distinct (map mm_padr (mappings (memory_map t))) \<and>
    (\<forall>mp \<in> set (mappings (memory_map t)). mm_n mp = 1 \<and> page_aligned (mm_vadr mp) \<and>
       mm_vadr mp + 4096 \<le> USERSPACE_TOP + 1 \<and>
       USER_ACCESSIBLE \<in> mm_flags mp \<and> mm_flags mp \<subseteq> {USER_ACCESSIBLE, WRITABLE} \<and>
       mm_padr mp \<in> free_frames (m_phys (k_mem k)) - free_frames (m_phys (k_mem k')) \<and>
       (\<forall>q. tpath q \<longrightarrow> node X (k_mem k') q \<noteq> Some (mm_padr mp)))"
proof -
  obtain k' t fss where e: "exec X core elf k = Some (Success (k_idcount k + 1), k')"
    "k_store k' = (k_store k)(k_idcount k + 1 \<mapsto> t)"
    and L: "loaded X core (k_mem k) (k_pm k) (exec_blocks (k_file k) elf) fss (memory_map t, k_mem k', k_pm k')"
    by (rule x86_crate.exec_task [OF assms])
  from e loaded_pages [OF assms(2) L] show ?thesis
    by (intro exI [of _ k'] exI [of _ t]) (simp add: USERSPACE_TOP_def)
qed

theorem exec_user_pages_witness:
  "\<exists>k' t. exec x86_ref 0 demo_elf demo_kernel = Some (Success 1, k') \<and> k_store k' 1 = Some t \<and>
     distinct (map mm_padr (mappings (memory_map t)))"
  using exec_user_pages [OF ref.x86_crate_axioms demo_exec_pre] by (auto simp: demo_kernel_def)



end
