(* ===== verification/Sched.thy ===== *)
theory Sched
  imports Exec
begin

text \<open>
  The scheduler of \<open>kernel/src/proc/task.rs\<close> (\<open>tick\<close>, \<open>continue_current\<close>, \<open>exit_current\<close>) and the
  timer interrupt that drives it, \<open>kernel/src/interrupts/lapic/timer.rs\<close>. What a core finds locked
  by others is an argument of its tick: \<open>free\<close> says whether \<open>TASKS\<close> can be taken, \<open>busy\<close> which
  tasks cannot. The second half lets the cores run at the same time, each one step of its tick at
  a time, between the steps of the others.
\<close>

section \<open>The tick of a core\<close>

definition QUANTUM_MS :: nat where
  "QUANTUM_MS = 100000"

definition MAX_TICK_MISS :: nat where
  "MAX_TICK_MISS = 10"

definition task_init :: "kernel \<Rightarrow> kernel" where
  "task_init k = k\<lparr>k_tasks := []\<rparr>"

definition set_proc :: "nat \<Rightarrow> ProcInfo \<Rightarrow> kernel \<Rightarrow> kernel" where
  "set_proc core pinfo k = k\<lparr>k_procs := (k_procs k)(core \<mapsto> pinfo)\<rparr>"

definition set_task :: "nat \<Rightarrow> Task \<Rightarrow> kernel \<Rightarrow> kernel" where
  "set_task t task k = k\<lparr>k_store := (k_store k)(t \<mapsto> task)\<rparr>"

text \<open>The clock ticks (an atomic \<open>fetch_add\<close> wraps) and the interrupted task's state is saved.\<close>

definition tick_save :: "nat \<Rightarrow> TaskProcState \<Rightarrow> kernel \<Rightarrow> (nat \<times> kernel) option" where
  "tick_save core proc_state k = do {
     pinfo \<leftarrow> k_procs k core;
     let clock = k_clock k;
     let k = k\<lparr>k_clock := (clock + 1) mod 2 ^ 64\<rparr>;
     case current_task pinfo of
       Some t \<Rightarrow> do {
         task \<leftarrow> k_store k t;
         Some (clock, set_task t (task\<lparr>procstate := proc_state\<rparr>) k) }
     | None \<Rightarrow> Some (clock, k) }"

text \<open>The bytes of \<open>/bin/init\<close>.\<close>

definition init_path :: "u8 list" where
  "init_path = [47, 98, 105, 110, 47, 105, 110, 105, 116]"

definition tick_init :: "x86 \<Rightarrow> nat \<Rightarrow> kernel \<Rightarrow> kernel option" where
  "tick_init X core k =
     (if k_tasks k = [] then do {
        (r, k) \<leftarrow> exec_initrd X core init_path k;
        case r of Success n \<Rightarrow> Some k | _ \<Rightarrow> None }
      else Some k)"

definition tick_release :: "nat \<Rightarrow> kernel \<Rightarrow> kernel option" where
  "tick_release core k = do {
     pinfo \<leftarrow> k_procs k core;
     case current_task pinfo of
       None \<Rightarrow> Some k
     | Some t \<Rightarrow> do {
         task \<leftarrow> k_store k t;
         case state task of
           Pending \<Rightarrow> None
         | Running since \<Rightarrow> do {
             age \<leftarrow> sub64 (k_clock k) since;
             life \<leftarrow> life_expectancy task (k_numcores k);
             if life \<le> age
             then Some (set_task t (task\<lparr>state := Pending\<rparr>) (set_proc core (pinfo\<lparr>current_task := None\<rparr>) k))
             else Some k } } }"

text \<open>
  The search for the task to run next. The candidate is the index at which the first one was
  found and the task whose lock is held.
\<close>

definition pick_step :: "(nat \<rightharpoonup> Task) \<Rightarrow> (nat \<Rightarrow> bool) \<Rightarrow> nat \<times> nat \<Rightarrow> (nat \<times> nat) option \<Rightarrow> (nat \<times> nat) option option" where
  "pick_step store busy it best_task = (case it of (i, t) \<Rightarrow>
     if busy t then Some best_task
     else do {
       task \<leftarrow> store t;
       if state task \<noteq> Pending then Some best_task
       else case best_task of
         Some (index, bt) \<Rightarrow> do {
           btask \<leftarrow> store bt;
           Some (Some (index, if priority btask < priority task then t else bt)) }
       | None \<Rightarrow> Some (Some (i, t)) })"

definition tick_commit :: "nat \<Rightarrow> nat \<Rightarrow> nat \<times> nat \<Rightarrow> kernel \<Rightarrow> kernel option" where
  "tick_commit core clock best k = do {
     let (index, t) = best;
     task \<leftarrow> k_store k t;
     let k = set_task t (task\<lparr>state := Running clock\<rparr>) k;
     tref \<leftarrow> get (k_tasks k) index;
     pinfo \<leftarrow> k_procs k core;
     Some (set_proc core (pinfo\<lparr>current_task := Some tref\<rparr>) k) }"

definition tick_pick :: "nat \<Rightarrow> (nat \<Rightarrow> bool) \<Rightarrow> nat \<Rightarrow> kernel \<Rightarrow> kernel option" where
  "tick_pick core busy clock k = do {
     best_task \<leftarrow> fold_opt (pick_step (k_store k) busy) (List.enumerate 0 (k_tasks k)) None;
     case best_task of
       Some best \<Rightarrow> tick_commit core clock best k
     | None \<Rightarrow> Some k }"

definition has_task :: "nat \<Rightarrow> kernel \<Rightarrow> bool" where
  "has_task core k \<longleftrightarrow> Option.bind (k_procs k core) current_task \<noteq> None"

definition tick_miss_step :: "nat \<Rightarrow> kernel \<Rightarrow> kernel option" where
  "tick_miss_step core k = do {
     pinfo \<leftarrow> k_procs k core;
     n \<leftarrow> add64 (tick_miss pinfo) 1;
     Some (set_proc core (pinfo\<lparr>tick_miss := n\<rparr>) k) }"

definition tick :: "x86 \<Rightarrow> nat \<Rightarrow> bool \<Rightarrow> (nat \<Rightarrow> bool) \<Rightarrow> TaskProcState \<Rightarrow> kernel \<Rightarrow> kernel option" where
  "tick X core free busy proc_state k = do {
     pinfo \<leftarrow> k_procs k core;
     if tick_miss pinfo \<le> MAX_TICK_MISS \<and> \<not> free then tick_miss_step core k
     else do {
       let k = set_proc core (pinfo\<lparr>tick_miss := 0\<rparr>) k;
       (clock, k) \<leftarrow> tick_save core proc_state k;
       k \<leftarrow> tick_init X core k;
       k \<leftarrow> tick_release core k;
       if has_task core k then Some k
       else tick_pick core busy clock k } }"

section \<open>Continuing and leaving a task\<close>

datatype outcome = Resume TaskProcState | Event_loop

definition continue_current :: "x86 \<Rightarrow> nat \<Rightarrow> bool \<Rightarrow> kernel \<Rightarrow> (outcome \<times> kernel) option" where
  "continue_current X core reset_timer k = do {
     pinfo \<leftarrow> k_procs k core;
     case current_task pinfo of
       Some t \<Rightarrow> do {
         task \<leftarrow> k_store k t;
         (pinfo, m) \<leftarrow> map_apply X (memory_map task) (pinfo, k_mem k);
         let k = set_proc core pinfo (k\<lparr>k_mem := m\<rparr>);
         let k = (if reset_timer
           then k\<lparr>k_lapic := (k_lapic k)(core := eoi (timer_reset (schedule_quantum pinfo) (k_lapic k core)))\<rparr> else k);
         Some (Resume (procstate task), k) }
     | None \<Rightarrow> Some (Event_loop, k) }"

text \<open>
  Dropping a reference to a task drops the task with the last one; the other references are
  those of the list and of the cores, whose ids have eight bits.
\<close>

definition held :: "nat \<Rightarrow> kernel \<Rightarrow> bool" where
  "held t k \<longleftrightarrow> t \<in> set (k_tasks k) \<or>
     list_ex (\<lambda>core. Option.bind (k_procs k core) current_task = Some t) [0..<256]"

definition drop_ref :: "x86 \<Rightarrow> nat \<Rightarrow> kernel \<Rightarrow> kernel option" where
  "drop_ref X t k = (if held t k then Some k else do {
     task \<leftarrow> k_store k t;
     m \<leftarrow> map_drop X (memory_map task) (k_mem k);
     Some (k\<lparr>k_mem := m, k_store := (k_store k)(t := None)\<rparr>) })"

definition remove_nth :: "nat \<Rightarrow> 'a list \<Rightarrow> 'a list" where
  "remove_nth i xs = take i xs @ drop (Suc i) xs"

definition has_id :: "kernel \<Rightarrow> nat \<Rightarrow> nat \<Rightarrow> bool" where
  "has_id k i t \<longleftrightarrow> map_option task_id (k_store k t) = Some i"

definition exit_take :: "nat \<Rightarrow> kernel \<Rightarrow> (nat option \<times> kernel) option" where
  "exit_take core k = do {
     pinfo \<leftarrow> k_procs k core;
     Some (current_task pinfo, set_proc core (pinfo\<lparr>current_task := None\<rparr>) k) }"

definition exit_remove :: "x86 \<Rightarrow> nat \<Rightarrow> kernel \<Rightarrow> kernel option" where
  "exit_remove X t k = do {
     task \<leftarrow> k_store k t;
     case find_index (has_id k (task_id task)) (k_tasks k) of
       None \<Rightarrow> drop_ref X t k
     | Some index \<Rightarrow> do {
         let removed = k_tasks k ! index;
         let k = k\<lparr>k_tasks := remove_nth index (k_tasks k)\<rparr>;
         k \<leftarrow> (if removed = t then Some k else drop_ref X removed k);
         drop_ref X t k } }"

definition exit_current :: "x86 \<Rightarrow> nat \<Rightarrow> kernel \<Rightarrow> kernel option" where
  "exit_current X core k = do {
     (t, k) \<leftarrow> exit_take core k;
     case t of
       Some t \<Rightarrow> exit_remove X t k
     | None \<Rightarrow> Some k }"

definition timer_inter_2 :: "x86 \<Rightarrow> nat \<Rightarrow> bool \<Rightarrow> (nat \<Rightarrow> bool) \<Rightarrow> TaskProcState \<Rightarrow> kernel \<Rightarrow> (outcome \<times> kernel) option" where
  "timer_inter_2 X core free busy proc_state k = do {
     let k = k\<lparr>k_lapic := (k_lapic k)(core := timer_reset (2 ^ 64 - 1) (k_lapic k core))\<rparr>;
     k \<leftarrow> tick X core free busy proc_state k;
     k \<leftarrow> (if core = k_bspid k then do {
         let count = k_count k;
         let k = k\<lparr>k_count := (count + 1) mod 2 ^ 64\<rparr>;
         let color = (if count div 10 mod 2 = 0 then (0, 0, 255) else (255, 0, 0));
         let offset = count mod 10;
         (f, screen) \<leftarrow> debug_set_pixel (1 + offset) 50 (pixel_rgb color) (k_fb k, k_screen k);
         Some (k\<lparr>k_fb := f, k_screen := screen\<rparr>) }
       else Some k);
     continue_current X core True k }"

section \<open>What running a file changes\<close>

text \<open>
  Running a file either enters a new pending task at the end of the list or leaves the tasks as
  they are; it changes nothing but them and memory.
\<close>

definition spawned :: "kernel \<Rightarrow> kernel \<Rightarrow> bool" where
  "spawned k k' \<longleftrightarrow> k_procs k' = k_procs k \<and> k_clock k' = k_clock k \<and> k_numcores k' = k_numcores k \<and>
     k_lapic k' = k_lapic k \<and> k_fb k' = k_fb k \<and> k_screen k' = k_screen k \<and> k_bspid k' = k_bspid k \<and>
     k_count k' = k_count k \<and>
     (k_tasks k' = k_tasks k \<and> k_store k' = k_store k \<and> k_idcount k' = k_idcount k \<or>
      (\<exists>t task. t = k_idcount k + 1 \<and> k_tasks k' = k_tasks k @ [t] \<and> k_store k' = (k_store k)(t \<mapsto> task) \<and>
         k_idcount k' = t \<and> task_id task = t \<and> priority task = 0 \<and> state task = Pending))"

lemma spawned_refl: "spawned k k"
  by (simp add: spawned_def)

lemma spawned_memory: "spawned (k\<lparr>k_mem := m, k_pm := pm\<rparr>) k' \<longleftrightarrow> spawned k k'"
  by (simp add: spawned_def)

lemma exec_return_spawned: "exec_return X r mm m pm k = Some (r', k') \<Longrightarrow> spawned k k'"
  by (auto simp: exec_return_def rust_simps spawned_def)

lemma new_locked_spawned: "new_locked ps mm k = Some (n, k') \<Longrightarrow> spawned k k'"
  by (auto simp: new_locked_def rust_simps spawned_def Let_def)

lemma exec_spawned:
  assumes "exec X core elf k = Some (r, k')"
  shows "spawned k k'"
proof -
  from assms obtain r0 where r0: "for_headers (k_file k) elf (load_segment X core (k_file k) elf) 0
      (MemoryMap_new, k_mem k, k_pm k) = Some r0"
    unfolding exec_def bind_Some_iff by blast
  show ?thesis
  proof (cases r0)
    case (Inl a)
    obtain e mm m pm where a: "a = (e, mm, m, pm)" by (cases a)
    show ?thesis using assms unfolding exec_def r0 Inl a by (auto intro: exec_return_spawned)
  next
    case (Inr b)
    obtain mm m pm where b: "b = (mm, m, pm)" by (cases b)
    from assms obtain page' frames mm1 m1
      where al: "allocate X page' (USERSTACK_SIZE div PAGE_SIZE) {USER_ACCESSIBLE, WRITABLE} mm m = Some (frames, mm1, m1)"
        and p: "page_from_start X USERSTACK_TOP = Some page'"
      unfolding exec_def r0 Inr b by (auto simp: rust_simps)
    show ?thesis
    proof (cases frames)
      case None
      then show ?thesis using assms unfolding exec_def r0 Inr b
        by (auto simp: p al [unfolded PAGE_SIZE_def] intro: exec_return_spawned)
    next
      case (Some fs)
      with assms obtain m2 pm2 ps n where "new_locked ps mm1 (k\<lparr>k_mem := m2, k_pm := pm2\<rparr>) = Some (n, k')"
        unfolding exec_def r0 Inr b
        by (auto simp: p al [unfolded PAGE_SIZE_def] rust_simps Let_def)
      then show ?thesis using new_locked_spawned spawned_memory by blast
    qed
  qed
qed

lemma exec_raw_spawned:
  assumes "exec_raw X core content k = Some (r, k')"
  shows "spawned k k'"
proof -
  from assms obtain elf where "parse X (k_file k) (fst content) (snd content) = Some elf"
    unfolding exec_raw_def bind_Some_iff by blast
  then show ?thesis using assms by (cases elf) (auto simp: exec_raw_def spawned_refl dest: exec_spawned)
qed

lemma exec_initrd_spawned:
  assumes "exec_initrd X core path' k = Some (r, k')"
  shows "spawned k k'"
proof -
  from assms obtain f where "open_file (k_initrd k) path' = Some f" unfolding exec_initrd_def bind_Some_iff by blast
  then show ?thesis using assms by (cases f) (auto simp: exec_initrd_def spawned_refl dest: exec_raw_spawned)
qed

lemma tick_init_spawned:
  assumes "tick_init X core k = Some k'"
  shows "spawned k k'"
proof (cases "k_tasks k = []")
  case True
  with assms obtain r k1 where r: "exec_initrd X core init_path k = Some (r, k1)" "(case r of Success n \<Rightarrow> Some k1 | _ \<Rightarrow> None) = Some k'"
    by (auto simp: tick_init_def rust_simps)
  then show ?thesis by (cases r) (auto intro: exec_initrd_spawned)
qed (use assms in \<open>simp add: tick_init_def spawned_refl\<close>)

section \<open>Cores at the same time\<close>

text \<open>
  Where a core is: outside the scheduler (\<open>Idle\<close>), holding the upgradeable lock of the list after
  its state was saved (\<open>Holding\<close>), holding the read lock before the release (\<open>Reading\<close>), in the
  search at an index with the candidate whose lock it holds (\<open>Scanning\<close>), or in \<open>exit_current\<close> after
  the task was taken from the core (\<open>Leaving\<close>).
\<close>

datatype pc = Idle | Holding nat | Reading nat | Scanning nat nat "(nat \<times> nat) option" | Leaving nat

record sys =
  s_kernel :: kernel
  s_pc :: "nat \<Rightarrow> pc"

fun is_holding :: "pc \<Rightarrow> bool" where
  "is_holding (Holding _) = True"
| "is_holding _ = False"

fun is_reading :: "pc \<Rightarrow> bool" where
  "is_reading (Reading _) = True"
| "is_reading (Scanning _ _ _) = True"
| "is_reading _ = False"

fun guards :: "pc \<Rightarrow> nat \<Rightarrow> bool" where
  "guards (Scanning _ _ (Some (_, t))) u \<longleftrightarrow> t = u"
| "guards _ u \<longleftrightarrow> False"

text \<open>No core but \<open>c\<close> holds a lock on the list.\<close>

definition alone :: "nat \<Rightarrow> sys \<Rightarrow> bool" where
  "alone c s \<longleftrightarrow> (\<forall>d. d \<noteq> c \<longrightarrow> \<not> is_holding (s_pc s d) \<and> \<not> is_reading (s_pc s d))"

definition moves :: "nat \<Rightarrow> pc \<Rightarrow> kernel \<Rightarrow> sys \<Rightarrow> sys" where
  "moves c p k s = s\<lparr>s_kernel := k, s_pc := (s_pc s)(c := p)\<rparr>"

inductive sched_step :: "x86 \<Rightarrow> sys \<Rightarrow> sys \<Rightarrow> bool" for X :: x86 where
  miss: "s_pc s c = Idle \<Longrightarrow> tick_miss_step c (s_kernel s) = Some k' \<Longrightarrow> sched_step X s (moves c Idle k' s)"
| start: "s_pc s c = Idle \<Longrightarrow> (\<And>d. \<not> is_holding (s_pc s d)) \<Longrightarrow> k_procs (s_kernel s) c = Some pinfo \<Longrightarrow>
    tick_save c ps (set_proc c (pinfo\<lparr>tick_miss := 0\<rparr>) (s_kernel s)) = Some (clock, k') \<Longrightarrow>
    sched_step X s (moves c (Holding clock) k' s)"
| downgrade: "s_pc s c = Holding clock \<Longrightarrow> (k_tasks (s_kernel s) = [] \<Longrightarrow> alone c s) \<Longrightarrow>
    tick_init X c (s_kernel s) = Some k' \<Longrightarrow> sched_step X s (moves c (Reading clock) k' s)"
| release: "s_pc s c = Reading clock \<Longrightarrow> tick_release c (s_kernel s) = Some k' \<Longrightarrow>
    sched_step X s (moves c (if has_task c k' then Idle else Scanning clock 0 None) k' s)"
| skip: "s_pc s c = Scanning clock i best \<Longrightarrow> i < length (k_tasks (s_kernel s)) \<Longrightarrow>
    sched_step X s (moves c (Scanning clock (Suc i) best) (s_kernel s) s)"
| look: "s_pc s c = Scanning clock i best \<Longrightarrow> i < length (k_tasks (s_kernel s)) \<Longrightarrow>
    (\<And>d. d \<noteq> c \<Longrightarrow> \<not> guards (s_pc s d) (k_tasks (s_kernel s) ! i)) \<Longrightarrow>
    pick_step (k_store (s_kernel s)) (\<lambda>_. False) (i, k_tasks (s_kernel s) ! i) best = Some best' \<Longrightarrow>
    sched_step X s (moves c (Scanning clock (Suc i) best') (s_kernel s) s)"
| commit: "s_pc s c = Scanning clock i (Some best) \<Longrightarrow> i = length (k_tasks (s_kernel s)) \<Longrightarrow>
    tick_commit c clock best (s_kernel s) = Some k' \<Longrightarrow> sched_step X s (moves c Idle k' s)"
| idle: "s_pc s c = Scanning clock i None \<Longrightarrow> i = length (k_tasks (s_kernel s)) \<Longrightarrow>
    sched_step X s (moves c Idle (s_kernel s) s)"
| resume: "s_pc s c = Idle \<Longrightarrow> continue_current X c reset (s_kernel s) = Some (r, k') \<Longrightarrow>
    sched_step X s (moves c Idle k' s)"
| leave: "s_pc s c = Idle \<Longrightarrow> exit_take c (s_kernel s) = Some (Some t, k') \<Longrightarrow>
    sched_step X s (moves c (Leaving t) k' s)"
| remove: "s_pc s c = Leaving t \<Longrightarrow> alone c s \<Longrightarrow> exit_remove X t (s_kernel s) = Some k' \<Longrightarrow>
    sched_step X s (moves c Idle k' s)"
| spawn: "s_pc s c = Idle \<Longrightarrow> alone c s \<Longrightarrow> exec_initrd X c path' (s_kernel s) = Some (r, k') \<Longrightarrow>
    sched_step X s (moves c Idle k' s)"

section \<open>The invariant of the scheduler\<close>

definition current_on :: "kernel \<Rightarrow> nat \<Rightarrow> nat \<Rightarrow> bool" where
  "current_on k c t \<longleftrightarrow> Option.bind (k_procs k c) current_task = Some t"

definition running :: "kernel \<Rightarrow> nat \<Rightarrow> bool" where
  "running k t \<longleftrightarrow> (\<exists>task since. k_store k t = Some task \<and> state task = Running since)"

definition pending :: "kernel \<Rightarrow> nat \<Rightarrow> bool" where
  "pending k t \<longleftrightarrow> (\<exists>task. k_store k t = Some task \<and> state task = Pending)"

definition tasks_ok :: "kernel \<Rightarrow> bool" where
  "tasks_ok k \<longleftrightarrow> distinct (k_tasks k) \<and> (\<forall>t \<in> set (k_tasks k). k_store k t \<noteq> None) \<and>
     (\<forall>t task. k_store k t = Some task \<longrightarrow> task_id task = t \<and> priority task = 0 \<and> t \<le> k_idcount k) \<and>
     (\<forall>c pinfo. k_procs k c = Some pinfo \<longrightarrow> c < 256)"

text \<open>A core has a task: it runs it or is about to remove it.\<close>

definition on_core :: "sys \<Rightarrow> nat \<Rightarrow> nat \<Rightarrow> bool" where
  "on_core s c t \<longleftrightarrow> current_on (s_kernel s) c t \<or> s_pc s c = Leaving t"

definition sched_inv :: "sys \<Rightarrow> bool" where
  "sched_inv s \<longleftrightarrow> tasks_ok (s_kernel s) \<and>
     (\<forall>c t. on_core s c t \<longrightarrow> t \<in> set (k_tasks (s_kernel s)) \<and> running (s_kernel s) t) \<and>
     (\<forall>c d t. on_core s c t \<and> on_core s d t \<longrightarrow> c = d) \<and>
     (\<forall>c t. s_pc s c = Leaving t \<longrightarrow> \<not> has_task c (s_kernel s)) \<and>
     (\<forall>c clock i best. s_pc s c = Scanning clock i best \<longrightarrow> \<not> has_task c (s_kernel s)) \<and>
     (\<forall>c clock i j t. s_pc s c = Scanning clock i (Some (j, t)) \<longrightarrow>
        j < length (k_tasks (s_kernel s)) \<and> k_tasks (s_kernel s) ! j = t \<and> pending (s_kernel s) t) \<and>
     (\<forall>c d t. guards (s_pc s c) t \<and> guards (s_pc s d) t \<longrightarrow> c = d) \<and>
     (\<forall>t \<in> set (k_tasks (s_kernel s)). running (s_kernel s) t \<longrightarrow> (\<exists>c. on_core s c t))"


lemma sched_invI:
  assumes "tasks_ok (s_kernel s)"
    and "\<And>c t. on_core s c t \<Longrightarrow> t \<in> set (k_tasks (s_kernel s)) \<and> running (s_kernel s) t"
    and "\<And>c d t. on_core s c t \<Longrightarrow> on_core s d t \<Longrightarrow> c = d"
    and "\<And>c t. s_pc s c = Leaving t \<Longrightarrow> \<not> has_task c (s_kernel s)"
    and "\<And>c clock i best. s_pc s c = Scanning clock i best \<Longrightarrow> \<not> has_task c (s_kernel s)"
    and "\<And>c clock i j t. s_pc s c = Scanning clock i (Some (j, t)) \<Longrightarrow>
        j < length (k_tasks (s_kernel s)) \<and> k_tasks (s_kernel s) ! j = t \<and> pending (s_kernel s) t"
    and "\<And>c d t. guards (s_pc s c) t \<Longrightarrow> guards (s_pc s d) t \<Longrightarrow> c = d"
    and "\<And>t. t \<in> set (k_tasks (s_kernel s)) \<Longrightarrow> running (s_kernel s) t \<Longrightarrow> \<exists>c. on_core s c t"
  shows "sched_inv s"
  unfolding sched_inv_def
  apply (intro conjI)
  subgoal using assms(1) by blast
  subgoal using assms(2) by blast
  subgoal using assms(3) by blast
  subgoal using assms(4) by blast
  subgoal using assms(5) by blast
  subgoal using assms(6) by blast
  subgoal using assms(7) by blast
  subgoal using assms(8) by blast
  done

lemma sched_invD:
  assumes "sched_inv s"
  shows "tasks_ok (s_kernel s)"
    and "on_core s c t \<Longrightarrow> t \<in> set (k_tasks (s_kernel s)) \<and> running (s_kernel s) t"
    and "on_core s c t \<Longrightarrow> on_core s d t \<Longrightarrow> c = d"
    and "s_pc s c = Leaving t \<Longrightarrow> \<not> has_task c (s_kernel s)"
    and "s_pc s c = Scanning clock i best \<Longrightarrow> \<not> has_task c (s_kernel s)"
    and "s_pc s c = Scanning clock i (Some (j, t)) \<Longrightarrow>
        j < length (k_tasks (s_kernel s)) \<and> k_tasks (s_kernel s) ! j = t \<and> pending (s_kernel s) t"
    and "guards (s_pc s c) t \<Longrightarrow> guards (s_pc s d) t \<Longrightarrow> c = d"
    and "t \<in> set (k_tasks (s_kernel s)) \<Longrightarrow> running (s_kernel s) t \<Longrightarrow> \<exists>c. on_core s c t"
  using assms unfolding sched_inv_def by blast+

text \<open>What the invariant sees of the kernel.\<close>

definition same_sched :: "kernel \<Rightarrow> kernel \<Rightarrow> bool" where
  "same_sched k k' \<longleftrightarrow> k_tasks k' = k_tasks k \<and> k_idcount k' = k_idcount k \<and>
     (\<forall>c. map_option current_task (k_procs k' c) = map_option current_task (k_procs k c)) \<and>
     (\<forall>t. map_option (\<lambda>x. (task_id x, priority x, state x)) (k_store k' t) =
        map_option (\<lambda>x. (task_id x, priority x, state x)) (k_store k t))"

lemma current_on_map: "current_on k c t \<longleftrightarrow> map_option current_task (k_procs k c) = Some (Some t)"
  by (cases "k_procs k c") (auto simp: current_on_def)

lemma has_task_current: "has_task c k \<longleftrightarrow> (\<exists>t. current_on k c t)"
  by (auto simp: has_task_def current_on_def)

lemma same_sched_view:
  assumes "same_sched k k'"
  shows "k_tasks k' = k_tasks k" "current_on k' = current_on k" "running k' = running k" "pending k' = pending k"
    "has_task c k' = has_task c k" "tasks_ok k' = tasks_ok k"
proof -
  have t: "map_option (\<lambda>x. (task_id x, priority x, state x)) (k_store k' t) =
        map_option (\<lambda>x. (task_id x, priority x, state x)) (k_store k t)" for t
    using assms by (simp add: same_sched_def)
  show tk: "k_tasks k' = k_tasks k" using assms by (simp add: same_sched_def)
  show co: "current_on k' = current_on k"
    using assms by (auto simp: fun_eq_iff current_on_map same_sched_def)
  show "running k' = running k"
  proof
    fix u show "running k' u = running k u"
      using t [of u] by (cases "k_store k u"; cases "k_store k' u") (auto simp: running_def)
  qed
  show "pending k' = pending k"
  proof
    fix u show "pending k' u = pending k u"
      using t [of u] by (cases "k_store k u"; cases "k_store k' u") (auto simp: pending_def)
  qed
  show "has_task c k' = has_task c k" by (simp add: has_task_current co)
  have "(k_store k' u \<noteq> None) = (k_store k u \<noteq> None)" for u
    using t [of u] by (cases "k_store k u"; cases "k_store k' u") auto
  moreover have "(\<forall>task. k_store k' u = Some task \<longrightarrow> task_id task = u \<and> priority task = 0 \<and> u \<le> k_idcount k') =
      (\<forall>task. k_store k u = Some task \<longrightarrow> task_id task = u \<and> priority task = 0 \<and> u \<le> k_idcount k)" for u
    using t [of u] assms by (cases "k_store k u"; cases "k_store k' u") (auto simp: same_sched_def)
  moreover have "(\<forall>pinfo. k_procs k' c = Some pinfo \<longrightarrow> c < 256) = (\<forall>pinfo. k_procs k c = Some pinfo \<longrightarrow> c < 256)" for c
  proof -
    have "map_option current_task (k_procs k' c) = map_option current_task (k_procs k c)"
      using assms by (simp add: same_sched_def)
    then show ?thesis by (cases "k_procs k c"; cases "k_procs k' c") auto
  qed
  ultimately show "tasks_ok k' = tasks_ok k" unfolding tasks_ok_def tk by presburger
qed

lemma moves_simps [simp]:
  "s_kernel (moves c p k s) = k" "s_pc (moves c p k s) d = (if d = c then p else s_pc s d)"
  by (simp_all add: moves_def)

lemma same_sched_inv:
  assumes "same_sched k k'" "sched_inv (moves c p k s)"
  shows "sched_inv (moves c p k' s)"
  using assms(2) unfolding sched_inv_def on_core_def moves_simps same_sched_view [OF assms(1)] .

text \<open>A step that keeps the tasks and takes no lock on one.\<close>

lemma plain_move:
  assumes "sched_inv s" "\<nexists>t. s_pc s c = Leaving t" "p = Idle \<or> (\<exists>n. p = Holding n) \<or> (\<exists>n. p = Reading n)"
  shows "sched_inv (moves c p (s_kernel s) s)"
proof -
  have oc: "on_core (moves c p (s_kernel s) s) = on_core s"
    using assms(2,3) by (auto simp: fun_eq_iff on_core_def)
  have g: "guards (s_pc (moves c p (s_kernel s) s) d) t \<Longrightarrow> guards (s_pc s d) t" for d t
    using assms(3) by (auto split: if_splits)
  have sc: "s_pc (moves c p (s_kernel s) s) d = Scanning a b e \<Longrightarrow> s_pc s d = Scanning a b e"
    "s_pc (moves c p (s_kernel s) s) d = Leaving t \<Longrightarrow> s_pc s d = Leaving t" for d a b e t
    using assms(3) by (auto split: if_splits)
  note D = sched_invD [OF assms(1)]
  show ?thesis
  proof (rule sched_invI, goal_cases)
    case 1 show ?case using D(1) by simp
  next
    case 2 then show ?case using D(2) by (simp add: oc)
  next
    case 3 then show ?case using D(3) by (simp only: oc)
  next
    case 4 from D(4) [OF sc(2) [OF this]] show ?case by simp
  next
    case 5 from D(5) [OF sc(1) [OF this]] show ?case by simp
  next
    case 6 from D(6) [OF sc(1) [OF this]] show ?case by simp
  next
    case 7 from D(7) [OF g [OF this(1)] g [OF this(2)]] show ?case .
  next
    case 8 then show ?case using D(8) by (simp add: oc)
  qed
qed

lemma store_fresh: "tasks_ok k \<Longrightarrow> k_store k (Suc (k_idcount k)) = None"
  by (cases "k_store k (Suc (k_idcount k))") (force simp: tasks_ok_def)+

lemma spawned_inv:
  assumes "spawned k k'" "sched_inv (moves c p k s)"
  shows "sched_inv (moves c p k' s)"
proof (cases "k_tasks k' = k_tasks k \<and> k_store k' = k_store k \<and> k_idcount k' = k_idcount k")
  case True
  then have "same_sched k k'" using assms(1) by (simp add: same_sched_def spawned_def)
  then show ?thesis using assms(2) by (rule same_sched_inv)
next
  case False
  then obtain task where k': "k_tasks k' = k_tasks k @ [Suc (k_idcount k)]" "k_store k' = (k_store k)(Suc (k_idcount k) \<mapsto> task)"
    "k_idcount k' = Suc (k_idcount k)" "task_id task = Suc (k_idcount k)" "priority task = 0" "state task = Pending"
    "k_procs k' = k_procs k"
    using assms(1) by (auto simp: spawned_def)
  note inv = assms(2) [unfolded sched_inv_def moves_simps(1)]
  have ok: "tasks_ok k" using inv by blast
  note fresh = store_fresh [OF ok]
  have run: "running k' = running k" using fresh by (auto simp: fun_eq_iff running_def k')
  have pend: "pending k u \<Longrightarrow> pending k' u" for u using fresh by (auto simp: pending_def k')
  have cur: "current_on k' = current_on k" by (simp add: fun_eq_iff current_on_def k'(7))
  have has: "has_task d k' = has_task d k" for d by (simp add: has_task_def k'(7))
  have new: "Suc (k_idcount k) \<notin> set (k_tasks k)" using ok fresh by (auto simp: tasks_ok_def)
  have ok': "tasks_ok k'" using ok new by (auto simp: tasks_ok_def k' le_Suc_eq)
  have oc: "on_core (moves c p k' s) = on_core (moves c p k s)" by (simp add: fun_eq_iff on_core_def cur)
  have nth: "j < length (k_tasks k) \<Longrightarrow> j < length (k_tasks k') \<and> k_tasks k' ! j = k_tasks k ! j" for j
    by (simp add: k'(1) nth_append)
  have nrun: "\<not> running k (Suc (k_idcount k))" using fresh by (simp add: running_def)
  have pc: "s_pc (moves c p k' s) = s_pc (moves c p k s)" by (simp add: fun_eq_iff)
  note D = sched_invD [OF assms(2), unfolded moves_simps(1)]
  show ?thesis
  proof (rule sched_invI, unfold moves_simps(1) oc run has pc, goal_cases)
    case 1 show ?case by (rule ok')
  next
    case 2 from D(2) [OF this] show ?case by (simp add: k'(1))
  next
    case 3 then show ?case by (rule D(3))
  next
    case 4 then show ?case by (rule D(4))
  next
    case 5 then show ?case by (rule D(5))
  next
    case 6 from D(6) [OF this] show ?case using nth pend by blast
  next
    case 7 then show ?case by (rule D(7))
  next
    case 8 then show ?case using D(8) nrun by (auto simp: k'(1))
  qed
qed

text \<open>The current task of a core and the state of a task, changed.\<close>

definition set_current :: "nat \<Rightarrow> nat option \<Rightarrow> kernel \<Rightarrow> kernel" where
  "set_current c t k = (case k_procs k c of Some pinfo \<Rightarrow> set_proc c (pinfo\<lparr>current_task := t\<rparr>) k | None \<Rightarrow> k)"

definition set_state :: "nat \<Rightarrow> TaskState \<Rightarrow> kernel \<Rightarrow> kernel" where
  "set_state t st k = (case k_store k t of Some task \<Rightarrow> set_task t (task\<lparr>state := st\<rparr>) k | None \<Rightarrow> k)"

lemma set_current_simps [simp]:
  "k_tasks (set_current c t k) = k_tasks k" "k_store (set_current c t k) = k_store k"
  "running (set_current c t k) = running k" "pending (set_current c t k) = pending k"
  "tasks_ok (set_current c t k) = tasks_ok k"
  by (auto simp: set_current_def set_proc_def running_def pending_def tasks_ok_def fun_eq_iff split: option.splits)

lemma set_current_on: "k_procs k c \<noteq> None \<Longrightarrow>
    current_on (set_current c t k) d u \<longleftrightarrow> (if d = c then t = Some u else current_on k d u)"
  by (auto simp: set_current_def set_proc_def current_on_def)

lemma set_state_simps [simp]:
  "k_tasks (set_state t st k) = k_tasks k" "current_on (set_state t st k) = current_on k"
  "tasks_ok (set_state t st k) = tasks_ok k" "k_procs (set_state t st k) = k_procs k"
  by (auto simp: set_state_def set_task_def current_on_def tasks_ok_def fun_eq_iff split: option.splits)

lemma set_state_running: "k_store k t \<noteq> None \<Longrightarrow>
    running (set_state t st k) u \<longleftrightarrow> (if u = t then st \<noteq> Pending else running k u)"
  by (cases st) (auto simp: set_state_def set_task_def running_def)

lemma set_state_pending: "k_store k t \<noteq> None \<Longrightarrow>
    pending (set_state t st k) u \<longleftrightarrow> (if u = t then st = Pending else pending k u)"
  by (auto simp: set_state_def set_task_def pending_def)

lemma pending_not_running: "pending k t \<Longrightarrow> \<not> running k t"
  by (auto simp: pending_def running_def)

lemma guards_Scanning: "guards p t \<longleftrightarrow> (\<exists>a i j. p = Scanning a i (Some (j, t)))"
  by (cases "(p, t)" rule: guards.cases) auto

text \<open>The release: the core's task becomes pending.\<close>

lemma current_proc: "current_on k c t \<Longrightarrow> k_procs k c \<noteq> None"
  by (cases "k_procs k c") (auto simp: current_on_def)

lemma current_unique: "current_on k c t \<Longrightarrow> current_on k c u \<longleftrightarrow> u = t"
  by (auto simp: current_on_def)

lemma running_stored: "running k t \<Longrightarrow> k_store k t \<noteq> None"
  by (auto simp: running_def)

lemma release_inv:
  assumes inv: "sched_inv s" and pc: "s_pc s c = Reading clock" and cur: "current_on (s_kernel s) c t"
  shows "sched_inv (moves c (Scanning clock 0 None) (set_state t Pending (set_current c None (s_kernel s))) s)"
proof -
  define s' where "s' = moves c (Scanning clock 0 None) (set_state t Pending (set_current c None (s_kernel s))) s"
  have k: "s_kernel s' = set_state t Pending (set_current c None (s_kernel s))"
    "\<And>d. s_pc s' d = (if d = c then Scanning clock 0 None else s_pc s d)" by (simp_all add: s'_def)
  note D = sched_invD [OF inv] and proc = current_proc [OF cur]
  have t: "on_core s c t" using cur by (simp add: on_core_def)
  have st: "k_store (set_current c None (s_kernel s)) t \<noteq> None" using D(2) [OF t] running_stored by simp
  have oc: "on_core s' d u \<longleftrightarrow> on_core s d u \<and> d \<noteq> c" for d u
    using pc by (auto simp: on_core_def k set_current_on [OF proc])
  have cu: "on_core s c u \<Longrightarrow> u = t" for u
    using cur pc by (auto simp: on_core_def current_on_def)
  have has: "has_task d (s_kernel s') \<longleftrightarrow> has_task d (s_kernel s) \<and> d \<noteq> c" for d
    by (auto simp: has_task_current k set_current_on [OF proc])
  have run: "running (s_kernel s') u \<longleftrightarrow> u \<noteq> t \<and> running (s_kernel s) u"
    and pend: "pending (s_kernel s') u \<longleftrightarrow> u = t \<or> pending (s_kernel s) u" for u
    by (simp_all add: k set_state_running [OF st] set_state_pending [OF st])
  have tk: "k_tasks (s_kernel s') = k_tasks (s_kernel s)" by (simp add: k)
  have gu: "guards (s_pc s' d) u \<Longrightarrow> guards (s_pc s d) u" for d u by (auto simp: k split: if_splits)
  have "sched_inv s'"
  proof (rule sched_invI, unfold oc has run pend tk, goal_cases)
    case 1 show ?case using D(1) by (simp add: k)
  next
    case (2 d u)
    then have "u \<noteq> t" using D(3) [of d u c] t by blast
    then show ?case using D(2) [of d u] 2 by simp
  next
    case (3 d e u) then show ?case using D(3) [of d u e] by simp
  next
    case (4 d u) then show ?case using D(4) [of d u] by (simp add: k split: if_splits)
  next
    case (5 d a i b) then show ?case using D(5) [of d a i b] by (auto simp: k split: if_splits)
  next
    case (6 d a i j u) then show ?case using D(6) [of d a i j u] by (auto simp: k split: if_splits)
  next
    case (7 d e u) then show ?case using D(7) [OF gu gu] by blast
  next
    case (8 u)
    then obtain d where "on_core s d u" using D(8) by blast
    then show ?case using 8 cu by (intro exI [of _ d]) auto
  qed
  then show ?thesis by (simp add: s'_def)
qed

text \<open>The commit: the candidate becomes the task of the core.\<close>

lemma commit_inv:
  assumes inv: "sched_inv s" and pc: "s_pc s c = Scanning clock i (Some (j, t))" and proc: "k_procs (s_kernel s) c \<noteq> None"
  shows "sched_inv (moves c Idle (set_current c (Some t) (set_state t (Running n) (s_kernel s))) s)"
proof -
  define s' where "s' = moves c Idle (set_current c (Some t) (set_state t (Running n) (s_kernel s))) s"
  have k: "s_kernel s' = set_current c (Some t) (set_state t (Running n) (s_kernel s))"
    "\<And>d. s_pc s' d = (if d = c then Idle else s_pc s d)" by (simp_all add: s'_def)
  note D = sched_invD [OF inv]
  have proc': "k_procs (set_state t (Running n) (s_kernel s)) c \<noteq> None" using proc by simp
  have t: "t \<in> set (k_tasks (s_kernel s))" "pending (s_kernel s) t" using D(6) [OF pc] nth_mem by blast+
  have st: "k_store (s_kernel s) t \<noteq> None" using t(2) by (auto simp: pending_def)
  have free: "\<not> on_core s d t" for d using D(2) [of d t] pending_not_running [OF t(2)] by blast
  have nc: "\<not> on_core s c u" for u
    using D(5) [OF pc] pc by (auto simp: on_core_def has_task_current)
  have oc: "on_core s' d u \<longleftrightarrow> (if d = c then u = t else on_core s d u)" for d u
    by (auto simp: on_core_def k set_current_on [OF proc'])
  have has: "has_task d (s_kernel s') \<longleftrightarrow> d = c \<or> has_task d (s_kernel s)" for d
    by (auto simp: has_task_current k set_current_on [OF proc'])
  have run: "running (s_kernel s') u \<longleftrightarrow> u = t \<or> running (s_kernel s) u"
    and pend: "pending (s_kernel s') u \<longleftrightarrow> u \<noteq> t \<and> pending (s_kernel s) u" for u
    by (simp_all add: k set_state_running [OF st] set_state_pending [OF st])
  have tk: "k_tasks (s_kernel s') = k_tasks (s_kernel s)" by (simp add: k)
  have gu: "guards (s_pc s' d) u \<Longrightarrow> guards (s_pc s d) u" for d u by (auto simp: k split: if_splits)
  have g: "guards (s_pc s c) t" using pc by simp
  have "sched_inv s'"
  proof (rule sched_invI, unfold oc has run pend tk, goal_cases)
    case 1 show ?case using D(1) by (simp add: k)
  next
    case (2 d u) then show ?case using D(2) [of d u] t by (auto split: if_splits)
  next
    case (3 d e u) then show ?case using D(3) [of d u e] free by (auto split: if_splits)
  next
    case (4 d u) then show ?case using D(4) [of d u] by (auto simp: k split: if_splits)
  next
    case (5 d a i b) then show ?case using D(5) [of d a i b] by (auto simp: k split: if_splits)
  next
    case (6 d a i j u)
    then have d: "d \<noteq> c" "s_pc s d = Scanning a i (Some (j, u))" by (auto simp: k split: if_splits)
    then have "u \<noteq> t" using D(7) [OF _ g, of d] by auto
    then show ?case using D(6) [OF d(2)] by simp
  next
    case (7 d e u) then show ?case using D(7) [OF gu gu] by blast
  next
    case (8 u)
    show ?case
    proof (cases "u = t")
      case False
      then obtain d where "on_core s d u" using D(8) 8 by blast
      then show ?thesis using nc by (intro exI [of _ d]) auto
    qed auto
  qed
  then show ?thesis by (simp add: s'_def)
qed

text \<open>Taking the task of a core before it is removed.\<close>

lemma leave_inv:
  assumes inv: "sched_inv s" and pc: "s_pc s c = Idle" and cur: "current_on (s_kernel s) c t"
  shows "sched_inv (moves c (Leaving t) (set_current c None (s_kernel s)) s)"
proof -
  define s' where "s' = moves c (Leaving t) (set_current c None (s_kernel s)) s"
  have k: "s_kernel s' = set_current c None (s_kernel s)" "\<And>d. s_pc s' d = (if d = c then Leaving t else s_pc s d)"
    by (simp_all add: s'_def)
  note D = sched_invD [OF inv] and proc = current_proc [OF cur]
  have oc: "on_core s' d u \<longleftrightarrow> on_core s d u" for d u
    using pc current_unique [OF cur] by (auto simp: on_core_def k set_current_on [OF proc])
  have has: "has_task d (s_kernel s') \<longleftrightarrow> has_task d (s_kernel s) \<and> d \<noteq> c" for d
    by (auto simp: has_task_current k set_current_on [OF proc])
  have gu: "guards (s_pc s' d) u \<Longrightarrow> guards (s_pc s d) u" for d u by (auto simp: k split: if_splits)
  have kk: "k_tasks (s_kernel s') = k_tasks (s_kernel s)" "running (s_kernel s') = running (s_kernel s)"
    "pending (s_kernel s') = pending (s_kernel s)" "tasks_ok (s_kernel s') = tasks_ok (s_kernel s)" by (simp_all add: k)
  have "sched_inv s'"
  proof (rule sched_invI, unfold oc has kk, goal_cases)
    case 1 show ?case by (rule D(1))
  next
    case 2 then show ?case by (rule D(2))
  next
    case 3 then show ?case by (rule D(3))
  next
    case (4 d u) then show ?case using D(4) [of d u] by (auto simp: k split: if_splits)
  next
    case (5 d a i b) then show ?case using D(5) [of d a i b] by (auto simp: k split: if_splits)
  next
    case (6 d a i j u) then show ?case using D(6) [of d a i j u] by (auto simp: k split: if_splits)
  next
    case 7 then show ?case using D(7) [OF gu gu] by blast
  next
    case 8 then show ?case by (rule D(8))
  qed
  then show ?thesis by (simp add: s'_def)
qed


lemma remove_nth_set:
  assumes "distinct xs" "i < length xs"
  shows "set (remove_nth i xs) = set xs - {xs ! i}" "distinct (remove_nth i xs)"
proof -
  define a b where "a = take i xs" and "b = drop (Suc i) xs"
  have "xs = a @ xs ! i # b" unfolding a_def b_def by (rule id_take_nth_drop [OF assms(2)])
  then obtain x where xs: "xs = a @ x # b" "x = xs ! i" by blast
  have "remove_nth i xs = a @ b" by (simp add: remove_nth_def a_def b_def)
  moreover have "distinct (a @ x # b)" using assms(1) xs(1) by simp
  moreover have "set xs = set (a @ x # b)" using xs(1) by (rule arg_cong)
  ultimately show "set (remove_nth i xs) = set xs - {xs ! i}" "distinct (remove_nth i xs)"
    unfolding xs(2) [symmetric] by auto
qed

text \<open>The removal: the task leaves the list and, with its last reference, the store.\<close>

lemma exit_remove_eq:
  assumes ok: "tasks_ok k" and t: "t \<in> set (k_tasks k)" and nc: "\<And>c. \<not> current_on k c t"
    and e: "exit_remove X t k = Some k'"
  shows "\<exists>index m. index < length (k_tasks k) \<and> k_tasks k ! index = t \<and>
    k' = k\<lparr>k_tasks := remove_nth index (k_tasks k), k_mem := m, k_store := (k_store k)(t := None)\<rparr>"
proof -
  from ok t obtain task where task: "k_store k t = Some task" "task_id task = t"
    by (force simp: tasks_ok_def)
  have "has_id k t t" using task by (simp add: has_id_def)
  then have "find_index (has_id k t) (k_tasks k) \<noteq> None" using t by (auto simp: find_index_None)
  then obtain index where i: "find_index (has_id k t) (k_tasks k) = Some index" by blast
  then have ix: "index < length (k_tasks k)" "has_id k t (k_tasks k ! index)" by (auto simp: find_index_Some)
  have it: "k_tasks k ! index = t"
    using ix(2) ok by (auto simp: has_id_def tasks_ok_def)
  have "t \<notin> set (remove_nth index (k_tasks k))"
    using remove_nth_set(1) [OF _ ix(1)] ok it by (simp add: tasks_ok_def)
  then have "\<not> held t (k\<lparr>k_tasks := remove_nth index (k_tasks k)\<rparr>)"
    using nc by (simp add: held_def list_ex_iff current_on_def)
  then obtain m where "k' = k\<lparr>k_tasks := remove_nth index (k_tasks k), k_mem := m, k_store := (k_store k)(t := None)\<rparr>"
    using e task i it by (auto simp: exit_remove_def drop_ref_def rust_simps)
  with ix(1) it show ?thesis by blast
qed

lemma remove_inv:
  assumes inv: "sched_inv s" and pc: "s_pc s c = Leaving t" and al: "alone c s"
    and e: "exit_remove X t (s_kernel s) = Some k'"
  shows "sched_inv (moves c Idle k' s)"
proof -
  note D = sched_invD [OF inv]
  have t: "on_core s c t" using pc by (simp add: on_core_def)
  have nc: "\<not> current_on (s_kernel s) d t" for d
    using D(3) [of d t c] t D(4) [OF pc] by (auto simp: on_core_def has_task_current)
  obtain index m where ix: "index < length (k_tasks (s_kernel s))" "k_tasks (s_kernel s) ! index = t"
    and k': "k' = (s_kernel s)\<lparr>k_tasks := remove_nth index (k_tasks (s_kernel s)), k_mem := m,
      k_store := (k_store (s_kernel s))(t := None)\<rparr>"
    using exit_remove_eq [OF D(1) _ nc e] D(2) [OF t] by blast
  have dist: "distinct (k_tasks (s_kernel s))" using D(1) by (simp add: tasks_ok_def)
  have set': "set (k_tasks k') = set (k_tasks (s_kernel s)) - {t}"
    using remove_nth_set(1) [OF dist ix(1)] ix(2) by (simp add: k')
  define s' where "s' = moves c Idle k' s"
  have k: "s_kernel s' = k'" "\<And>d. s_pc s' d = (if d = c then Idle else s_pc s d)" by (simp_all add: s'_def)
  have cur: "current_on k' = current_on (s_kernel s)" by (simp add: fun_eq_iff current_on_def k')
  have run: "running k' u \<longleftrightarrow> u \<noteq> t \<and> running (s_kernel s) u" for u by (simp add: running_def k')
  have oc: "on_core s' d u \<longleftrightarrow> on_core s d u \<and> d \<noteq> c" for d u
    using D(4) [OF pc] by (auto simp: on_core_def k cur has_task_current)
  have has: "has_task d k' = has_task d (s_kernel s)" for d by (simp add: has_task_def k')
  have ns: "s_pc s' d \<noteq> Scanning a i b" for d a i b
    using al by (auto simp: k alone_def dest: spec [of _ d])
  have "sched_inv s'"
  proof (rule sched_invI, unfold oc has k(1) run set', goal_cases)
    case 1 show ?case using D(1) remove_nth_set(2) [OF dist ix(1)] set' by (auto simp: tasks_ok_def k')
  next
    case (2 d u) then show ?case using D(2) [of d u] D(3) [of d u c] t by auto
  next
    case (3 d e u) then show ?case using D(3) [of d u e] by simp
  next
    case (4 d u) then show ?case using D(4) [of d u] by (auto simp: k split: if_splits)
  next
    case 5 then show ?case using ns by blast
  next
    case 6 then show ?case using ns by blast
  next
    case 7 then show ?case using ns by (auto simp: guards_Scanning)
  next
    case (8 u)
    then obtain d where "on_core s d u" using D(8) by blast
    then show ?case using 8 pc D(4) [OF pc] by (intro exI [of _ d]) (auto simp: on_core_def has_task_current)
  qed
  then show ?thesis by (simp add: s'_def)
qed

text \<open>The search: a core changes only its own candidate, to a pending task no other core has locked.\<close>

lemma scan_inv:
  assumes inv: "sched_inv s" and pc: "s_pc s c = Scanning clock i best \<or> (s_pc s c = Reading clock \<and> \<not> has_task c (s_kernel s))"
    and best: "\<And>j t. best' = Some (j, t) \<Longrightarrow>
      j < length (k_tasks (s_kernel s)) \<and> k_tasks (s_kernel s) ! j = t \<and> pending (s_kernel s) t \<and>
      (\<forall>d. d \<noteq> c \<longrightarrow> \<not> guards (s_pc s d) t)"
  shows "sched_inv (moves c (Scanning clock i' best') (s_kernel s) s)"
proof -
  define s' where "s' = moves c (Scanning clock i' best') (s_kernel s) s"
  have k: "s_kernel s' = s_kernel s" "\<And>d. s_pc s' d = (if d = c then Scanning clock i' best' else s_pc s d)"
    by (simp_all add: s'_def)
  note D = sched_invD [OF inv]
  have oc: "on_core s' d u \<longleftrightarrow> on_core s d u" for d u using pc by (auto simp: on_core_def k)
  have "sched_inv s'"
  proof (rule sched_invI, unfold oc k(1), goal_cases)
    case 1 show ?case by (rule D(1))
  next
    case 2 then show ?case by (rule D(2))
  next
    case 3 then show ?case by (rule D(3))
  next
    case (4 d u) then show ?case using D(4) [of d u] by (auto simp: k split: if_splits)
  next
    case (5 d a i b) then show ?case using D(5) [of d] pc by (auto simp: k split: if_splits)
  next
    case (6 d a i j u) then show ?case using D(6) [of d a i j u] best by (auto simp: k split: if_splits)
  next
    case (7 d e u)
    then show ?case using D(7) [of d u e] best by (auto simp: k guards_Scanning split: if_splits)
  next
    case 8 then show ?case by (rule D(8))
  qed
  then show ?thesis by (simp add: s'_def)
qed


section \<open>Every step keeps the invariant\<close>

lemma same_sched_proc:
  "k_procs k c = Some pinfo \<Longrightarrow> current_task pinfo' = current_task pinfo \<Longrightarrow> same_sched k (set_proc c pinfo' k)"
  by (simp add: same_sched_def set_proc_def)

lemma same_sched_trans: "same_sched k k1 \<Longrightarrow> same_sched k1 k2 \<Longrightarrow> same_sched k k2"
  by (simp add: same_sched_def)

lemma tick_miss_same: "tick_miss_step c k = Some k' \<Longrightarrow> same_sched k k'"
  by (auto simp: tick_miss_step_def rust_simps intro: same_sched_proc)

lemma tick_save_same:
  assumes "tick_save c ps k = Some (clock, k')"
  shows "same_sched k k'"
proof -
  from assms obtain pinfo where p: "k_procs k c = Some pinfo" by (auto simp: tick_save_def rust_simps)
  show ?thesis using assms
    by (cases "current_task pinfo") (auto simp: tick_save_def p rust_simps same_sched_def set_task_def Let_def)
qed

lemma map_apply_current: "map_apply X mm (pinfo, m) = Some (pinfo', m') \<Longrightarrow> current_task pinfo' = current_task pinfo"
  by (auto simp: map_apply_def rust_simps split: if_splits)

lemma same_sched_mem: "same_sched k (k\<lparr>k_mem := m\<rparr>)" "same_sched k (k\<lparr>k_lapic := l\<rparr>)"
  by (simp_all add: same_sched_def)

lemma continue_same:
  assumes "continue_current X c reset k = Some (r, k')"
  shows "same_sched k k'"
proof -
  from assms obtain pinfo where p: "k_procs k c = Some pinfo" by (auto simp: continue_current_def rust_simps)
  show ?thesis
  proof (cases "current_task pinfo")
    case None
    then show ?thesis using assms by (simp add: continue_current_def p same_sched_def)
  next
    case (Some t)
    from assms Some obtain task where t: "k_store k t = Some task" by (auto simp: continue_current_def p rust_simps)
    from assms Some obtain pinfo' m where m: "map_apply X (memory_map task) (pinfo, k_mem k) = Some (pinfo', m)"
      by (auto simp: continue_current_def p t rust_simps)
    have k': "k' = set_proc c pinfo' (k\<lparr>k_mem := m\<rparr>) \<or> (\<exists>l. k' = (set_proc c pinfo' (k\<lparr>k_mem := m\<rparr>))\<lparr>k_lapic := l\<rparr>)"
      using assms Some by (cases reset) (auto simp: continue_current_def p t m Let_def)
    have "same_sched (k\<lparr>k_mem := m\<rparr>) (set_proc c pinfo' (k\<lparr>k_mem := m\<rparr>))"
      using p map_apply_current [OF m] by (intro same_sched_proc) simp_all
    then show ?thesis using k' same_sched_mem same_sched_trans by blast
  qed
qed

lemma tick_release_cases:
  assumes "tick_release c k = Some k'"
  shows "k' = k \<or> (\<exists>t. current_on k c t \<and> k' = set_state t Pending (set_current c None k))"
proof -
  from assms obtain pinfo where p: "k_procs k c = Some pinfo" by (auto simp: tick_release_def rust_simps)
  show ?thesis
  proof (cases "current_task pinfo")
    case (Some t)
    then have "current_on k c t" by (simp add: current_on_def p)
    moreover have "k' = k \<or> k' = set_state t Pending (set_current c None k)"
    proof -
      from assms Some obtain task where t: "k_store k t = Some task" by (auto simp: tick_release_def p rust_simps)
      show ?thesis using assms Some
        by (cases "state task") (auto simp: tick_release_def p t rust_simps set_state_def set_current_def set_proc_def
            set_task_def split: if_splits)
    qed
    ultimately show ?thesis by blast
  qed (use assms in \<open>simp add: tick_release_def p\<close>)
qed

lemma tick_commit_eq:
  assumes "tick_commit c clock (j, t) k = Some k'" "k_tasks k ! j = t"
  shows "k_procs k c \<noteq> None" "k' = set_current c (Some t) (set_state t (Running clock) k)"
  using assms by (auto simp: tick_commit_def rust_simps set_state_def set_current_def set_task_def)

lemma pick_step_cases:
  assumes "tasks_ok k" "pick_step (k_store k) busy (i, t) best = Some best'"
  shows "best' = best \<or> (best = None \<and> best' = Some (i, t) \<and> pending k t \<and> \<not> busy t)"
  using assms by (auto simp: pick_step_def rust_simps tasks_ok_def pending_def split: if_splits option.splits)

lemma exit_take_eq: "exit_take c k = Some (Some t, k') \<Longrightarrow> current_on k c t \<and> k' = set_current c None k"
  by (auto simp: exit_take_def rust_simps current_on_def set_current_def)

lemma same_step:
  "sched_inv s \<Longrightarrow> same_sched (s_kernel s) k' \<Longrightarrow> s_pc s c = Idle \<or> (\<exists>n. s_pc s c = Holding n) \<Longrightarrow>
   p = Idle \<or> (\<exists>n. p = Holding n) \<or> (\<exists>n. p = Reading n) \<Longrightarrow> sched_inv (moves c p k' s)"
  using same_sched_inv plain_move by (metis pc.distinct(7) pc.distinct(13))

lemma sched_step_inv:
  assumes "sched_step X s s'" "sched_inv s"
  shows "sched_inv s'"
  using assms
proof cases
  case (miss c k')
  then show ?thesis using assms(2) tick_miss_same same_step by blast
next
  case (start c pinfo ps clock k')
  have "same_sched (s_kernel s) k'"
    using same_sched_trans [OF same_sched_proc [OF start(4)] tick_save_same [OF start(5)]] by simp
  then show ?thesis using start assms(2) same_step by blast
next
  case (downgrade c clock k')
  have "sched_inv (moves c (Reading clock) (s_kernel s) s)" using assms(2) downgrade(2) by (intro plain_move) auto
  then show ?thesis unfolding downgrade(1) by (rule spawned_inv [OF tick_init_spawned [OF downgrade(4)]])
next
  case (release c clock k')
  consider "k' = s_kernel s" "has_task c k'" | "k' = s_kernel s" "\<not> has_task c k'"
    | t where "current_on (s_kernel s) c t" "k' = set_state t Pending (set_current c None (s_kernel s))"
    using tick_release_cases [OF release(3)] by blast
  then show ?thesis
  proof cases
    case 1
    then show ?thesis unfolding release(1) using assms(2) release(2) by (auto intro!: plain_move)
  next
    case 2
    then show ?thesis unfolding release(1) using assms(2) release(2) by (auto intro!: scan_inv)
  next
    case 3
    then have "\<not> has_task c k'" by (auto simp: has_task_current set_current_on [OF current_proc])
    then show ?thesis unfolding release(1) using release_inv [OF assms(2) release(2) 3(1)] 3(2) by simp
  qed
next
  case (skip c clock i best)
  then show ?thesis using sched_invD(6,7) [OF assms(2)] by (auto intro!: scan_inv [OF assms(2)])
next
  case (look c clock i best best')
  show ?thesis unfolding look(1)
  proof (rule scan_inv [OF assms(2) disjI1 [OF look(2)]])
    fix j t assume b: "best' = Some (j, t)"
    from pick_step_cases [OF sched_invD(1) [OF assms(2)] look(5)]
    consider "best = Some (j, t)" | "j = i" "t = k_tasks (s_kernel s) ! i" "pending (s_kernel s) t" using b by auto
    then show "j < length (k_tasks (s_kernel s)) \<and> k_tasks (s_kernel s) ! j = t \<and> pending (s_kernel s) t \<and>
        (\<forall>d. d \<noteq> c \<longrightarrow> \<not> guards (s_pc s d) t)"
    proof cases
      case 1
      then have "guards (s_pc s c) t" using look(2) by simp
      then show ?thesis using sched_invD(6,7) [OF assms(2)] look(2) 1 by blast
    qed (use look in simp)
  qed
next
  case (commit c clock i best k')
  obtain j t where b: "best = (j, t)" by (cases best)
  have "k_tasks (s_kernel s) ! j = t" using sched_invD(6) [OF assms(2)] commit(2) b by blast
  note e = tick_commit_eq [OF commit(4) [unfolded b] this]
  show ?thesis unfolding commit(1) e(2) using assms(2) commit(2) [unfolded b] e(1) by (rule commit_inv)
next
  case (idle c clock i)
  then show ?thesis using assms(2) by (auto intro!: plain_move)
next
  case (resume c reset r k')
  then show ?thesis using assms(2) continue_same same_step by blast
next
  case (leave c t k')
  then show ?thesis using exit_take_eq [OF leave(3)] leave_inv [OF assms(2)] by blast
next
  case (remove c t k')
  then show ?thesis using remove_inv [OF assms(2)] by blast
next
  case (spawn c path' r k')
  have "sched_inv (moves c Idle (s_kernel s) s)" using assms(2) spawn(2) by (intro plain_move) auto
  then show ?thesis unfolding spawn(1) by (rule spawned_inv [OF exec_initrd_spawned [OF spawn(4)]])
qed


section \<open>The tick as steps\<close>

lemma scan_run:
  assumes "fold_opt (pick_step (k_store (s_kernel s)) busy) (List.enumerate i xs) best = Some best'"
    and "i \<le> length (k_tasks (s_kernel s))" "xs = drop i (k_tasks (s_kernel s))"
    and "s_pc s c = Scanning clock i best" "alone c s"
  shows "(sched_step X)\<^sup>*\<^sup>* s (moves c (Scanning clock (length (k_tasks (s_kernel s))) best') (s_kernel s) s)"
  using assms
proof (induction xs arbitrary: i best s)
  case Nil
  then have "moves c (Scanning clock (length (k_tasks (s_kernel s))) best') (s_kernel s) s = s"
    by (simp add: moves_def fun_upd_idem)
  then show ?case by simp
next
  case (Cons t xs)
  let ?k = "s_kernel s"
  have i: "i < length (k_tasks ?k)" using Cons.prems(3) by (metis drop_eq_Nil linorder_not_less list.distinct(1))
  have "t # xs = k_tasks ?k ! i # drop (Suc i) (k_tasks ?k)"
    unfolding Cons.prems(3) by (rule Cons_nth_drop_Suc [OF i, symmetric])
  then have t: "k_tasks ?k ! i = t" "xs = drop (Suc i) (k_tasks ?k)" by simp_all
  from Cons.prems(1) obtain b1 where b1: "pick_step (k_store ?k) busy (i, t) best = Some b1"
    "fold_opt (pick_step (k_store ?k) busy) (List.enumerate (Suc i) xs) b1 = Some best'"
    by (auto simp: rust_simps)
  let ?s = "moves c (Scanning clock (Suc i) b1) ?k s"
  have "sched_step X s ?s"
  proof (cases "busy t")
    case True
    then have "b1 = best" using b1(1) by (simp add: pick_step_def)
    then show ?thesis using sched_step.skip [OF Cons.prems(4) i] by simp
  next
    case False
    then have "pick_step (k_store ?k) (\<lambda>_. False) (i, k_tasks ?k ! i) best = Some b1"
      using b1(1) t(1) by (simp add: pick_step_def)
    moreover have "\<not> guards (s_pc s d) u" if "d \<noteq> c" for d u
      using Cons.prems(5) that by (auto simp: alone_def guards_Scanning dest: spec [of _ d])
    ultimately show ?thesis using sched_step.look [OF Cons.prems(4) i] by blast
  qed
  moreover have "alone c ?s" using Cons.prems(5) by (simp add: alone_def)
  then have "(sched_step X)\<^sup>*\<^sup>* ?s (moves c (Scanning clock (length (k_tasks ?k)) best') ?k ?s)"
    using Cons.IH [of ?s "Suc i" b1] b1(2) i t(2) by simp
  moreover have "moves c (Scanning clock (length (k_tasks ?k)) best') ?k ?s =
      moves c (Scanning clock (length (k_tasks ?k)) best') ?k s" by (simp add: moves_def)
  ultimately show ?case using converse_rtranclp_into_rtranclp by fastforce
qed

lemma moves_moves [simp]: "moves c p k (moves c q l s) = moves c p k s"
  by (simp add: moves_def)

lemma alone_moves [simp]: "alone c (moves c p k s) = alone c s"
  by (simp add: alone_def)

lemma pick_run:
  assumes "tick_pick c busy clock k = Some k'" and "alone c s"
  shows "(sched_step X)\<^sup>*\<^sup>* (moves c (Scanning clock 0 None) k s) (moves c Idle k' s)"
proof -
  let ?s = "moves c (Scanning clock 0 None) k s"
  from assms(1) obtain best where b: "fold_opt (pick_step (k_store k) busy) (List.enumerate 0 (k_tasks k)) None = Some best"
    "(case best of Some b \<Rightarrow> tick_commit c clock b k | None \<Rightarrow> Some k) = Some k'"
    unfolding tick_pick_def bind_Some_iff by blast
  let ?t = "moves c (Scanning clock (length (k_tasks k)) best) k s"
  have "(sched_step X)\<^sup>*\<^sup>* ?s (moves c (Scanning clock (length (k_tasks (s_kernel ?s))) best) (s_kernel ?s) ?s)"
    by (rule scan_run [of ?s busy 0 "k_tasks k" None]) (unfold moves_simps alone_moves, insert b(1) assms(2), simp_all)
  then have "(sched_step X)\<^sup>*\<^sup>* ?s ?t" by (simp only: moves_moves moves_simps)
  also have "sched_step X ?t (moves c Idle k' s)"
  proof (cases best)
    case None
    then show ?thesis using sched_step.idle [of ?t c clock "length (k_tasks k)" X] b(2) by simp
  next
    case (Some bb)
    then show ?thesis using sched_step.commit [of ?t c clock "length (k_tasks k)" bb k' X] b(2) by simp
  qed
  finally show ?thesis .
qed

text \<open>A tick that is not missed runs its four phases.\<close>

lemma tick_phases:
  assumes "tick X c free busy ps k = Some k'" "k_procs k c = Some pinfo" "\<not> (tick_miss pinfo \<le> MAX_TICK_MISS \<and> \<not> free)"
  obtains clock k1 k2 k3 where "tick_save c ps (set_proc c (pinfo\<lparr>tick_miss := 0\<rparr>) k) = Some (clock, k1)"
    "tick_init X c k1 = Some k2" "tick_release c k2 = Some k3"
    "(if has_task c k3 then Some k3 else tick_pick c busy clock k3) = Some k'"
proof -
  let ?k0 = "set_proc c (pinfo\<lparr>tick_miss := 0\<rparr>) k"
  from assms have t: "Option.bind (tick_save c ps ?k0) (\<lambda>(clock, k). Option.bind (tick_init X c k)
      (\<lambda>k. Option.bind (tick_release c k) (\<lambda>k. if has_task c k then Some k else tick_pick c busy clock k))) = Some k'"
    unfolding tick_def Let_def by (simp split: if_splits)
  then obtain clock k1 where k1: "tick_save c ps ?k0 = Some (clock, k1)" by (auto simp: bind_Some_iff)
  with t obtain k2 where k2: "tick_init X c k1 = Some k2" by (auto simp: bind_Some_iff)
  with t k1 obtain k3 where k3: "tick_release c k2 = Some k3" by (auto simp: bind_Some_iff)
  from t k1 k2 k3 show ?thesis by (intro that [of clock k1 k2 k3]) simp_all
qed

lemma tick_steps:
  assumes "tick X c free busy ps (s_kernel s) = Some k'" and "s_pc s c = Idle" and "alone c s"
  shows "(sched_step X)\<^sup>*\<^sup>* s (moves c Idle k' s)"
proof -
  let ?k = "s_kernel s"
  from assms(1) obtain pinfo where p: "k_procs ?k c = Some pinfo" unfolding tick_def bind_Some_iff by blast
  show ?thesis
  proof (cases "tick_miss pinfo \<le> MAX_TICK_MISS \<and> \<not> free")
    case True
    then have "tick_miss_step c ?k = Some k'" using assms(1) by (simp add: tick_def p)
    then show ?thesis using sched_step.miss [OF assms(2)] by blast
  next
    case False
    from tick_phases [OF assms(1) p False] obtain clock k1 k2 k3 where
      k1: "tick_save c ps (set_proc c (pinfo\<lparr>tick_miss := 0\<rparr>) ?k) = Some (clock, k1)" and k2: "tick_init X c k1 = Some k2"
      and k3: "tick_release c k2 = Some k3" and k': "(if has_task c k3 then Some k3 else tick_pick c busy clock k3) = Some k'" .
    have "\<not> is_holding (s_pc s d)" for d using assms(2,3) by (cases "d = c") (auto simp: alone_def)
    then have "(sched_step X)\<^sup>*\<^sup>* s (moves c (Holding clock) k1 s)"
      using sched_step.start [OF assms(2) _ p k1] by (intro r_into_rtranclp) blast
    also have "sched_step X (moves c (Holding clock) k1 s) (moves c (Reading clock) k2 s)"
      using sched_step.downgrade [of "moves c (Holding clock) k1 s" c clock X k2] k2 assms(3) by simp
    also have "sched_step X (moves c (Reading clock) k2 s)
        (moves c (if has_task c k3 then Idle else Scanning clock 0 None) k3 s)"
      using sched_step.release [of "moves c (Reading clock) k2 s" c clock k3 X] k3 by simp
    also have "(sched_step X)\<^sup>*\<^sup>* \<dots> (moves c Idle k' s)"
      using k' pick_run [OF _ assms(3), of busy clock k3 k' X] by (cases "has_task c k3") simp_all
    finally show ?thesis .
  qed
qed

section \<open>Which task runs\<close>

text \<open>The current task has used up its time when this tick is counted.\<close>

definition expired :: "kernel \<Rightarrow> nat \<Rightarrow> bool" where
  "expired k t \<longleftrightarrow> (case k_store k t of
       Some task \<Rightarrow> (case state task of Running since \<Rightarrow> 10 * k_numcores k \<le> k_clock k + 1 - since | Pending \<Rightarrow> False)
     | None \<Rightarrow> False)"

definition is_pending :: "kernel \<Rightarrow> nat \<Rightarrow> bool" where
  "is_pending k t \<longleftrightarrow> map_option state (k_store k t) = Some Pending"

text \<open>
  The task a core has after its tick: the one it has, until that has expired; then the first one
  of the list that is waiting, the expired one among them.
\<close>

definition sched_choice :: "nat \<Rightarrow> (nat \<Rightarrow> bool) \<Rightarrow> kernel \<Rightarrow> nat option" where
  "sched_choice c busy k = (case Option.bind (k_procs k c) current_task of
       Some t \<Rightarrow> if expired k t then List.find (\<lambda>u. \<not> busy u \<and> (u = t \<or> is_pending k u)) (k_tasks k) else Some t
     | None \<Rightarrow> List.find (\<lambda>u. \<not> busy u \<and> is_pending k u) (k_tasks k))"

lemma pick_keep:
  assumes "\<And>t. t \<in> set xs \<Longrightarrow> \<exists>task. st t = Some task \<and> priority task = 0" "\<exists>task. st b = Some task \<and> priority task = 0"
  shows "fold_opt (pick_step st busy) (List.enumerate i xs) (Some (j, b)) = Some (Some (j, b))"
  using assms
proof (induction xs arbitrary: i)
  case (Cons t xs)
  obtain task btask where "st t = Some task" "priority task = 0" "st b = Some btask" "priority btask = 0"
    using Cons.prems by force
  then have "pick_step st busy (i, t) (Some (j, b)) = Some (Some (j, b))" by (simp add: pick_step_def)
  with Cons show ?case by simp
qed simp

lemma pick_first:
  assumes "\<And>t. t \<in> set xs \<Longrightarrow> \<exists>task. st t = Some task \<and> priority task = 0"
  shows "\<exists>best. fold_opt (pick_step st busy) (List.enumerate i xs) None = Some best \<and>
    map_option snd best = List.find (\<lambda>t. \<not> busy t \<and> map_option state (st t) = Some Pending) xs \<and>
    (\<forall>j t. best = Some (j, t) \<longrightarrow> i \<le> j \<and> j < i + length xs \<and> xs ! (j - i) = t)"
  using assms
proof (induction xs arbitrary: i)
  case (Cons t xs)
  obtain task where t: "st t = Some task" "priority task = 0" using Cons.prems by force
  show ?case
  proof (cases "\<not> busy t \<and> state task = Pending")
    case True
    then have "pick_step st busy (i, t) None = Some (Some (i, t))" by (simp add: pick_step_def t)
    moreover have "fold_opt (pick_step st busy) (List.enumerate (Suc i) xs) (Some (i, t)) = Some (Some (i, t))"
      using Cons.prems t by (intro pick_keep) auto
    ultimately show ?thesis using True t by simp
  next
    case False
    then have "pick_step st busy (i, t) None = Some None" by (auto simp: pick_step_def t)
    moreover obtain best where "fold_opt (pick_step st busy) (List.enumerate (Suc i) xs) None = Some best"
      "map_option snd best = List.find (\<lambda>t. \<not> busy t \<and> map_option state (st t) = Some Pending) xs"
      "\<forall>j t. best = Some (j, t) \<longrightarrow> Suc i \<le> j \<and> j < Suc i + length xs \<and> xs ! (j - Suc i) = t"
      using Cons.IH [of "Suc i"] Cons.prems by auto
    ultimately show ?thesis using False t
      by (intro exI [of _ best]) (auto simp: nth_Cons' Suc_leD)
  qed
qed simp

lemma tick_pick_ok:
  assumes "tasks_ok k" "k_procs k c = Some pinfo"
  shows "\<exists>k'. tick_pick c busy clock k = Some k' \<and>
    k' = (case List.find (\<lambda>t. \<not> busy t \<and> is_pending k t) (k_tasks k) of
       None \<Rightarrow> k | Some t \<Rightarrow> set_current c (Some t) (set_state t (Running clock) k))"
proof -
  have "\<exists>task. k_store k t = Some task \<and> priority task = 0" if "t \<in> set (k_tasks k)" for t
    using assms(1) that by (force simp: tasks_ok_def)
  from pick_first [where xs = "k_tasks k" and st = "k_store k" and busy = busy and i = 0, OF this] obtain best where
    b: "fold_opt (pick_step (k_store k) busy) (List.enumerate 0 (k_tasks k)) None = Some best"
    "map_option snd best = List.find (\<lambda>t. \<not> busy t \<and> is_pending k t) (k_tasks k)"
    "\<And>j t. best = Some (j, t) \<Longrightarrow> j < length (k_tasks k) \<and> k_tasks k ! j = t"
    by (auto simp: is_pending_def)
  show ?thesis
  proof (cases best)
    case None
    then show ?thesis using b by (simp add: tick_pick_def)
  next
    case (Some jt)
    obtain j t where jt: "jt = (j, t)" by (cases jt)
    then have f: "List.find (\<lambda>t. \<not> busy t \<and> is_pending k t) (k_tasks k) = Some t" using b(2) Some by simp
    then have "is_pending k t" by (auto simp: find_Some_iff)
    then obtain task where "k_store k t = Some task" by (auto simp: is_pending_def)
    then have "tick_commit c clock (j, t) k = Some (set_current c (Some t) (set_state t (Running clock) k))"
      using b(3) [of j t] Some jt assms(2)
      by (simp add: tick_commit_def set_state_def set_current_def set_task_def set_proc_def)
    then show ?thesis using b(1) Some jt f by (simp add: tick_pick_def)
  qed
qed


text \<open>What a tick does to the kernel: the choice becomes the core's task, the rest of the list stays.\<close>

definition tick_post :: "nat \<Rightarrow> (nat \<Rightarrow> bool) \<Rightarrow> TaskProcState \<Rightarrow> kernel \<Rightarrow> kernel \<Rightarrow> bool" where
  "tick_post c busy ps k k' \<longleftrightarrow>
     k_clock k' = k_clock k + 1 \<and> k_tasks k' = k_tasks k \<and>
     map_option current_task (k_procs k' c) = Some (sched_choice c busy k) \<and>
     (\<forall>d. d \<noteq> c \<longrightarrow> k_procs k' d = k_procs k d) \<and>
     (\<forall>t. sched_choice c busy k = Some t \<longrightarrow> running k' t) \<and>
     (\<forall>t. current_on k c t \<longrightarrow> map_option procstate (k_store k' t) = Some ps \<and>
        (sched_choice c busy k \<noteq> Some t \<longrightarrow> pending k' t)) \<and>
     (\<forall>t. \<not> current_on k c t \<and> sched_choice c busy k \<noteq> Some t \<longrightarrow> k_store k' t = k_store k t)"

lemma tick_unfold:
  assumes "k_procs k c = Some pinfo" "k_tasks k \<noteq> []" "k_clock k + 1 < 2 ^ 64"
  shows "tick X c True busy ps k = Option.bind (tick_save c ps (set_proc c (pinfo\<lparr>tick_miss := 0\<rparr>) k))
    (\<lambda>(clock, k). Option.bind (tick_init X c k) (\<lambda>k. Option.bind (tick_release c k)
      (\<lambda>k. if has_task c k then Some k else tick_pick c busy clock k)))"
  by (simp add: tick_def assms(1) Let_def)

lemma tick_ok_idle:
  assumes ok: "tasks_ok k" and p: "k_procs k c = Some pinfo" and ne: "k_tasks k \<noteq> []"
    and clock: "k_clock k + 1 < 2 ^ 64" and cur: "current_task pinfo = None"
  shows "\<exists>k'. tick X c True busy ps k = Some k' \<and> tick_post c busy ps k k'"
proof -
  define k1 where "k1 = (set_proc c (pinfo\<lparr>tick_miss := 0\<rparr>) k)\<lparr>k_clock := k_clock k + 1\<rparr>"
  have s1: "tick_save c ps (set_proc c (pinfo\<lparr>tick_miss := 0\<rparr>) k) = Some (k_clock k, k1)"
    using clock cur by (simp add: tick_save_def k1_def set_proc_def Let_def)
  have f1: "k_tasks k1 = k_tasks k" "k_store k1 = k_store k" "k_procs k1 c = Some (pinfo\<lparr>tick_miss := 0\<rparr>)"
    "k_clock k1 = k_clock k + 1" "\<And>d. d \<noteq> c \<Longrightarrow> k_procs k1 d = k_procs k d"
    by (simp_all add: k1_def set_proc_def)
  have ok1: "tasks_ok k1" using ok p by (simp add: tasks_ok_def k1_def set_proc_def)
  have pend: "is_pending k1 = is_pending k" by (simp add: fun_eq_iff is_pending_def f1)
  have ch: "sched_choice c busy k = List.find (\<lambda>t. \<not> busy t \<and> is_pending k1 t) (k_tasks k1)"
    by (simp add: sched_choice_def p cur pend f1)
  obtain k' where k': "tick_pick c busy (k_clock k) k1 = Some k'" "k' = (case sched_choice c busy k of
      None \<Rightarrow> k1 | Some t \<Rightarrow> set_current c (Some t) (set_state t (Running (k_clock k)) k1))"
    using tick_pick_ok [OF ok1 f1(3), of busy "k_clock k"] unfolding ch by blast
  have "tick X c True busy ps k = Some k'"
    unfolding tick_unfold [OF p ne clock] s1 using k'(1) cur ne
    by (simp add: tick_init_def tick_release_def has_task_def f1)
  moreover have "tick_post c busy ps k k'"
  proof (cases "sched_choice c busy k")
    case None
    then show ?thesis using k'(2) cur p by (simp add: tick_post_def f1 current_on_def)
  next
    case (Some t)
    then have "is_pending k1 t" unfolding ch by (auto simp: find_Some_iff)
    then obtain task where "k_store k t = Some task" by (auto simp: is_pending_def f1)
    then show ?thesis using k'(2) cur p Some
      by (auto simp: tick_post_def f1 current_on_def set_current_def set_state_def set_task_def set_proc_def running_def)
  qed
  ultimately show ?thesis by blast
qed

lemma tick_ok_busy:
  assumes ok: "tasks_ok k" and p: "k_procs k c = Some pinfo" and ne: "k_tasks k \<noteq> []"
    and clock: "k_clock k + 1 < 2 ^ 64" and life: "10 * k_numcores k < 2 ^ 64"
    and cur: "current_task pinfo = Some t" "k_store k t = Some task" "state task = Running since" "since \<le> k_clock k"
  shows "\<exists>k'. tick X c True busy ps k = Some k' \<and> tick_post c busy ps k k'"
proof -
  define k1 where "k1 = (set_task t (task\<lparr>procstate := ps\<rparr>) (set_proc c (pinfo\<lparr>tick_miss := 0\<rparr>) k))\<lparr>k_clock := k_clock k + 1\<rparr>"
  have s1: "tick_save c ps (set_proc c (pinfo\<lparr>tick_miss := 0\<rparr>) k) = Some (k_clock k, k1)"
    using clock cur by (simp add: tick_save_def k1_def set_proc_def set_task_def Let_def)
  have f1: "k_tasks k1 = k_tasks k" "k_store k1 = (k_store k)(t \<mapsto> task\<lparr>procstate := ps\<rparr>)" "k_procs k1 c = Some (pinfo\<lparr>tick_miss := 0\<rparr>)"
    "k_clock k1 = k_clock k + 1" "k_numcores k1 = k_numcores k" "\<And>d. d \<noteq> c \<Longrightarrow> k_procs k1 d = k_procs k d"
    by (simp_all add: k1_def set_proc_def set_task_def)
  have ok1: "tasks_ok k1" using ok p cur(2) by (auto simp: tasks_ok_def k1_def set_proc_def set_task_def)
  have pr: "priority task = 0" using ok cur(2) by (simp add: tasks_ok_def)
  have ex: "expired k t \<longleftrightarrow> 10 * k_numcores k \<le> k_clock k + 1 - since" by (simp add: expired_def cur)
  have con: "current_on k c u \<longleftrightarrow> u = t" for u using p cur(1) by (auto simp: current_on_def)
  have rel: "tick_release c k1 = Some (if expired k t then set_state t Pending (set_current c None k1) else k1)"
    using cur life by (simp add: tick_release_def f1 ex sub64_def life_expectancy_def add64_def mul64_def pr
        set_state_def set_current_def set_task_def set_proc_def)
  show ?thesis
  proof (cases "expired k t")
    case False
    then have "tick X c True busy ps k = Some k1"
      unfolding tick_unfold [OF p ne clock] s1 using ne cur rel by (simp add: tick_init_def has_task_def f1)
    moreover have "sched_choice c busy k = Some t" using False by (simp add: sched_choice_def p cur)
    then have "tick_post c busy ps k k1" using cur by (simp add: tick_post_def f1 con running_def)
    ultimately show ?thesis by blast
  next
    case True
    define k2 where "k2 = set_state t Pending (set_current c None k1)"
    have f2: "k_tasks k2 = k_tasks k" "k_store k2 = (k_store k)(t \<mapsto> task\<lparr>procstate := ps, state := Pending\<rparr>)"
      "k_procs k2 c = Some (pinfo\<lparr>tick_miss := 0, current_task := None\<rparr>)"
      "k_clock k2 = k_clock k + 1" "\<And>d. d \<noteq> c \<Longrightarrow> k_procs k2 d = k_procs k d"
      using f1(6) by (simp_all add: k2_def f1 set_state_def set_current_def set_task_def set_proc_def)
    have ok2: "tasks_ok k2" using ok1 by (simp add: k2_def)
    have pend: "is_pending k2 u \<longleftrightarrow> u = t \<or> is_pending k u" for u by (simp add: is_pending_def f2)
    have ch: "sched_choice c busy k = List.find (\<lambda>u. \<not> busy u \<and> is_pending k2 u) (k_tasks k2)"
      using True by (simp add: sched_choice_def p cur pend f2)
    obtain k' where k': "tick_pick c busy (k_clock k) k2 = Some k'" "k' = (case sched_choice c busy k of
        None \<Rightarrow> k2 | Some u \<Rightarrow> set_current c (Some u) (set_state u (Running (k_clock k)) k2))"
      using tick_pick_ok [OF ok2 f2(3), of busy "k_clock k"] unfolding ch by blast
    have "tick X c True busy ps k = Some k'"
      unfolding tick_unfold [OF p ne clock] s1 using k'(1) rel True ne
      by (simp add: tick_init_def f1(1) k2_def [symmetric] has_task_def f2)
    moreover have "tick_post c busy ps k k'"
    proof (cases "sched_choice c busy k")
      case None
      then show ?thesis using k'(2) cur p by (simp add: tick_post_def f2 con pending_def)
    next
      case (Some u)
      then have "is_pending k2 u" unfolding ch by (auto simp: find_Some_iff)
      then obtain utask where "k_store k2 u = Some utask" by (auto simp: is_pending_def)
      then show ?thesis using k'(2) Some
        by (auto simp: tick_post_def f2 con set_current_def set_state_def set_task_def set_proc_def running_def pending_def
            split: if_splits)
    qed
    ultimately show ?thesis by blast
  qed
qed



text \<open>Two cores and two tasks that wait.\<close>

definition demo_task :: "nat \<Rightarrow> Task" where
  "demo_task i = \<lparr>task_id = i, priority = 0, procstate = TaskProcState_new (k_gdt demo_kernel 0) 0,
     memory_map = MemoryMap_new, state = Pending\<rparr>"

definition demo_sched :: kernel where
  "demo_sched = demo_kernel\<lparr>k_tasks := [1, 2], k_store := [1 \<mapsto> demo_task 1, 2 \<mapsto> demo_task 2], k_idcount := 2,
     k_clock := 5, k_numcores := 2, k_procs := [0 \<mapsto> demo_pinfo, 1 \<mapsto> demo_pinfo]\<rparr>"

lemma demo_sched_ok: "tasks_ok demo_sched" "k_tasks demo_sched = [1, 2]" "k_clock demo_sched = 5" "k_numcores demo_sched = 2"
  "k_procs demo_sched 0 = Some demo_pinfo" "k_procs demo_sched 1 = Some demo_pinfo"
  by (simp_all add: tasks_ok_def demo_sched_def demo_task_def)



definition demo_sys :: sys where
  "demo_sys = \<lparr>s_kernel = demo_sched, s_pc = (\<lambda>_. Idle)\<rparr>"

lemma demo_tick: "\<exists>k'. tick x86_ref 0 True (\<lambda>_. False) ps demo_sched = Some k' \<and> tick_post 0 (\<lambda>_. False) ps demo_sched k'"
  by (rule tick_ok_idle [OF demo_sched_ok(1,5)]) (simp_all add: demo_sched_ok demo_pinfo_def)


section \<open>One core for a task\<close>

text \<open>The cores are outside the scheduler and the tasks wait.\<close>

definition sched_start :: "sys \<Rightarrow> bool" where
  "sched_start s \<longleftrightarrow> tasks_ok (s_kernel s) \<and> (\<forall>c. s_pc s c = Idle \<and> \<not> has_task c (s_kernel s)) \<and>
     (\<forall>t \<in> set (k_tasks (s_kernel s)). pending (s_kernel s) t)"

lemma sched_start_inv: "sched_start s \<Longrightarrow> sched_inv s"
  by (rule sched_invI) (auto simp: sched_start_def on_core_def has_task_current dest: pending_not_running)

lemma sched_reach_inv: "(sched_step X)\<^sup>*\<^sup>* s s' \<Longrightarrow> sched_inv s \<Longrightarrow> sched_inv s'"
  by (induction rule: rtranclp_induct) (blast intro: sched_step_inv)+

text \<open>
  C2. However the cores interleave their ticks, system calls and exits, a task of the list that
  is marked running belongs to exactly one core, which runs it or is about to remove it; a task
  that waits belongs to none; and no core has a task that is not in the list.
\<close>

theorem sched_exclusive:
  assumes "sched_start s" and "(sched_step X)\<^sup>*\<^sup>* s s'"
  shows "(\<forall>t \<in> set (k_tasks (s_kernel s')). if running (s_kernel s') t then \<exists>!c. on_core s' c t else \<forall>c. \<not> on_core s' c t) \<and>
    (\<forall>c t. on_core s' c t \<longrightarrow> t \<in> set (k_tasks (s_kernel s')))"
proof -
  note D = sched_invD [OF sched_reach_inv [OF assms(2) sched_start_inv [OF assms(1)]]]
  show ?thesis using D(2,3,8) by (auto; blast)
qed

theorem sched_exclusive_witness:
  "\<exists>s'. (sched_step x86_ref)\<^sup>*\<^sup>* demo_sys s' \<and> running (s_kernel s') 1 \<and> (\<exists>!c. on_core s' c 1) \<and> (\<forall>c. \<not> on_core s' c 2)"
proof -
  obtain k' where k': "tick x86_ref 0 True (\<lambda>_. False) (procstate (demo_task 1)) demo_sched = Some k'"
    and post: "tick_post 0 (\<lambda>_. False) (procstate (demo_task 1)) demo_sched k'" using demo_tick by blast
  let ?s = "moves 0 Idle k' demo_sys"
  have start: "sched_start demo_sys"
    by (simp add: sched_start_def demo_sys_def demo_sched_ok(1) has_task_def pending_def)
      (simp add: demo_sched_def demo_pinfo_def demo_task_def)
  have steps: "(sched_step x86_ref)\<^sup>*\<^sup>* demo_sys ?s"
    using k' by (intro tick_steps) (simp_all add: demo_sys_def alone_def)
  have c: "sched_choice 0 (\<lambda>_. False) demo_sched = Some 1"
    by (simp add: sched_choice_def is_pending_def demo_sched_def demo_task_def demo_pinfo_def)
  have "\<not> current_on demo_sched 0 2" by (simp add: current_on_def demo_sched_def demo_pinfo_def)
  then have "k_store k' 2 = Some (demo_task 2)" "k_tasks k' = [1, 2]" and r: "running k' 1"
    using post c demo_sched_ok(2) unfolding tick_post_def by (simp_all add: demo_sched_def)
  then have "\<not> running k' 2" "set (k_tasks k') = {1, 2}" by (simp_all add: running_def demo_task_def)
  with sched_exclusive [OF start steps] r steps show ?thesis by (intro exI [of _ ?s]) simp
qed


section \<open>The timer interrupt\<close>

definition same_io :: "kernel \<Rightarrow> kernel \<Rightarrow> bool" where
  "same_io k k' \<longleftrightarrow> k_lapic k' = k_lapic k \<and> k_fb k' = k_fb k \<and> k_screen k' = k_screen k \<and> k_bspid k' = k_bspid k \<and>
     k_count k' = k_count k"

lemma tick_pick_io:
  assumes "tick_pick c busy clock k = Some k'"
  shows "same_io k k'"
proof -
  from assms obtain best where "(case best of Some b \<Rightarrow> tick_commit c clock b k | None \<Rightarrow> Some k) = Some k'"
    unfolding tick_pick_def bind_Some_iff by blast
  then show ?thesis
    by (cases best) (auto simp: same_io_def tick_commit_def rust_simps set_task_def set_proc_def Let_def)
qed

lemma tick_io:
  assumes "tick X c free busy ps k = Some k'"
  shows "same_io k k'"
proof -
  from assms obtain pinfo where p: "k_procs k c = Some pinfo" unfolding tick_def bind_Some_iff by blast
  show ?thesis
  proof (cases "tick_miss pinfo \<le> MAX_TICK_MISS \<and> \<not> free")
    case True
    then show ?thesis using assms by (auto simp: same_io_def tick_def p tick_miss_step_def rust_simps set_proc_def)
  next
    case False
    from tick_phases [OF assms p False] obtain clock k1 k2 k3 where
      k1: "tick_save c ps (set_proc c (pinfo\<lparr>tick_miss := 0\<rparr>) k) = Some (clock, k1)" and k2: "tick_init X c k1 = Some k2"
      and k3: "tick_release c k2 = Some k3" and k': "(if has_task c k3 then Some k3 else tick_pick c busy clock k3) = Some k'" .
    have "same_io k k1" using k1
      by (cases "current_task pinfo") (auto simp: same_io_def tick_save_def rust_simps set_proc_def set_task_def Let_def)
    moreover have "same_io k1 k2" using tick_init_spawned [OF k2] by (simp add: spawned_def same_io_def)
    moreover have "same_io k2 k3" using tick_release_cases [OF k3]
      by (auto simp: same_io_def set_state_def set_current_def set_task_def set_proc_def split: option.splits)
    moreover have "same_io k3 k'" using k' tick_pick_io by (cases "has_task c k3") (auto simp: same_io_def)
    ultimately show ?thesis by (simp add: same_io_def)
  qed
qed

lemma continue_lapic:
  assumes "continue_current X core True k = Some (r, k')"
  shows "\<exists>pinfo. k_procs k' core = Some pinfo \<and> k_lapic k' core = k_lapic k core @
    (case r of Resume _ \<Rightarrow> [(0x380, word_of_nat (schedule_quantum pinfo)), (0xB0, 0)] | Event_loop \<Rightarrow> [])"
proof -
  from assms obtain pinfo where p: "k_procs k core = Some pinfo" by (auto simp: continue_current_def rust_simps)
  show ?thesis
  proof (cases "current_task pinfo")
    case None
    then show ?thesis using assms p by (auto simp: continue_current_def)
  next
    case (Some t)
    from assms Some obtain task where t: "k_store k t = Some task" by (auto simp: continue_current_def p rust_simps)
    from assms Some obtain pinfo' m where m: "map_apply X (memory_map task) (pinfo, k_mem k) = Some (pinfo', m)"
      by (auto simp: continue_current_def p t rust_simps)
    show ?thesis using assms Some
      by (auto simp: continue_current_def p t m Let_def set_proc_def eoi_def timer_reset_def reg_write_def reg_offsets)
  qed
qed

text \<open>
  C37. What the timer interrupt tells the interrupt controller: the timer is set to its maximum at
  once; when a task goes on, it is set to the core's quantum and the interrupt is acknowledged.
  A core that found no task goes to the event loop without either.
\<close>

theorem timer_acknowledges:
  assumes "timer_inter_2 X core free busy ps k = Some (r, k')"
  shows "\<exists>pinfo. k_procs k' core = Some pinfo \<and> k_lapic k' core = k_lapic k core @ [(0x380, 0xFFFFFFFF)] @
    (case r of Resume _ \<Rightarrow> [(0x380, word_of_nat (schedule_quantum pinfo)), (0xB0, 0)] | Event_loop \<Rightarrow> [])"
proof -
  define k0 where "k0 = k\<lparr>k_lapic := (k_lapic k)(core := timer_reset (2 ^ 64 - 1) (k_lapic k core))\<rparr>"
  from assms obtain k1 where k1: "tick X core free busy ps k0 = Some k1"
    unfolding timer_inter_2_def Let_def k0_def [symmetric] bind_Some_iff by blast
  from assms obtain k2 where k2: "continue_current X core True k2 = Some (r, k')" "k_lapic k2 = k_lapic k1"
    unfolding timer_inter_2_def Let_def k0_def [symmetric] k1
    by (cases "core = k_bspid k1") (auto simp: rust_simps)
  have "k_lapic k2 core = k_lapic k core @ [(0x380, 0xFFFFFFFF)]"
    unfolding k2(2) using tick_io [OF k1] by (simp add: same_io_def k0_def timer_reset_def reg_write_def reg_offsets)
  with continue_lapic [OF k2(1)] show ?thesis by (auto split: outcome.splits)
qed

text \<open>A core that is not the primary one ticks while no task waits.\<close>

definition demo_idle :: kernel where
  "demo_idle = demo_sched\<lparr>k_store := [1 \<mapsto> (demo_task 1)\<lparr>state := Running 5\<rparr>], k_tasks := [1],
     k_procs := [0 \<mapsto> demo_pinfo\<lparr>current_task := Some 1\<rparr>, 1 \<mapsto> demo_pinfo]\<rparr>"

theorem timer_acknowledges_witness:
  "\<exists>k'. timer_inter_2 x86_ref 1 True (\<lambda>_. False) (procstate (demo_task 1)) demo_idle = Some (Event_loop, k') \<and>
     k_lapic k' 1 = [(0x380, 0xFFFFFFFF)]"
proof -
  let ?k = "demo_idle\<lparr>k_lapic := (k_lapic demo_idle)(1 := timer_reset (2 ^ 64 - 1) (k_lapic demo_idle 1))\<rparr>"
  have pre: "tasks_ok ?k" "k_procs ?k 1 = Some demo_pinfo" "k_tasks ?k \<noteq> []" "k_clock ?k + 1 < 2 ^ 64"
    "current_task demo_pinfo = None"
    by (simp_all add: demo_idle_def demo_sched_def tasks_ok_def demo_task_def demo_pinfo_def)
  obtain k1 where k1: "tick x86_ref 1 True (\<lambda>_. False) (procstate (demo_task 1)) ?k = Some k1"
    "tick_post 1 (\<lambda>_. False) (procstate (demo_task 1)) ?k k1"
    using tick_ok_idle [OF pre] by blast
  have "sched_choice 1 (\<lambda>_. False) ?k = None"
    by (simp add: sched_choice_def is_pending_def demo_idle_def demo_task_def demo_pinfo_def)
  then obtain p where p: "k_procs k1 1 = Some p" "current_task p = None" using k1(2) unfolding tick_post_def by auto
  have b: "k_bspid k1 = 0" using tick_io [OF k1(1)] by (simp add: same_io_def demo_idle_def demo_sched_def demo_kernel_def)
  from p b have "timer_inter_2 x86_ref 1 True (\<lambda>_. False) (procstate (demo_task 1)) demo_idle = Some (Event_loop, k1)"
    unfolding timer_inter_2_def Let_def k1(1) by (simp add: continue_current_def)
  moreover from timer_acknowledges [OF this] have "k_lapic k1 1 = [(0x380, 0xFFFFFFFF)]"
    by (auto simp: demo_idle_def demo_sched_def demo_kernel_def)
  ultimately show ?thesis by blast
qed


section \<open>The index of the candidate\<close>

text \<open>
  When a later task has the higher priority, the search remembers its lock but the index of the
  first candidate. The core then gets the first task while the second is marked running, and its
  next tick panics. Every task has priority 0, so the code as it is never gets there.
\<close>

lemma pick_index_bug:
  assumes "k_tasks k = [a, b]" "a \<noteq> b" "k_store k a = Some ta" "k_store k b = Some tb"
    and "state ta = Pending" "state tb = Pending" "priority ta < priority tb" "k_procs k c = Some pinfo"
  shows "\<exists>k'. tick_pick c (\<lambda>_. False) clock k = Some k' \<and> current_on k' c a \<and> pending k' a \<and> running k' b \<and>
    tick_release c k' = None"
proof -
  have "fold_opt (pick_step (k_store k) (\<lambda>_. False)) (List.enumerate 0 (k_tasks k)) None = Some (Some (0, b))"
    using assms by (simp add: pick_step_def)
  moreover define k' where "k' = set_proc c (pinfo\<lparr>current_task := Some a\<rparr>) (set_task b (tb\<lparr>state := Running clock\<rparr>) k)"
  ultimately have "tick_pick c (\<lambda>_. False) clock k = Some k'"
    using assms by (simp add: tick_pick_def tick_commit_def set_task_def)
  moreover have "current_on k' c a" "pending k' a" "running k' b" "tick_release c k' = None"
    using assms by (simp_all add: k'_def set_proc_def set_task_def current_on_def pending_def running_def tick_release_def)
  ultimately show ?thesis by blast
qed

end
