(* ===== verification/Acpi.thy ===== *)
theory Acpi
  imports Initrd
begin

text \<open>
  The configuration tables of the firmware: \<open>kernel/src/acpi/tables.rs\<close> and \<open>kernel/src/acpi/mod.rs\<close>
  (the tables and the walk over them), \<open>kernel/src/cfgtb.rs\<close> (the handlers by signature) and the one
  handler there is, \<open>cfgtb::acpi_handler\<close> of \<open>kernel/src/proc/apic/mod.rs\<close>, which reads the table of
  interrupt controllers. A table is its address; what is read there is a memory. The physical
  memory that holds the tables is an argument and does not change.
\<close>

section \<open>Tables\<close>

definition size_AcpiHeader :: nat where
  "size_AcpiHeader = 36"

definition size_Madt :: nat where
  "size_Madt = 44"

definition acpi_len :: "memory \<Rightarrow> nat \<Rightarrow> nat" where
  "acpi_len mem a = rd mem 4 (a + 4)"

definition acpi_signature :: "memory \<Rightarrow> nat \<Rightarrow> u8 list" where
  "acpi_signature mem a = bytes mem a 4"

definition verify_checksum :: "memory \<Rightarrow> nat \<Rightarrow> bool" where
  "verify_checksum mem a \<longleftrightarrow> foldl (+) 0 (bytes mem a (acpi_len mem a)) = 0"

definition sig_XSDT :: "u8 list" where
  "sig_XSDT = [88, 83, 68, 84]"

definition sig_APIC :: "u8 list" where
  "sig_APIC = [65, 80, 73, 67]"

definition xsdt_from :: "memory \<Rightarrow> nat \<Rightarrow> nat option" where
  "xsdt_from mem a = do {
     _ \<leftarrow> rassert (verify_checksum mem a);
     _ \<leftarrow> rassert (acpi_signature mem a = sig_XSDT);
     Some a }"

definition xsdt_len :: "memory \<Rightarrow> nat \<Rightarrow> nat option" where
  "xsdt_len mem a = do {
     n \<leftarrow> sub64 (acpi_len mem a) size_AcpiHeader;
     Some (n div 8) }"

definition sslist :: "x86 \<Rightarrow> memory \<Rightarrow> nat \<Rightarrow> nat \<Rightarrow> nat option" where
  "sslist X mem a index = do {
     n \<leftarrow> xsdt_len mem a;
     _ \<leftarrow> rassert (index < n);
     phys_new X (rd mem 8 (a + size_AcpiHeader + 8 * index)) }"

definition madt_from :: "memory \<Rightarrow> nat \<Rightarrow> nat option" where
  "madt_from mem a = do {
     _ \<leftarrow> rassert (verify_checksum mem a);
     _ \<leftarrow> rassert (acpi_signature mem a = sig_APIC);
     Some a }"

section \<open>The table of interrupt controllers\<close>

datatype IoApicRedirectionSource = Irq nat | Bus nat

record MadtEntryLocalApic =
  procid :: u8
  apicid :: u8
  lapic_flags :: nat

record MadtEntryIoApic =
  ioapicid :: u8
  ioapic_adr :: nat
  gsib :: nat

record MadtEntryIoApicInterruptSourceOverride =
  bus_src :: u8
  irq_src :: u8
  gsi :: nat
  iso_flags :: nat

record MadtEntryLocalApicNmi =
  nmi_id :: u8
  nmi_flags :: nat
  nmi_lint :: u8

datatype MadtEntry =
    LocalApic MadtEntryLocalApic
  | IoApic MadtEntryIoApic
  | IoApicInterruptSourceOverride MadtEntryIoApicInterruptSourceOverride
  | LocalApicNmi MadtEntryLocalApicNmi
  | Other u8

text \<open>The values of \<open>MadtType\<close>; a byte that is none of them is not a value of the type at all.\<close>

definition madt_types :: "u8 list" where
  "madt_types = [0, 1, 2, 3, 4, 5, 9]"

definition enabled :: "MadtEntryLocalApic \<Rightarrow> bool" where
  "enabled e \<longleftrightarrow> lapic_flags e \<noteq> 0"

definition iso_source :: "MadtEntryIoApicInterruptSourceOverride \<Rightarrow> IoApicRedirectionSource" where
  "iso_source e = (if bus_src e \<noteq> 0 then Bus (unat (bus_src e)) else Irq (unat (irq_src e)))"

definition iso_destination :: "MadtEntryIoApicInterruptSourceOverride \<Rightarrow> nat" where
  "iso_destination e = gsi e"

text \<open>
  The entry at an address. The structure of a non-maskable interrupt entry has no field for the
  header, so its first field is read where the header is.
\<close>

definition madt_read_entry :: "memory \<Rightarrow> nat \<Rightarrow> MadtEntry option" where
  "madt_read_entry mem a = do {
     _ \<leftarrow> rassert (mem a \<in> set madt_types);
     Some (
       if mem a = 0 then LocalApic \<lparr>procid = mem (a + 2), apicid = mem (a + 3), lapic_flags = rd mem 4 (a + 4)\<rparr>
       else if mem a = 1 then IoApic \<lparr>ioapicid = mem (a + 2), ioapic_adr = rd mem 4 (a + 4), gsib = rd mem 4 (a + 8)\<rparr>
       else if mem a = 2 then IoApicInterruptSourceOverride
         \<lparr>bus_src = mem (a + 2), irq_src = mem (a + 3), gsi = rd mem 4 (a + 4), iso_flags = rd mem 2 (a + 8)\<rparr>
       else if mem a = 4 then LocalApicNmi \<lparr>nmi_id = mem a, nmi_flags = rd mem 2 (a + 1), nmi_lint = mem (a + 3)\<rparr>
       else Other (mem a)) }"

text \<open>\<open>MadtIterator::next\<close>: the entry at the cursor and the new cursor.\<close>

definition madt_next :: "memory \<Rightarrow> nat \<Rightarrow> nat \<Rightarrow> (MadtEntry \<times> nat) option option" where
  "madt_next mem madt cursor =
     (if acpi_len mem madt \<le> cursor then Some None
      else do {
        cursor' \<leftarrow> add64 cursor (unat (mem (madt + cursor + 1)));
        e \<leftarrow> madt_read_entry mem (madt + cursor);
        Some (Some (e, cursor')) })"

text \<open>A loop over the entries; on an entry of length zero it does not end.\<close>

partial_function (option) for_madt :: "memory \<Rightarrow> nat \<Rightarrow> (MadtEntry \<Rightarrow> 's \<Rightarrow> 's option) \<Rightarrow> nat \<Rightarrow> 's \<Rightarrow> 's option" where
  "for_madt mem madt body cursor s =
     Option.bind (madt_next mem madt cursor) (\<lambda>r. case r of
       None \<Rightarrow> Some s
     | Some (e, cursor') \<Rightarrow> Option.bind (body e s) (for_madt mem madt body cursor'))"

section \<open>What the kernel keeps of it\<close>

datatype LocalApicNmiConfig =
    NmiAll nat nat
  | NmiSpecific nat nat nat

definition nmi_config_from :: "MadtEntryLocalApicNmi \<Rightarrow> LocalApicNmiConfig" where
  "nmi_config_from e = (if nmi_id e = 0xFF then NmiAll (unat (nmi_lint e)) (nmi_flags e)
     else NmiSpecific (unat (nmi_id e)) (unat (nmi_lint e)) (nmi_flags e))"

record IoApicInfo =
  ioapic_regmap :: nat
  ioapic_id :: nat
  ioapic_irq_base :: nat
  ioapic_len :: nat

text \<open>
  The statics of the module; a \<open>Once\<close> that was not called is \<^const>\<open>None\<close>. \<open>a_mem\<close> is the machine the
  registers are mapped in.
\<close>

record apic =
  a_mem :: machine
  NUMCORES :: nat
  APIC_CONFIG :: "LocalApicNmiConfig list option"
  IOAPIC :: "IoApicInfo list option"
  IOAPIC_REDIRECTION :: "(IoApicRedirectionSource \<rightharpoonup> nat) option"

definition VBASE :: nat where
  "VBASE = KVMSPACE + 1024 * 1024 * 1024 * 1024 + 513 * 1024 * 1024 * 1024"

text \<open>
  The registers of an I/O APIC: writing a register's number to \<open>regsel\<close> and reading \<open>regwin\<close> yields
  what the device at that physical address has there, the function \<open>dev\<close>.
\<close>

definition maxredent :: "(nat \<Rightarrow> u32 \<Rightarrow> u32) \<Rightarrow> nat \<Rightarrow> nat" where
  "maxredent dev adr = unat (drop_bit 16 (dev adr 1) AND 0xFF)"

definition IoApicInfo_new :: "x86 \<Rightarrow> (nat \<Rightarrow> u32 \<Rightarrow> u32) \<Rightarrow> MadtEntryIoApic \<Rightarrow> nat \<Rightarrow> machine \<Rightarrow> (IoApicInfo \<times> machine) option" where
  "IoApicInfo_new X dev entry vadr m = do {
     padr \<leftarrow> phys_new X (ioapic_adr entry);
     frame \<leftarrow> frame_from_start X padr;
     r \<leftarrow> vmap X vadr frame PAGE_SIZE {} m;
     m \<leftarrow> unwrap_ok r;
     len \<leftarrow> add64 (maxredent dev frame) 1;
     Some (\<lparr>ioapic_regmap = vadr, ioapic_id = unat (ioapicid entry), ioapic_irq_base = gsib entry, ioapic_len = len\<rparr>, m) }"

definition once :: "'a \<Rightarrow> 'a option \<Rightarrow> 'a" where
  "once v x = (case x of Some y \<Rightarrow> y | None \<Rightarrow> v)"

definition register_apic_config :: "MadtEntryLocalApicNmi \<Rightarrow> apic \<Rightarrow> apic option" where
  "register_apic_config config a =
     Some (a\<lparr>APIC_CONFIG := Some (once [] (APIC_CONFIG a) @ [nmi_config_from config])\<rparr>)"

definition register_ioapic :: "x86 \<Rightarrow> (nat \<Rightarrow> u32 \<Rightarrow> u32) \<Rightarrow> MadtEntryIoApic \<Rightarrow> apic \<Rightarrow> apic option" where
  "register_ioapic X dev ioapic a = do {
     let l = once [] (IOAPIC a);
     vadr \<leftarrow> page_add X VBASE (length l);
     (info, m) \<leftarrow> IoApicInfo_new X dev ioapic vadr (a_mem a);
     Some (a\<lparr>a_mem := m, IOAPIC := Some (l @ [info])\<rparr>) }"

definition register_ioapic_redirection :: "MadtEntryIoApicInterruptSourceOverride \<Rightarrow> apic \<Rightarrow> apic option" where
  "register_ioapic_redirection ovr a =
     Some (a\<lparr>IOAPIC_REDIRECTION := Some ((once Map.empty (IOAPIC_REDIRECTION a))(iso_source ovr \<mapsto> iso_destination ovr))\<rparr>)"

definition handle_entry :: "x86 \<Rightarrow> (nat \<Rightarrow> u32 \<Rightarrow> u32) \<Rightarrow> MadtEntry \<Rightarrow> apic \<Rightarrow> apic option" where
  "handle_entry X dev e a = (case e of
       LocalApic lapic \<Rightarrow> do {
         n \<leftarrow> add64 (NUMCORES a) 1;
         Some (a\<lparr>NUMCORES := n\<rparr>) }
     | IoApic ioapic \<Rightarrow> register_ioapic X dev ioapic a
     | IoApicInterruptSourceOverride ovr \<Rightarrow> register_ioapic_redirection ovr a
     | LocalApicNmi config \<Rightarrow> register_apic_config config a
     | Other mtype \<Rightarrow> Some a)"

definition acpi_handler :: "x86 \<Rightarrow> (nat \<Rightarrow> u32 \<Rightarrow> u32) \<Rightarrow> memory \<Rightarrow> nat \<Rightarrow> apic \<Rightarrow> apic option" where
  "acpi_handler X dev mem table a = do {
     madt \<leftarrow> madt_from mem table;
     for_madt mem madt (handle_entry X dev) size_Madt a }"

section \<open>Handlers\<close>

datatype Handler = apic_cfgtb_acpi_handler

type_synonym handlers = "u8 list \<rightharpoonup> Handler list"

definition handlers_register :: "u8 list \<Rightarrow> Handler \<Rightarrow> handlers option \<Rightarrow> handlers option option" where
  "handlers_register signature h H = do {
     hs \<leftarrow> H;
     let l = (case hs signature of None \<Rightarrow> [] | Some l \<Rightarrow> l);
     Some (Some (hs(signature \<mapsto> l @ [h]))) }"

definition cfgtb_init :: "handlers option \<Rightarrow> handlers option option" where
  "cfgtb_init H = handlers_register sig_APIC apic_cfgtb_acpi_handler (Some (once Map.empty H))"

fun run_handler :: "x86 \<Rightarrow> (nat \<Rightarrow> u32 \<Rightarrow> u32) \<Rightarrow> memory \<Rightarrow> nat \<Rightarrow> Handler \<Rightarrow> apic \<Rightarrow> apic option" where
  "run_handler X dev mem table apic_cfgtb_acpi_handler a = acpi_handler X dev mem table a"

definition handlers_call :: "x86 \<Rightarrow> (nat \<Rightarrow> u32 \<Rightarrow> u32) \<Rightarrow> memory \<Rightarrow> handlers option \<Rightarrow> u8 list \<Rightarrow> nat \<Rightarrow> apic \<Rightarrow> (bool \<times> apic) option" where
  "handlers_call X dev mem H signature table a = do {
     hs \<leftarrow> H;
     case hs signature of
       Some l \<Rightarrow> do {
         a \<leftarrow> fold_opt (run_handler X dev mem table) l a;
         Some (l \<noteq> [], a) }
     | None \<Rightarrow> Some (False, a) }"

section \<open>The walk\<close>

definition TABLE_VBASE :: nat where
  "TABLE_VBASE = KVMSPACE + 1024 * 1024 * 1024 * 1024 + 768 * 1024 * 1024 * 1024"

record walk =
  w_apic :: apic
  w_vmemmap :: "nat \<rightharpoonup> nat"
  w_pgindex :: nat

definition map_table :: "x86 \<Rightarrow> memory \<Rightarrow> nat \<Rightarrow> walk \<Rightarrow> (nat \<times> walk) option" where
  "map_table X pm padr w = do {
     let frame = frame_containing X padr;
     page \<leftarrow> page_add X TABLE_VBASE (w_pgindex w);
     r \<leftarrow> vmap X page frame PAGE_SIZE {} (a_mem (w_apic w));
     m \<leftarrow> unwrap_ok r;
     table \<leftarrow> virt_add X page (padr mod PAGE_SIZE);
     aligned_size \<leftarrow> align_up X (acpi_len (vread X m pm) table) PAGE_SIZE;
     pgindex \<leftarrow> add64 (w_pgindex w) 1;
     (pgindex, m) \<leftarrow> (if PAGE_SIZE < aligned_size then do {
         let rest = aligned_size - PAGE_SIZE;
         page1 \<leftarrow> page_add X page 1;
         frame1 \<leftarrow> frame_add X frame 1;
         r \<leftarrow> vmap X page1 frame1 rest {} m;
         m \<leftarrow> unwrap_ok r;
         pgindex \<leftarrow> add64 pgindex (rest div PAGE_SIZE);
         Some (pgindex, m) }
       else Some (pgindex, m));
     Some (table, w\<lparr>w_apic := (w_apic w)\<lparr>a_mem := m\<rparr>, w_vmemmap := (w_vmemmap w)(frame \<mapsto> page), w_pgindex := pgindex\<rparr>) }"

definition getvadr :: "x86 \<Rightarrow> memory \<Rightarrow> nat \<Rightarrow> walk \<Rightarrow> (nat \<times> walk) option" where
  "getvadr X pm padr w = do {
     let frame = frame_containing X padr;
     let modulo = padr mod PAGE_SIZE;
     case w_vmemmap w frame of
       Some page \<Rightarrow> do {
         table \<leftarrow> virt_add X page modulo;
         Some (table, w) }
     | None \<Rightarrow> map_table X pm padr w }"

text \<open>
  The recursion has no bound in the code: a table that lists itself is walked for ever. The
  first argument is the depth that is still allowed.
\<close>

fun walk_recursive :: "nat \<Rightarrow> x86 \<Rightarrow> (nat \<Rightarrow> u32 \<Rightarrow> u32) \<Rightarrow> memory \<Rightarrow> handlers option \<Rightarrow> nat \<Rightarrow> walk \<Rightarrow> walk option" where
  "walk_recursive 0 X dev pm H head w = None"
| "walk_recursive (Suc n) X dev pm H head w =
     (let mem = vread X (a_mem (w_apic w)) pm in
      if \<not> verify_checksum mem head then Some w
      else if acpi_signature mem head = sig_XSDT then do {
        xsdt \<leftarrow> xsdt_from mem head;
        len \<leftarrow> xsdt_len mem xsdt;
        fold_opt (\<lambda>i w. do {
          padr \<leftarrow> sslist X (vread X (a_mem (w_apic w)) pm) xsdt i;
          (next_table, w) \<leftarrow> getvadr X pm padr w;
          walk_recursive n X dev pm H next_table w }) [0..<len] w }
      else do {
        (called, a) \<leftarrow> handlers_call X dev mem H (acpi_signature mem head) head (w_apic w);
        Some (w\<lparr>w_apic := a\<rparr>) })"

definition acpi_init :: "nat \<Rightarrow> x86 \<Rightarrow> (nat \<Rightarrow> u32 \<Rightarrow> u32) \<Rightarrow> memory \<Rightarrow> handlers option \<Rightarrow> BootBoot \<Rightarrow> apic \<Rightarrow> apic option" where
  "acpi_init n X dev pm H bb a = do {
     padr \<leftarrow> phys_new X (bb_acpi_ptr bb);
     (xsdt, w) \<leftarrow> getvadr X pm padr \<lparr>w_apic = a, w_vmemmap = Map.empty, w_pgindex = 0\<rparr>;
     w \<leftarrow> walk_recursive n X dev pm H xsdt w;
     Some (w_apic w) }"

section \<open>Finding a table\<close>

context x86_crate
begin

text \<open>
  A table that does not cross the end of its page is mapped where the walk looks for it: what is
  read at the address \<open>map_table\<close> returns is the table.
\<close>

lemma map_table_reads:
  assumes pre: "map_pre X page (round_down padr 4096) 1 {} (a_mem (w_apic w))"
    and page: "page = TABLE_VBASE + w_pgindex w * 4096" and padr: "padr < 2 ^ 52"
    and len: "8 \<le> acpi_len pm padr" "padr mod 4096 + acpi_len pm padr \<le> 4096" and small: "w_pgindex w < 2 ^ 24"
  shows "\<exists>w'. map_table X pm padr w = Some (page + padr mod 4096, w') \<and> w_pgindex w' = w_pgindex w + 1 \<and>
    w_vmemmap w' = (w_vmemmap w)(round_down padr 4096 \<mapsto> page) \<and>
    (\<forall>i<acpi_len pm padr. vread X (a_mem (w_apic w')) pm (page + padr mod 4096 + i) = pm (padr + i))"
proof -
  have al: "page_aligned page" using pre by (simp add: map_pre_def range_ok_def)
  have can: "canonical page" "canonical (page + padr mod 4096)"
    using small mod_less_divisor [of 4096 padr] by (auto simp: page canonical_def TABLE_VBASE_def KVMSPACE_def)
  have off: "padr = round_down padr 4096 + padr mod 4096" by (simp add: round_down_def)
  obtain m' where m': "vmap X page (round_down padr 4096) 4096 {} (a_mem (w_apic w)) = Some (Inr (), m')"
    "map_post X page (round_down padr 4096) 1 {} (a_mem (w_apic w)) m'"
    using vmap_page_ok [OF pre] by blast
  have "\<forall>i<1. pte_frame X (pagemap X m' (page + i * 4096)) = Some (round_down padr 4096 + i * 4096)"
    using m'(2) by (simp add: map_post_def)
  from vread_mapped [OF this al, of _ pm] have r: "vread X m' pm (page + j) = pm (round_down padr 4096 + j)" if "j < 4096" for j
    using that by simp
  have rt: "vread X m' pm (page + padr mod 4096 + i) = pm (padr + i)" if "padr mod 4096 + i < 4096" for i
  proof -
    have "page + padr mod 4096 + i = page + (padr mod 4096 + i)" "round_down padr 4096 + (padr mod 4096 + i) = padr + i"
      using off by linarith+
    then show ?thesis using r [OF that] by (simp only:)
  qed
  have "bytes (vread X m' pm) (page + padr mod 4096 + 4) 4 = bytes pm (padr + 4) 4"
    unfolding bytes_eq_nth using rt len by (simp add: add.assoc)
  then have l: "acpi_len (vread X m' pm) (page + padr mod 4096) = acpi_len pm padr"
    by (simp add: acpi_len_def rd_def)
  have "0 < acpi_len pm padr" "acpi_len pm padr \<le> 4096" using len by linarith+
  then have "round_up (acpi_len pm padr) 4096 = 4096"
  proof -
    assume "0 < acpi_len pm padr" "acpi_len pm padr \<le> 4096"
    then have "4096 \<le> acpi_len pm padr + 4095" "acpi_len pm padr + 4095 < 2 * 4096" by linarith+
    then have "(acpi_len pm padr + 4095) div 4096 = 1" by (intro div_nat_eqI) simp_all
    then show ?thesis by (simp add: round_up_def)
  qed
  then have au: "align_up X (acpi_len pm padr) 4096 = Some 4096"
    using align_up_eq [of 12 "acpi_len pm padr"] by simp
  have "add64 (w_pgindex w) 1 = Some (w_pgindex w + 1)" using small by (simp add: add64_def)
  then have "map_table X pm padr w = Some (page + padr mod 4096,
      w\<lparr>w_apic := (w_apic w)\<lparr>a_mem := m'\<rparr>, w_vmemmap := (w_vmemmap w)(round_down padr 4096 \<mapsto> page), w_pgindex := w_pgindex w + 1\<rparr>)"
    using can m'(1) au l by (simp add: map_table_def frame_containing_eq page_add_eq virt_add_eq page unwrap_ok_def)
  then show ?thesis using rt len(2) by simp
qed

end

section \<open>Reading a table that is laid out\<close>

text \<open>
  An entry as the firmware lays it out: type, length, the fields, and whatever the entry has
  beyond them. In a non-maskable interrupt entry \<open>nmi_id\<close> is the processor's number.
\<close>

fun madt_fields :: "MadtEntry \<Rightarrow> u8 list" where
  "madt_fields (LocalApic e) = [procid e, apicid e] @ to_le 4 (lapic_flags e)"
| "madt_fields (IoApic e) = [ioapicid e, 0] @ to_le 4 (ioapic_adr e) @ to_le 4 (gsib e)"
| "madt_fields (IoApicInterruptSourceOverride e) = [bus_src e, irq_src e] @ to_le 4 (gsi e) @ to_le 2 (iso_flags e)"
| "madt_fields (LocalApicNmi e) = [nmi_id e] @ to_le 2 (nmi_flags e) @ [nmi_lint e]"
| "madt_fields (Other t) = []"

fun madt_type :: "MadtEntry \<Rightarrow> u8" where
  "madt_type (LocalApic e) = 0"
| "madt_type (IoApic e) = 1"
| "madt_type (IoApicInterruptSourceOverride e) = 2"
| "madt_type (LocalApicNmi e) = 4"
| "madt_type (Other t) = t"

definition madt_size :: "MadtEntry \<times> u8 list \<Rightarrow> nat" where
  "madt_size ep = 2 + length (madt_fields (fst ep)) + length (snd ep)"

definition madt_bytes :: "MadtEntry \<times> u8 list \<Rightarrow> u8 list" where
  "madt_bytes ep = [madt_type (fst ep), word_of_nat (madt_size ep)] @ madt_fields (fst ep) @ snd ep"

fun madt_ok :: "MadtEntry \<times> u8 list \<Rightarrow> bool" where
  "madt_ok (LocalApic e, r) \<longleftrightarrow> lapic_flags e < 2 ^ 32 \<and> madt_size (LocalApic e, r) < 256"
| "madt_ok (IoApic e, r) \<longleftrightarrow> ioapic_adr e < 2 ^ 32 \<and> gsib e < 2 ^ 32 \<and> madt_size (IoApic e, r) < 256"
| "madt_ok (IoApicInterruptSourceOverride e, r) \<longleftrightarrow>
     gsi e < 2 ^ 32 \<and> iso_flags e < 2 ^ 16 \<and> madt_size (IoApicInterruptSourceOverride e, r) < 256"
| "madt_ok (LocalApicNmi e, r) \<longleftrightarrow> nmi_flags e < 2 ^ 16 \<and> madt_size (LocalApicNmi e, r) < 256"
| "madt_ok (Other t, r) \<longleftrightarrow> t \<in> {3, 5, 9} \<and> madt_size (Other t, r) < 256"

text \<open>
  What the kernel reads: the entry, but for a non-maskable interrupt the type as the processor,
  length and processor as the flags, and a byte of the flags as the pin.
\<close>

definition as_read :: "MadtEntry \<times> u8 list \<Rightarrow> MadtEntry" where
  "as_read ep = (case fst ep of
       LocalApicNmi e \<Rightarrow> LocalApicNmi \<lparr>nmi_id = 4, nmi_flags = madt_size ep + 256 * unat (nmi_id e),
         nmi_lint = word_of_nat (nmi_flags e mod 256)\<rparr>
     | e \<Rightarrow> e)"

lemma length_madt_bytes [simp]: "length (madt_bytes ep) = madt_size ep"
  by (simp add: madt_bytes_def madt_size_def)

lemma rd_holds: "holds mem a (to_le k n) \<Longrightarrow> n < 256 ^ k \<Longrightarrow> rd mem k a = n"
  by (rule rd_to_le) (simp_all add: holds_def)

lemma holds_Cons: "holds mem a (x # xs) \<longleftrightarrow> mem a = x \<and> holds mem (a + 1) xs"
  using holds_append [of mem a "[x]" xs] by simp

lemma nat_offsets:
  "a + 2 = Suc (Suc a)" "a + 3 = Suc (Suc (Suc a))" "a + 4 = Suc (Suc (Suc (Suc a)))"
  "a + 8 = Suc (Suc (Suc (Suc (Suc (Suc (Suc (Suc a)))))))" for a :: nat
  by simp_all

lemma to_le_4: "to_le 4 n = [word_of_nat (n mod 256), word_of_nat (n div 256 mod 256), word_of_nat (n div 65536 mod 256),
    word_of_nat (n div 16777216 mod 256)]"
proof -
  have "(4 :: nat) = Suc (Suc (Suc (Suc 0)))" by simp
  then show ?thesis by (simp only: to_le.simps) (simp add: div_mult2_eq [symmetric])
qed

lemma to_le_2: "to_le 2 n = [word_of_nat (n mod 256), word_of_nat (n div 256 mod 256)]"
  by (simp add: numeral_2_eq_2)

lemma read_entry_laid_out:
  assumes "holds mem a (madt_bytes ep)" "madt_ok ep"
  shows "madt_read_entry mem a = Some (as_read ep)" "unat (mem (a + 1)) = madt_size ep"
proof -
  obtain e r where ep: "ep = (e, r)" by (cases ep)
  have h: "mem a = madt_type e" "mem (a + 1) = word_of_nat (madt_size ep)" "holds mem (a + 2) (madt_fields e)"
    using assms(1) by (simp_all add: madt_bytes_def ep holds_Cons holds_append add.assoc)
  have s: "madt_size ep < 256" using assms(2) by (cases e) (simp_all add: ep)
  then show l: "unat (mem (a + 1)) = madt_size ep" unfolding h(2) by (simp add: unsigned_of_nat take_bit_eq_mod)
  show "madt_read_entry mem a = Some (as_read ep)"
  proof (cases e)
    case (LocalApic x)
    then have "mem (a + 2) = procid x" "mem (a + 3) = apicid x" "holds mem (a + 4) (to_le 4 (lapic_flags x))"
      using h(3) by (simp_all add: holds_Cons nat_offsets)
    then show ?thesis using assms(2) h(1) LocalApic by (simp add: madt_read_entry_def madt_types_def as_read_def ep rd_holds)
  next
    case (IoApic x)
    then have "mem (a + 2) = ioapicid x" "holds mem (a + 4) (to_le 4 (ioapic_adr x))" "holds mem (a + 8) (to_le 4 (gsib x))"
      using h(3) by (simp_all add: holds_Cons holds_append nat_offsets)
    then show ?thesis using assms(2) h(1) IoApic by (simp add: madt_read_entry_def madt_types_def as_read_def ep rd_holds)
  next
    case (IoApicInterruptSourceOverride x)
    then have "mem (a + 2) = bus_src x" "mem (a + 3) = irq_src x" "holds mem (a + 4) (to_le 4 (gsi x))"
      "holds mem (a + 8) (to_le 2 (iso_flags x))"
      using h(3) by (simp_all add: holds_Cons holds_append nat_offsets)
    then show ?thesis using assms(2) h(1) IoApicInterruptSourceOverride
      by (simp add: madt_read_entry_def madt_types_def as_read_def ep rd_holds)
  next
    case (LocalApicNmi x)
    then have f: "mem (a + 2) = nmi_id x" "mem (a + 3) = word_of_nat (nmi_flags x mod 256)"
      using h(3) by (simp_all add: holds_Cons numeral_2_eq_2 nat_offsets)
    have "rd mem 2 (a + 1) = madt_size ep + 256 * unat (nmi_id x)"
      using l f(1) by (simp add: rd_def bytes_def numeral_2_eq_2)
    then show ?thesis using h(1) f LocalApicNmi by (simp add: madt_read_entry_def madt_types_def as_read_def ep)
  next
    case (Other t)
    then show ?thesis using assms(2) h(1) by (auto simp: madt_read_entry_def madt_types_def as_read_def ep)
  qed
qed

lemma for_madt_entries:
  assumes "holds mem (madt + cursor) (concat (map madt_bytes eps))" "list_all madt_ok eps"
    and "acpi_len mem madt = cursor + length (concat (map madt_bytes eps))"
  shows "for_madt mem madt body cursor s = fold_opt body (map as_read eps) s"
  using assms
proof (induction eps arbitrary: cursor s)
  case Nil
  then show ?case by (subst for_madt.simps) (simp add: madt_next_def)
next
  case (Cons ep eps)
  have h: "holds mem (madt + cursor) (madt_bytes ep)" "holds mem (madt + (cursor + madt_size ep)) (concat (map madt_bytes eps))"
    using Cons.prems(1) by (simp_all add: holds_append add.assoc)
  have ok: "madt_ok ep" "list_all madt_ok eps" using Cons.prems(2) by simp_all
  note e = read_entry_laid_out [OF h(1) ok(1)]
  have pos: "0 < madt_size ep" by (simp add: madt_size_def)
  have "acpi_len mem madt < 256 ^ 4" unfolding acpi_len_def rd_def using le_nat_less [of "bytes mem (madt + 4) 4"] by simp
  then have "cursor + madt_size ep < 2 ^ 64" using Cons.prems(3) by simp
  then have n: "madt_next mem madt cursor = Some (Some (as_read ep, cursor + madt_size ep))"
    using Cons.prems(3) e pos by (simp add: madt_next_def add64_def)
  have "for_madt mem madt body (cursor + madt_size ep) s' = fold_opt body (map as_read eps) s'" for s'
    using Cons.prems(3) by (intro Cons.IH [OF h(2) ok(2)]) simp
  then have "for_madt mem madt body (cursor + madt_size ep) = fold_opt body (map as_read eps)" by (rule ext)
  then show ?case by (subst for_madt.simps) (simp add: n)
qed


section \<open>What is registered\<close>

fun lapic_count :: "MadtEntry list \<Rightarrow> nat" where
  "lapic_count [] = 0"
| "lapic_count (LocalApic e # es) = Suc (lapic_count es)"
| "lapic_count (_ # es) = lapic_count es"

fun nmi_configs :: "MadtEntry list \<Rightarrow> LocalApicNmiConfig list" where
  "nmi_configs [] = []"
| "nmi_configs (LocalApicNmi e # es) = nmi_config_from e # nmi_configs es"
| "nmi_configs (_ # es) = nmi_configs es"

fun redirections :: "MadtEntry list \<Rightarrow> (IoApicRedirectionSource \<rightharpoonup> nat) \<Rightarrow> (IoApicRedirectionSource \<rightharpoonup> nat)" where
  "redirections [] f = f"
| "redirections (IoApicInterruptSourceOverride e # es) f = redirections es (f(iso_source e \<mapsto> iso_destination e))"
| "redirections (_ # es) f = redirections es f"

lemma once_Some [simp]: "once v (Some x) = x"
  by (simp add: once_def)

lemma register_ioapic_same:
  "register_ioapic X dev e a = Some a' \<Longrightarrow>
     NUMCORES a' = NUMCORES a \<and> APIC_CONFIG a' = APIC_CONFIG a \<and> IOAPIC_REDIRECTION a' = IOAPIC_REDIRECTION a"
  by (auto simp: register_ioapic_def Let_def bind_Some_iff)

lemma handle_entries:
  "fold_opt (handle_entry X dev) es a = Some a' \<Longrightarrow>
     NUMCORES a' = NUMCORES a + lapic_count es \<and>
     once [] (APIC_CONFIG a') = once [] (APIC_CONFIG a) @ nmi_configs es \<and>
     once Map.empty (IOAPIC_REDIRECTION a') = redirections es (once Map.empty (IOAPIC_REDIRECTION a))"
proof (induction es arbitrary: a)
  case (Cons e es)
  then obtain a1 where a1: "handle_entry X dev e a = Some a1" "fold_opt (handle_entry X dev) es a1 = Some a'"
    by (auto simp: bind_Some_iff)
  then show ?case using Cons.IH [OF a1(2)] register_ioapic_same
    by (cases e) (auto simp: handle_entry_def rust_simps register_apic_config_def register_ioapic_redirection_def fun_upd_def)
qed simp

text \<open>
  C33. The handler of the interrupt controller table, on a table whose entries are laid out one
  behind the other: it ends, takes the entries in order, counts one core for each local APIC
  entry and registers the redirections of the interrupt source overrides. A non-maskable
  interrupt entry is registered with the fields that the kernel reads two bytes too early.
\<close>

theorem madt_registers:
  assumes "verify_checksum mem madt" and "acpi_signature mem madt = sig_APIC"
    and "holds mem (madt + size_Madt) (concat (map madt_bytes eps))" and "list_all madt_ok eps"
    and "acpi_len mem madt = size_Madt + length (concat (map madt_bytes eps))"
  shows "acpi_handler X dev mem madt a = fold_opt (handle_entry X dev) (map as_read eps) a \<and>
    (\<forall>a'. acpi_handler X dev mem madt a = Some a' \<longrightarrow>
       NUMCORES a' = NUMCORES a + lapic_count (map fst eps) \<and>
       once [] (APIC_CONFIG a') = once [] (APIC_CONFIG a) @ nmi_configs (map as_read eps) \<and>
       once Map.empty (IOAPIC_REDIRECTION a') = redirections (map fst eps) (once Map.empty (IOAPIC_REDIRECTION a)))"
proof -
  have e: "acpi_handler X dev mem madt a = fold_opt (handle_entry X dev) (map as_read eps) a"
    using assms(1,2) for_madt_entries [OF assms(3-5)] by (simp add: acpi_handler_def madt_from_def)
  have "lapic_count (map as_read eps) = lapic_count (map fst eps)"
  proof (induction eps)
    case (Cons ep eps)
    then show ?case by (cases "fst ep") (simp_all add: as_read_def)
  qed simp
  moreover have "redirections (map as_read eps) f = redirections (map fst eps) f" for f
  proof (induction eps arbitrary: f)
    case (Cons ep eps)
    then show ?case by (cases "fst ep") (simp_all add: as_read_def fun_upd_def)
  qed simp
  ultimately show ?thesis using e handle_entries [of X dev "map as_read eps" a] by simp
qed

text \<open>A table with one core and a non-maskable interrupt on pin 1 of all cores.\<close>

definition demo_madt_bytes :: "u8 list" where
  "demo_madt_bytes = (sig_APIC @ to_le 4 58) @ [0, 145] @ replicate 34 0 @
     [0, 8, 0, 0, 1, 0, 0, 0] @ [4, 6, 255, 5, 0, 1]"

definition demo_madt :: memory where
  "demo_madt = (\<lambda>i. if i < 58 then demo_madt_bytes ! i else 0)"

definition demo_entries :: "(MadtEntry \<times> u8 list) list" where
  "demo_entries = [(LocalApic \<lparr>procid = 0, apicid = 0, lapic_flags = 1\<rparr>, []),
     (LocalApicNmi \<lparr>nmi_id = 255, nmi_flags = 5, nmi_lint = 1\<rparr>, [])]"

definition demo_apic :: apic where
  "demo_apic = \<lparr>a_mem = big_machine, NUMCORES = 0, APIC_CONFIG = None, IOAPIC = None, IOAPIC_REDIRECTION = None\<rparr>"

theorem madt_registers_witness:
  "\<exists>a'. acpi_handler x86_ref (\<lambda>_ _. 0) demo_madt 0 demo_apic = Some a' \<and> NUMCORES a' = 1 \<and>
     once [] (APIC_CONFIG a') = [NmiSpecific 4 5 65286]"
proof -
  have b: "bytes demo_madt 0 58 = demo_madt_bytes"
    unfolding bytes_eq_nth by (simp add: demo_madt_def demo_madt_bytes_def sig_APIC_def)
  have h: "holds demo_madt 0 demo_madt_bytes" using b by (simp add: holds_def demo_madt_bytes_def sig_APIC_def)
  have e: "concat (map madt_bytes demo_entries) = [0, 8, 0, 0, 1, 0, 0, 0] @ [4, 6, 255, 5, 0, 1]"
    by (simp add: demo_entries_def madt_bytes_def madt_size_def to_le_4 to_le_2)
  have sig: "acpi_signature demo_madt 0 = sig_APIC" "acpi_len demo_madt 0 = 58"
    "holds demo_madt 44 (concat (map madt_bytes demo_entries))"
  proof -
    define C E :: "u8 list" where "C = [0, 145] @ replicate 34 0" and "E = concat (map madt_bytes demo_entries)"
    have l: "length sig_APIC = 4" "length C = 36" by (simp_all add: sig_APIC_def C_def)
    have d: "demo_madt_bytes = (sig_APIC @ to_le 4 58) @ C @ E" by (simp add: demo_madt_bytes_def C_def E_def e)
    have "holds demo_madt 0 sig_APIC" "holds demo_madt 4 (to_le 4 58)" "holds demo_madt 44 E"
      using h unfolding d by (simp_all add: holds_append l)
    then show "acpi_signature demo_madt 0 = sig_APIC" "acpi_len demo_madt 0 = 58"
      "holds demo_madt 44 (concat (map madt_bytes demo_entries))"
      by (simp_all add: acpi_signature_def acpi_len_def holds_bytes [OF _ l(1) [symmetric]] rd_holds E_def)
  qed
  have "foldl (+) 0 demo_madt_bytes = 0"
  proof -
    have "foldl (+) z (replicate n 0) = z" for z :: u8 and n by (induction n arbitrary: z) simp_all
    then show ?thesis by (simp add: demo_madt_bytes_def sig_APIC_def to_le_4)
  qed
  then have c: "verify_checksum demo_madt 0" by (simp add: verify_checksum_def sig(2) b)
  have ok: "list_all madt_ok demo_entries" by (simp add: demo_entries_def madt_size_def)
  have f: "fold_opt (handle_entry x86_ref (\<lambda>_ _. 0)) (map as_read demo_entries) demo_apic \<noteq> None"
    by (simp add: demo_entries_def as_read_def handle_entry_def register_apic_config_def demo_apic_def add64_def)
  have n: "nmi_configs (map as_read demo_entries) = [NmiSpecific 4 5 65286]" "lapic_count (map fst demo_entries) = 1"
    by (simp_all add: demo_entries_def as_read_def nmi_config_from_def madt_size_def)
  from madt_registers [OF c sig(1) _ ok, of x86_ref "\<lambda>_ _. 0" demo_apic] sig(2,3) e f n show ?thesis
    by (auto simp: size_Madt_def demo_apic_def once_def)
qed

end
