(* ===== verification/Interrupts.thy ===== *)
theory Interrupts
  imports Mem Lapic
begin

text \<open>
  The interrupt descriptor table of \<open>kernel/src/interrupts/mod.rs\<close> and the handlers of
  \<open>kernel/src/interrupts/exceptions\<close>. A handler that panics is \<^const>\<open>None\<close>; the only one that
  returns is the page fault on the kernel heap. \<open>timer_inter_1\<close> is the subject of \<open>Context\<close> and
  \<open>Sched\<close>.
\<close>

section \<open>The table\<close>

definition ERROR_STACK_SIZE :: nat where
  [simp]: "ERROR_STACK_SIZE = 8 * 1024"

datatype Vectors = TestInterrupt | LocalApicError | LocalApicSpurious | LocalApicTimer

fun vector :: "Vectors \<Rightarrow> u8" where
  "vector TestInterrupt = 0x20"
| "vector LocalApicError = 0xFD"
| "vector LocalApicSpurious = 0xFF"
| "vector LocalApicTimer = 0xF0"

datatype irq_handler =
    h_div
  | h_gprot
  | h_page_fault
  | h_stacksegfault
  | h_doublefault
  | h_error
  | h_spurious
  | h_timer_inter_1

record gate =
  gate_handler :: irq_handler
  gate_stack_index :: "nat option"

text \<open>
  A vector whose gate was never set is not present. The named fields of the table are the
  vectors that the processor's manual gives the exceptions.
\<close>

type_synonym idt = "u8 \<rightharpoonup> gate"

definition set_handler :: "u8 \<Rightarrow> irq_handler \<Rightarrow> idt \<Rightarrow> idt" where
  "set_handler v h idt = idt(v \<mapsto> \<lparr>gate_handler = h, gate_stack_index = None\<rparr>)"

definition set_stack_index :: "u8 \<Rightarrow> nat \<Rightarrow> idt \<Rightarrow> idt" where
  "set_stack_index v i idt = idt(v := map_option (\<lambda>g. g\<lparr>gate_stack_index := Some i\<rparr>) (idt v))"

definition interrupts_init :: "idt \<Rightarrow> idt" where
  "interrupts_init idt = (let
     idt = set_handler 0 h_div idt;
     idt = set_handler 13 h_gprot idt;
     idt = set_handler 14 h_page_fault idt;
     idt = set_handler 12 h_stacksegfault idt;
     idt = set_stack_index 8 1 (set_handler 8 h_doublefault idt);
     idt = set_handler (vector LocalApicError) h_error idt;
     idt = set_handler (vector LocalApicSpurious) h_spurious idt
     in set_handler (vector LocalApicTimer) h_timer_inter_1 idt)"

section \<open>Page faults\<close>

text \<open>The flags of an error code, all those the crate knows.\<close>

datatype PageFaultErrorCode =
    PROTECTION_VIOLATION
  | CAUSED_BY_WRITE
  | USER_MODE
  | MALFORMED_TABLE
  | INSTRUCTION_FETCH
  | PROTECTION_KEY
  | SHADOW_STACK
  | SGX
  | RMP

text \<open>
  The words of the message: cause, operation, privilege and additional flags. The complement of
  a flag is the set of all the others, and \<open>contains\<close> asks for all of them.
\<close>

definition fault_cause :: "PageFaultErrorCode set \<Rightarrow> string" where
  "fault_cause ec = (if - {PROTECTION_VIOLATION} \<subseteq> ec then ''unset present flag''
     else if MALFORMED_TABLE \<in> ec then ''malformed table'' else ''page level protection'')"

definition fault_operation :: "PageFaultErrorCode set \<Rightarrow> string" where
  "fault_operation ec = (if INSTRUCTION_FETCH \<in> ec then ''fetch''
     else if CAUSED_BY_WRITE \<in> ec then ''write'' else ''read'')"

definition fault_privilege :: "PageFaultErrorCode set \<Rightarrow> string" where
  "fault_privilege ec = (if USER_MODE \<in> ec then ''user'' else ''kernel'')"

definition fault_flags :: "PageFaultErrorCode set \<Rightarrow> string list" where
  "fault_flags ec = (if PROTECTION_KEY \<in> ec then [''protection-key violation''] else []) @
     (if SHADOW_STACK \<in> ec then [''shadow-stack violation''] else []) @ (if SGX \<in> ec then [''SGX''] else [])"

datatype fault =
    Retry "heap \<times> machine"
  | Invalid_address nat
  | Violation string string string "string list" nat

text \<open>What the handler does with the content of \<open>CR2\<close>: it returns, or it panics with a message.\<close>

definition fault_result :: "x86 \<Rightarrow> PageFaultErrorCode set \<Rightarrow> nat \<Rightarrow> heap \<times> machine \<Rightarrow> fault option" where
  "fault_result X ec cr2 s = (case virt_try_new X cr2 of
       None \<Rightarrow> Some (Invalid_address cr2)
     | Some adr \<Rightarrow> do {
         in_heap \<leftarrow> (if USER_MODE \<notin> ec then is_heap X adr else Some False);
         if in_heap then do {
           s \<leftarrow> expand X adr s;
           Some (Retry s) }
         else Some (Violation (fault_cause ec) (fault_operation ec) (fault_privilege ec) (fault_flags ec) adr) })"

definition page_fault :: "x86 \<Rightarrow> PageFaultErrorCode set \<Rightarrow> nat \<Rightarrow> heap \<times> machine \<Rightarrow> (heap \<times> machine) option" where
  "page_fault X ec cr2 s = do {
     r \<leftarrow> fault_result X ec cr2 s;
     (case r of Retry s \<Rightarrow> Some s | _ \<Rightarrow> None) }"

text \<open>
  One interrupt: the handler of its gate, with the error code the processor pushes. \<^const>\<open>None\<close> is a
  panic or a vector with no gate, which the processor cannot deliver. The two handlers of the local
  APIC have empty bodies: they do not write its end-of-interrupt register.
\<close>

definition exception :: "x86 \<Rightarrow> idt \<Rightarrow> u8 \<Rightarrow> PageFaultErrorCode set \<Rightarrow> nat \<Rightarrow> heap \<times> machine \<Rightarrow> mmio \<Rightarrow>
    ((heap \<times> machine) \<times> mmio) option" where
  "exception X idt v ec cr2 s l = do {
     g \<leftarrow> idt v;
     (case gate_handler g of
        h_page_fault \<Rightarrow> do { s \<leftarrow> page_fault X ec cr2 s; Some (s, l) }
      | h_error \<Rightarrow> Some (s, l)
      | h_spurious \<Rightarrow> Some (s, l)
      | _ \<Rightarrow> None) }"

section \<open>Lemmas\<close>

lemmas idt_defs = interrupts_init_def set_handler_def set_stack_index_def Let_def

text \<open>The gates that are present, and the one that changes its stack.\<close>

lemma interrupts_init_dom: "dom (interrupts_init Map.empty) = {0, 8, 12, 13, 14, 0xF0, 0xFD, 0xFF}"
  by (auto simp: idt_defs)

lemma interrupts_init_stack:
  "interrupts_init Map.empty v = Some g \<Longrightarrow> gate_stack_index g = (if v = 8 then Some 1 else None)"
  by (auto simp: idt_defs split: if_splits)

text \<open>
  The non-maskable interrupt, vector 2, has no gate, although every core is given a stack for it
  and the local APIC is told to deliver it.
\<close>

lemma nmi_not_present: "exception X (interrupts_init Map.empty) 2 ec cr2 s l = None"
  by (simp add: exception_def idt_defs)

lemma error_not_acknowledged:
  "v \<in> {vector LocalApicError, vector LocalApicSpurious} \<Longrightarrow>
   exception X (interrupts_init Map.empty) v ec cr2 s l = Some (s, l)"
  by (auto simp: exception_def idt_defs)

text \<open>
  The message never says that the present flag was unset for a fault the processor can report:
  this would need a fault that is at once a write, a fetch, in user mode and everything else.
\<close>

lemma fault_cause_never_unset:
  "CAUSED_BY_WRITE \<notin> ec \<or> INSTRUCTION_FETCH \<notin> ec \<Longrightarrow> fault_cause ec \<noteq> ''unset present flag''"
  by (auto simp: fault_cause_def)

lemma page_fault_user: "USER_MODE \<in> ec \<Longrightarrow> page_fault X ec cr2 s = None"
  by (simp add: page_fault_def fault_result_def split: option.splits)

context x86_crate
begin

lemma is_heap_eq: "is_heap X adr = Some (HEAP_START \<le> adr \<and> adr < HEAP_START + HEAP_SIZE)"
  by (simp add: is_heap_def crate_eqs canonical_def HEAP_START_def)

lemma heap_canonical: "HEAP_START \<le> adr \<Longrightarrow> adr < HEAP_START + HEAP_SIZE \<Longrightarrow> canonical adr"
  by (simp add: canonical_def HEAP_START_def)

lemma page_fault_eq:
  "page_fault X ec cr2 s =
     (if USER_MODE \<notin> ec \<and> HEAP_START \<le> cr2 \<and> cr2 < HEAP_START + HEAP_SIZE then expand X cr2 s else None)"
proof (cases "canonical cr2")
  case True
  then show ?thesis
    by (cases "expand X cr2 s") (simp_all add: page_fault_def fault_result_def is_heap_eq virt_try_new_eq)
next
  case False
  then show ?thesis using heap_canonical by (auto simp: page_fault_def fault_result_def virt_try_new_eq)
qed

end

end
