(* ===== verification/Apic.thy ===== *)
theory Apic
  imports Sched Acpi Interrupts
begin

text \<open>
  The start of a core's interrupt controller, \<open>init\<close> of \<open>kernel/src/proc/apic/mod.rs\<close>, with the
  calibration of its timer against the old interval timer, \<open>kernel/src/interrupts/pic.rs\<close>. The
  values the devices return are arguments: \<open>reads\<close> are the bytes of the interval timer in the order
  they are read, \<open>t0\<close> and \<open>t1\<close> the counts of the local timer before and after. Writes to ports are
  a list of port and byte.
\<close>

section \<open>The old interrupt controller\<close>

type_synonym ports = "(nat \<times> u8) list"

definition io_wait :: ports where
  "io_wait = [(0x80, 0)]"

definition pic_disable :: ports where
  "pic_disable = [(0x20, 0x11), (0xA0, 0x11)] @ io_wait @ [(0x21, 0x20), (0xA1, 0x28)] @ io_wait @
     [(0x21, 4), (0xA1, 2)] @ io_wait @ [(0x21, 1), (0xA1, 1)] @ io_wait @ [(0x21, 0xFF), (0xA1, 0xFF)] @ io_wait"

section \<open>Measuring ten milliseconds\<close>

definition pit_delay :: nat where
  "pit_delay = 11933"

definition pit_value :: "u8 \<times> u8 \<Rightarrow> nat" where
  "pit_value r = unat ((ucast (fst r) :: u16) OR push_bit 8 (ucast (snd r)))"

text \<open>
  The loop that waits for the interval timer: it may still wait when the readings end, find the
  timer running backwards in a virtual machine, or be done.
\<close>

datatype pit_result = Waiting | Backwards | Elapsed nat

fun pit_loop :: "bool \<Rightarrow> nat \<Rightarrow> (u8 \<times> u8) list \<Rightarrow> ports \<Rightarrow> (pit_result \<times> ports) option" where
  "pit_loop isvm start [] io = Some (Waiting, io)"
| "pit_loop isvm start (r # rs) io = (
     let io = io @ [(0x43, 0)]; now = pit_value r in
     if isvm \<and> start < now then Some (Backwards, io)
     else do {
       d \<leftarrow> sub64 start now;
       if pit_delay \<le> d then Some (Elapsed (d - pit_delay), io)
       else pit_loop isvm start rs io })"

definition dbg :: "nat \<Rightarrow> nat \<Rightarrow> u8 \<times> u8 \<times> u8 \<Rightarrow> kernel \<Rightarrow> kernel option" where
  "dbg x y c k = do {
     (f, screen) \<leftarrow> debug_set_pixel x y (pixel_rgb c) (k_fb k, k_screen k);
     Some (k\<lparr>k_fb := f, k_screen := screen\<rparr>) }"

definition dbg_bin :: "nat \<Rightarrow> nat \<Rightarrow> nat \<Rightarrow> kernel \<Rightarrow> kernel option" where
  "dbg_bin x y val k = do {
     (f, screen) \<leftarrow> debug_printbin x y (word_of_nat val) (k_fb k, k_screen k);
     Some (k\<lparr>k_fb := f, k_screen := screen\<rparr>) }"

text \<open>\<^const>\<open>None\<close> as the result says that the core still waits.\<close>

definition pit_calib_sleep :: "nat \<Rightarrow> bool \<Rightarrow> (u8 \<times> u8) list \<Rightarrow> nat \<Rightarrow> nat \<Rightarrow> kernel \<Rightarrow> ((nat \<times> nat) option \<times> kernel \<times> ports) option" where
  "pit_calib_sleep core isvm reads t0 t1 k = do {
     y \<leftarrow> add64 20 core;
     k \<leftarrow> dbg 40 y (255, 255, 255) k;
     let io = [(0x40, 0xFF), (0x40, 0xFF), (0x43, 0)];
     case reads of
       [] \<Rightarrow> Some (None, k, io)
     | r # rs \<Rightarrow> do {
         let timer_start = t0;
         (w, io) \<leftarrow> pit_loop isvm (pit_value r) rs io;
         case w of
           Waiting \<Rightarrow> Some (None, k, io)
         | Backwards \<Rightarrow> do {
             e \<leftarrow> sub64 timer_start 884248;
             Some (Some (timer_start, e), k, io) }
         | Elapsed error \<Rightarrow> do {
             let timer_end = t1;
             k \<leftarrow> dbg_bin 40 y error k;
             k \<leftarrow> dbg 39 y (255, 255, 0) k;
             Some (Some (timer_start, timer_end), k, io) } } }"

section \<open>Starting the local APIC\<close>

definition APIC_VBASE :: nat where
  "APIC_VBASE = KVMSPACE + 1024 * 1024 * 1024 * 1024 + 512 * 1024 * 1024 * 1024"

definition APIC_BASE :: nat where
  "APIC_BASE = 0xFEE00000"

definition on_lapic :: "nat \<Rightarrow> (mmio \<Rightarrow> mmio) \<Rightarrow> kernel \<Rightarrow> kernel" where
  "on_lapic core f k = k\<lparr>k_lapic := (k_lapic k)(core := f (k_lapic k core))\<rparr>"

definition lint_config :: "nat \<Rightarrow> LocalApicNmiConfig \<Rightarrow> mmio \<Rightarrow> mmio option" where
  "lint_config core cfg l = (case cfg of
       NmiAll lint flags \<Rightarrow> lint_setup lint (word_of_nat flags) l
     | NmiSpecific i lint flags \<Rightarrow> if i = core then lint_setup lint (word_of_nat flags) l else Some l)"

text \<open>The registers are mapped by the primary core; another core waits for that and flushes its translations.\<close>

definition apic_map :: "x86 \<Rightarrow> nat \<Rightarrow> kernel \<Rightarrow> kernel option" where
  "apic_map X core k =
     (if core \<noteq> k_bspid k then Some (k\<lparr>k_mem := flush_all (k_mem k)\<rparr>)
      else do {
        y \<leftarrow> add64 20 core;
        k \<leftarrow> dbg 10 y (255, 255, 255) k;
        page \<leftarrow> page_from_start X APIC_VBASE;
        frame \<leftarrow> frame_from_start X APIC_BASE;
        r \<leftarrow> vmap X page frame PAGE_SIZE {} (k_mem k);
        m \<leftarrow> unwrap_ok r;
        dbg 11 y (255, 0, 255) (k\<lparr>k_mem := m\<rparr>) })"

definition quantum_of :: "nat \<times> nat \<Rightarrow> nat option" where
  "quantum_of calib = do {
     apic_10ms \<leftarrow> sub64 (fst calib) (snd calib);
     n \<leftarrow> mul64 apic_10ms QUANTUM_MS;
     Some (n div 10) }"

text \<open>
  \<open>is_mapped\<close> says whether the primary core has set \<open>MAPPED\<close>, which the other cores wait for. The last
  component of the result is what was written to the ports of the interval timer.
\<close>

definition apic_init :: "x86 \<Rightarrow> nat \<Rightarrow> bool \<Rightarrow> bool \<Rightarrow> (u8 \<times> u8) list \<Rightarrow> nat \<Rightarrow> nat \<Rightarrow> LocalApicNmiConfig list option \<Rightarrow>
    kernel \<Rightarrow> (nat option \<times> kernel \<times> ports) option" where
  "apic_init X core is_mapped isvm reads t0 t1 config k =
     (if core \<noteq> k_bspid k \<and> \<not> is_mapped then Some (None, k, [])
      else do {
        k \<leftarrow> apic_map X core k;
        y \<leftarrow> add64 20 core;
        k \<leftarrow> dbg 12 y (255, 255, 255) k;
        let k = on_lapic core (error_setup (vector LocalApicError)) k;
        k \<leftarrow> dbg 13 y (255, 0, 255) k;
        let k = on_lapic core (spurious_setup (vector LocalApicSpurious)) k;
        k \<leftarrow> dbg 14 y (255, 255, 255) k;
        l \<leftarrow> timer_setup (vector LocalApicTimer) Periodic 0 (k_lapic k core);
        k \<leftarrow> dbg 15 y (255, 0, 255) (on_lapic core (\<lambda>_. l) k);
        let k = on_lapic core (timer_reset (2 ^ 64 - 1)) k;
        k \<leftarrow> dbg 16 y (255, 255, 255) k;
        (calib, k, io) \<leftarrow> pit_calib_sleep core isvm reads t0 t1 k;
        case calib of
          None \<Rightarrow> Some (None, k, io)
        | Some calib \<Rightarrow> do {
            k \<leftarrow> dbg 17 y (255, 0, 255) k;
            apic_10ms \<leftarrow> sub64 (fst calib) (snd calib);
            y1 \<leftarrow> add64 core 1;
            k \<leftarrow> dbg_bin 50 y1 apic_10ms k;
            quantum \<leftarrow> quantum_of calib;
            let k = on_lapic core (timer_reset quantum) k;
            k \<leftarrow> dbg 18 y (255, 255, 255) k;
            l \<leftarrow> fold_opt (lint_config core) (once [] config) (k_lapic k core);
            Some (Some quantum, on_lapic core (\<lambda>_. l) k, io) } })"

section \<open>The calibration\<close>

text \<open>
  The wait ends with the first reading that is far enough below the first one, as long as the
  timer does not run backwards before it.
\<close>

lemma pit_loop_ends:
  assumes "\<forall>r \<in> set rs. pit_value r \<le> start \<and> start < pit_value r + pit_delay" "pit_value r + pit_delay \<le> start"
  shows "\<exists>io'. pit_loop isvm start (rs @ r # rs') io = Some (Elapsed (start - pit_value r - pit_delay), io')"
  using assms
proof (induction rs arbitrary: io)
  case Nil
  then have "pit_value r \<le> start" "pit_delay \<le> start - pit_value r" by linarith+
  then show ?case by (simp add: sub64_def Let_def)
next
  case (Cons q rs)
  then have "\<not> start < pit_value q" "\<not> pit_delay \<le> start - pit_value q" by auto
  then show ?case using Cons by (simp add: sub64_def Let_def)
qed

text \<open>On hardware a timer that runs backwards, or wraps, is a panic.\<close>

lemma pit_loop_backwards: "start < pit_value r \<Longrightarrow> pit_loop False start (r # rs) io = None"
  by (simp add: sub64_def Let_def)

text \<open>
  The quantum is ten thousand times the count of ten milliseconds. The register has 32 bits: a
  count of 429497 or more does not fit, and the timer is set to what is left of it.
\<close>

lemma quantum_register:
  assumes "quantum_of (t0, t1) = Some q" "t0 < 2 ^ 32" "429497 \<le> t0 - t1"
  shows "q = 10000 * (t0 - t1)" "unat (word_of_nat q :: u32) < q"
proof -
  show q: "q = 10000 * (t0 - t1)"
    using assms(1) by (auto simp: quantum_of_def rust_simps QUANTUM_MS_def)
  have "2 ^ 32 \<le> q" using assms(3) unfolding q by simp
  moreover have "unat (word_of_nat q :: u32) < 2 ^ 32" using unsigned_less [of "word_of_nat q :: u32"] by simp
  ultimately show "unat (word_of_nat q :: u32) < q" by linarith
qed

text \<open>A pin other than 0 and 1, as the misread entry of \<open>Acpi\<close> has one, stops the core it names.\<close>

lemma lint_config_panics: "1 < lint \<Longrightarrow> lint_config core (NmiSpecific core lint flags) l = None"
  by (simp add: lint_config_def lint_setup_def)

section \<open>Starting a core's local APIC\<close>

text \<open>
  The coloured pixels change the screen and nothing else. On a screen of at least \<open>w\<close> by \<open>h\<close>
  pixels they never stop the kernel.
\<close>

definition screen_ok :: "nat \<Rightarrow> nat \<Rightarrow> kernel \<Rightarrow> bool" where
  "screen_ok w h k \<longleftrightarrow> (\<exists>f. k_fb k = Some f \<and> fb_ok f \<and> w \<le> fb_width f \<and> h \<le> fb_height f)"

definition draw :: "nat \<Rightarrow> nat \<Rightarrow> u8 \<times> u8 \<times> u8 \<Rightarrow> kernel \<Rightarrow> kernel" where
  "draw x y c k = (case dbg x y c k of None \<Rightarrow> k | Some k' \<Rightarrow> k')"

definition draw_bin :: "nat \<Rightarrow> nat \<Rightarrow> nat \<Rightarrow> kernel \<Rightarrow> kernel" where
  "draw_bin x y v k = (case dbg_bin x y v k of None \<Rightarrow> k | Some k' \<Rightarrow> k')"

text \<open>Nothing but memory, the local APIC and the screen is different.\<close>

definition only_devices :: "kernel \<Rightarrow> kernel \<Rightarrow> bool" where
  "only_devices k k' \<longleftrightarrow> (\<exists>m l f s. k' = k\<lparr>k_mem := m, k_lapic := l, k_fb := f, k_screen := s\<rparr>)"

lemma fb_touch: "fb_ok (touch o' f) = fb_ok f" "fb_width (touch o' f) = fb_width f" "fb_height (touch o' f) = fb_height f"
  by (simp_all add: touch_def fb_ok_def)

lemma set_pixel_total:
  assumes "fb_ok f" "x < fb_width f" "y < fb_height f"
  shows "\<exists>f' mem'. set_pixel x y p (f, mem) = Some (f', mem') \<and> fb_ok f' \<and> fb_width f' = fb_width f \<and> fb_height f' = fb_height f"
proof -
  obtain w where "pixel_word p (fb_format f) = Some w" using pixel_word_ok [OF assms(1)] by blast
  from set_pixel_eq [OF assms this] assms(1) show ?thesis by (simp add: fb_touch)
qed

lemma dbg_total:
  assumes "screen_ok w h k" "x < w" "y < h"
  shows "\<exists>f s. dbg x y c k = Some (k\<lparr>k_fb := Some f, k_screen := s\<rparr>) \<and> screen_ok w h (k\<lparr>k_fb := Some f, k_screen := s\<rparr>)"
proof -
  obtain f where f: "k_fb k = Some f" "fb_ok f" "w \<le> fb_width f" "h \<le> fb_height f"
    using assms(1) by (auto simp: screen_ok_def)
  then obtain f' s where "set_pixel x y (pixel_rgb c) (f, k_screen k) = Some (f', s)" "fb_ok f'"
    "fb_width f' = fb_width f" "fb_height f' = fb_height f"
    using set_pixel_total [of f x y "pixel_rgb c" "k_screen k"] assms(2,3) by auto
  with f show ?thesis
    by (intro exI [of _ f'] exI [of _ s]) (simp add: dbg_def debug_set_pixel_def screen_ok_def)
qed

lemma dbg_draw: "screen_ok w h k \<Longrightarrow> x < w \<Longrightarrow> y < h \<Longrightarrow> dbg x y c k = Some (draw x y c k)"
  using dbg_total [of w h k x y c] by (auto simp: draw_def)

lemma screen_ok_draw [simp]: "screen_ok w h k \<Longrightarrow> screen_ok w h (draw x y c k)"
proof (cases "dbg x y c k")
  case (Some k')
  assume k: "screen_ok w h k"
  then obtain f where f: "k_fb k = Some f" "fb_ok f" "w \<le> fb_width f" "h \<le> fb_height f" by (auto simp: screen_ok_def)
  from Some f(1) obtain f' s where s: "set_pixel x y (pixel_rgb c) (f, k_screen k) = Some (f', s)"
    "k' = k\<lparr>k_fb := Some f', k_screen := s\<rparr>" by (auto simp: dbg_def debug_set_pixel_def bind_Some_iff)
  then have "x < fb_width f" "y < fb_height f" using set_pixel_off_screen [of x f y "pixel_rgb c" "k_screen k"] by fastforce+
  then show ?thesis using set_pixel_total [OF f(2), of x y "pixel_rgb c" "k_screen k"] s f Some
    by (auto simp: draw_def screen_ok_def)
qed (simp add: draw_def)

lemma draw_devices: "\<exists>f s. draw x y c k = k\<lparr>k_fb := f, k_screen := s\<rparr>"
proof (cases "dbg x y c k")
  case None
  then show ?thesis by (intro exI [of _ "k_fb k"] exI [of _ "k_screen k"]) (simp add: draw_def)
next
  case (Some k')
  then obtain f s where "k' = k\<lparr>k_fb := f, k_screen := s\<rparr>" by (auto simp: dbg_def bind_Some_iff)
  with Some show ?thesis by (auto simp: draw_def)
qed

lemma only_devices_draw [simp]: "only_devices k (draw x y c k') = only_devices k k'"
proof
  obtain f s where d: "draw x y c k' = k'\<lparr>k_fb := f, k_screen := s\<rparr>" using draw_devices by blast
  { assume "only_devices k (draw x y c k')"
    then obtain m l f' s' where "k'\<lparr>k_fb := f, k_screen := s\<rparr> = k\<lparr>k_mem := m, k_lapic := l, k_fb := f', k_screen := s'\<rparr>"
      by (auto simp: only_devices_def d)
    then have "k' = k\<lparr>k_mem := m, k_lapic := l, k_fb := k_fb k', k_screen := k_screen k'\<rparr>" by (cases k, cases k') simp
    then show "only_devices k k'" unfolding only_devices_def by blast }
  { assume "only_devices k k'"
    then obtain m l f' s' where "k' = k\<lparr>k_mem := m, k_lapic := l, k_fb := f', k_screen := s'\<rparr>"
      by (auto simp: only_devices_def)
    then have "draw x y c k' = k\<lparr>k_mem := m, k_lapic := l, k_fb := f, k_screen := s\<rparr>" unfolding d by simp
    then show "only_devices k (draw x y c k')" unfolding only_devices_def by blast }
qed

lemma draw_fields [simp]:
  "k_mem (draw x y c k) = k_mem k" "k_gdt (draw x y c k) = k_gdt k" "k_procs (draw x y c k) = k_procs k"
  "k_tasks (draw x y c k) = k_tasks k" "k_store (draw x y c k) = k_store k" "k_bspid (draw x y c k) = k_bspid k"
  "k_lapic (draw x y c k) = k_lapic k" "k_numcores (draw x y c k) = k_numcores k"
  using draw_devices [of x y c k] by auto

lemma dbg_bin_total:
  assumes "screen_ok w h k" "x + 64 \<le> w" "y < h" "x + 64 < 2 ^ 64"
  shows "\<exists>f s. dbg_bin x y v k = Some (k\<lparr>k_fb := Some f, k_screen := s\<rparr>) \<and>
    fb_ok f \<and> w \<le> fb_width f \<and> h \<le> fb_height f"
proof -
  obtain f where f: "k_fb k = Some f" "fb_ok f" "w \<le> fb_width f" "h \<le> fb_height f"
    using assms(1) by (auto simp: screen_ok_def)
  let ?P = "\<lambda>(f, mem :: memory). fb_ok f \<and> w \<le> fb_width f \<and> h \<le> fb_height f"
  let ?step = "\<lambda>bitindex fm. do {
      n \<leftarrow> add64 x 64;
      n \<leftarrow> sub64 n bitindex;
      xindex \<leftarrow> sub64 n 1;
      let bitval = (drop_bit bitindex (word_of_nat v :: u64) AND 1 = 1);
      let color = (if bitval then (255, 0, 0) else (0, 0, 255));
      set_pixel xindex y (pixel_rgb color) fm }"
  have "\<exists>t. fold_opt ?step [0..<64] (f, k_screen k) = Some t \<and> ?P t"
  proof (rule fold_opt_total)
    show "?P (f, k_screen k)" using f by simp
  next
    fix i and fm :: "Framebuffer \<times> memory"
    assume i: "i \<in> set [0..<64]" and P: "?P fm"
    obtain g mem where fm: "fm = (g, mem)" by (cases fm)
    let ?c = "if drop_bit i (word_of_nat v :: u64) AND 1 = 1 then (255, 0, 0) else (0, 0, 255)"
    have "x + 64 - i - 1 < fb_width g" "y < fb_height g" "fb_ok g" using i P assms(2,3) fm by auto
    then obtain g' mem' where "set_pixel (x + 64 - i - 1) y (pixel_rgb ?c) (g, mem) = Some (g', mem')" "fb_ok g'"
      "fb_width g' = fb_width g" "fb_height g' = fb_height g"
      using set_pixel_total [of g "x + 64 - i - 1" y "pixel_rgb ?c" mem] by blast
    with i P fm assms(4) show "\<exists>t. ?step i fm = Some t \<and> ?P t" by (simp add: add64_def sub64_def Let_def)
  qed
  then obtain g s where g: "fold_opt ?step [0..<64] (f, k_screen k) = Some (g, s)" "?P (g, s)" by auto
  with f(1) have "dbg_bin x y v k = Some (k\<lparr>k_fb := Some g, k_screen := s\<rparr>)"
    by (simp add: dbg_bin_def debug_printbin_def del: upt_rec_numeral)
  with g(2) show ?thesis by blast
qed

lemma dbg_bin_draw:
  "screen_ok w h k \<Longrightarrow> x + 64 \<le> w \<Longrightarrow> y < h \<Longrightarrow> x + 64 < 2 ^ 64 \<Longrightarrow>
   dbg_bin x y v k = Some (draw_bin x y v k) \<and> screen_ok w h (draw_bin x y v k)"
  using dbg_bin_total [of w h k x y v] by (auto simp: draw_bin_def screen_ok_def)

lemma draw_bin_devices: "\<exists>f s. draw_bin x y v k = k\<lparr>k_fb := f, k_screen := s\<rparr>"
proof (cases "dbg_bin x y v k")
  case None
  then show ?thesis by (intro exI [of _ "k_fb k"] exI [of _ "k_screen k"]) (simp add: draw_bin_def)
next
  case (Some k')
  then obtain f s where "k' = k\<lparr>k_fb := f, k_screen := s\<rparr>" by (auto simp: dbg_bin_def bind_Some_iff)
  with Some show ?thesis by (auto simp: draw_bin_def)
qed

text \<open>\<^const>\<open>only_devices\<close> is an equivalence that the updates of devices respect.\<close>

lemma only_devicesI: "only_devices k k"
  unfolding only_devices_def by (intro exI [of _ "k_mem k"] exI [of _ "k_lapic k"] exI [of _ "k_fb k"] exI [of _ "k_screen k"]) simp

lemma only_devices_trans:
  assumes "only_devices k k1" "only_devices k1 k2"
  shows "only_devices k k2"
proof -
  obtain m l f s where "k1 = k\<lparr>k_mem := m, k_lapic := l, k_fb := f, k_screen := s\<rparr>"
    using assms(1) unfolding only_devices_def by blast
  moreover obtain m' l' f' s' where "k2 = k1\<lparr>k_mem := m', k_lapic := l', k_fb := f', k_screen := s'\<rparr>"
    using assms(2) unfolding only_devices_def by blast
  ultimately have "k2 = k\<lparr>k_mem := m', k_lapic := l', k_fb := f', k_screen := s'\<rparr>" by simp
  then show ?thesis unfolding only_devices_def by blast
qed

lemma only_devices_update: "k' = k\<lparr>k_mem := m, k_lapic := l, k_fb := f, k_screen := s\<rparr> \<Longrightarrow> only_devices k k'"
  unfolding only_devices_def by blast

lemma only_devices_steps:
  "only_devices k (draw_bin x y v k)" "only_devices k (on_lapic core g k)" "only_devices k (k\<lparr>k_mem := m\<rparr>)"
proof -
  obtain f s where d: "draw_bin x y v k = k\<lparr>k_fb := f, k_screen := s\<rparr>" using draw_bin_devices by blast
  show "only_devices k (draw_bin x y v k)"
    by (rule only_devices_update [where m = "k_mem k" and l = "k_lapic k" and f = f and s = s]) (simp add: d)
  show "only_devices k (on_lapic core g k)"
    by (rule only_devices_update [where m = "k_mem k" and l = "(k_lapic k)(core := g (k_lapic k core))" and f = "k_fb k" and s = "k_screen k"])
      (simp add: on_lapic_def)
  show "only_devices k (k\<lparr>k_mem := m\<rparr>)"
    by (rule only_devices_update [where m = m and l = "k_lapic k" and f = "k_fb k" and s = "k_screen k"]) simp
qed

lemma only_devicesD:
  assumes "only_devices k k'"
  shows "k_gdt k' = k_gdt k" "k_procs k' = k_procs k" "k_tasks k' = k_tasks k" "k_store k' = k_store k"
    "k_bspid k' = k_bspid k" "k_numcores k' = k_numcores k"
  using assms by (auto simp: only_devices_def)

lemma only_devices_cong:
  assumes "only_devices k k'"
  shows "only_devices (k\<lparr>k_gdt := g\<rparr>) (k'\<lparr>k_gdt := g\<rparr>)" "only_devices (k\<lparr>k_procs := ps\<rparr>) (k'\<lparr>k_procs := ps\<rparr>)"
    "only_devices (k\<lparr>k_tasks := ts\<rparr>) (k'\<lparr>k_tasks := ts\<rparr>)"
proof -
  obtain m l f s where "k' = k\<lparr>k_mem := m, k_lapic := l, k_fb := f, k_screen := s\<rparr>"
    using assms unfolding only_devices_def by blast
  then show "only_devices (k\<lparr>k_gdt := g\<rparr>) (k'\<lparr>k_gdt := g\<rparr>)" "only_devices (k\<lparr>k_procs := ps\<rparr>) (k'\<lparr>k_procs := ps\<rparr>)"
    "only_devices (k\<lparr>k_tasks := ts\<rparr>) (k'\<lparr>k_tasks := ts\<rparr>)"
    by (auto intro!: only_devices_update [where m = m and l = l and f = f and s = s])
qed

lemma screen_ok_update [simp]:
  "screen_ok w h (on_lapic core f k) = screen_ok w h k" "screen_ok w h (k\<lparr>k_mem := m\<rparr>) = screen_ok w h k"
  "screen_ok w h (k\<lparr>k_gdt := g\<rparr>) = screen_ok w h k" "screen_ok w h (k\<lparr>k_procs := ps\<rparr>) = screen_ok w h k"
  "screen_ok w h (k\<lparr>k_tasks := ts\<rparr>) = screen_ok w h k"
  by (simp_all add: screen_ok_def on_lapic_def)

text \<open>
  Readings of the interval timer that end the wait, and counts of the local timer whose
  difference gives a quantum that fits in a machine word.
\<close>

definition calib_ok :: "(u8 \<times> u8) list \<Rightarrow> nat \<Rightarrow> nat \<Rightarrow> bool" where
  "calib_ok reads t0 t1 \<longleftrightarrow>
     (\<exists>r0 rs r1 rs'. reads = r0 # rs @ r1 # rs' \<and>
        (\<forall>r \<in> set rs. pit_value r \<le> pit_value r0 \<and> pit_value r0 < pit_value r + pit_delay) \<and>
        pit_value r1 + pit_delay \<le> pit_value r0) \<and>
     t1 \<le> t0 \<and> (t0 - t1) * QUANTUM_MS < 2 ^ 64"

lemma pit_calib_ok:
  assumes scr: "screen_ok w h k" "104 \<le> w" "20 + core < h" "20 + core < 2 ^ 64" and c: "calib_ok reads t0 t1"
  shows "\<exists>k' io. pit_calib_sleep core isvm reads t0 t1 k = Some (Some (t0, t1), k', io) \<and> screen_ok w h k' \<and>
    only_devices k k' \<and> k_lapic k' = k_lapic k \<and> k_mem k' = k_mem k"
proof -
  obtain r0 rs r1 rs' where r: "reads = r0 # rs @ r1 # rs'"
    "\<forall>r \<in> set rs. pit_value r \<le> pit_value r0 \<and> pit_value r0 < pit_value r + pit_delay"
    "pit_value r1 + pit_delay \<le> pit_value r0" using c unfolding calib_ok_def by blast
  define e where "e = pit_value r0 - pit_value r1 - pit_delay"
  define k1 where "k1 = draw 40 (20 + core) (255, 255, 255) k"
  define k2 where "k2 = draw_bin 40 (20 + core) e k1"
  define k3 where "k3 = draw 39 (20 + core) (255, 255, 0) k2"
  have y: "add64 20 core = Some (20 + core)" using scr(4) by (simp add: add64_def)
  have s1: "dbg 40 (20 + core) (255, 255, 255) k = Some k1" "screen_ok w h k1"
    using scr by (simp_all add: k1_def dbg_draw [where w = w and h = h])
  have s2: "dbg_bin 40 (20 + core) e k1 = Some k2 \<and> screen_ok w h k2"
    unfolding k2_def by (rule dbg_bin_draw) (use s1(2) scr in auto)
  have s3: "dbg 39 (20 + core) (255, 255, 0) k2 = Some k3" "screen_ok w h k3"
    using s2 scr by (simp_all add: k3_def dbg_draw [where w = w and h = h])
  obtain io where l: "pit_loop isvm (pit_value r0) (rs @ r1 # rs') [(0x40, 0xFF), (0x40, 0xFF), (0x43, 0)] = Some (Elapsed e, io)"
    using pit_loop_ends [OF r(2,3)] unfolding e_def by blast
  have "pit_calib_sleep core isvm reads t0 t1 k = Some (Some (t0, t1), k3, io)"
    using y s1(1) s2 s3(1) l by (simp add: pit_calib_sleep_def r(1) Let_def)
  moreover have "only_devices k k3"
    using only_devices_trans [OF _ only_devices_steps(1) [of k1 40 "20 + core" e], of k] only_devicesI [of k]
    by (simp add: k3_def k2_def k1_def)
  moreover have "k_lapic k3 = k_lapic k" "k_mem k3 = k_mem k"
    using draw_bin_devices [of 40 "20 + core" e k1] by (auto simp: k3_def k2_def k1_def)
  ultimately show ?thesis using s3(2) by blast
qed

context x86_crate
begin

text \<open>
  The registers are mapped without \<open>WRITABLE\<close>; writing them works only while the processor lets the
  kernel write to read-only pages.
\<close>

lemma apic_map_ok:
  assumes scr: "screen_ok w h k" "12 \<le> w" "20 + core < h" "20 + core < 2 ^ 64"
    and pre: "core = k_bspid k \<Longrightarrow> map_pre X APIC_VBASE APIC_BASE 1 {} (k_mem k)"
  shows "\<exists>k'. apic_map X core k = Some k' \<and> screen_ok w h k' \<and> only_devices k k' \<and> k_lapic k' = k_lapic k \<and>
    (core = k_bspid k \<longrightarrow> pte_frame X (pagemap X (k_mem k') APIC_VBASE) = Some APIC_BASE \<and>
       pte_flags X (pagemap X (k_mem k') APIC_VBASE) = {PRESENT, GLOBAL})"
proof (cases "core = k_bspid k")
  case True
  have n: "1 = page_count 4096" by (simp add: page_count_def round_up_def)
  obtain m where m: "kernel_map X APIC_VBASE APIC_BASE 4096 {} (k_mem k) = Some (Inr (), m)"
    "map_post X APIC_VBASE APIC_BASE 1 {} (k_mem k) m" using kernel_map_ok [OF pre [OF True] n] by auto
  have pf: "page_flags APIC_VBASE {} = {PRESENT, GLOBAL}" by (auto simp: page_flags_def APIC_VBASE_def KVMSPACE_def)
  define k1 where "k1 = draw 10 (20 + core) (255, 255, 255) k"
  define k2 where "k2 = draw 11 (20 + core) (255, 0, 255) (k1\<lparr>k_mem := m\<rparr>)"
  have y: "add64 20 core = Some (20 + core)" using scr(4) by (simp add: add64_def)
  have p: "page_from_start X APIC_VBASE = Some APIC_VBASE" "frame_from_start X APIC_BASE = Some APIC_BASE"
    by (simp_all add: crate_eqs APIC_VBASE_def APIC_BASE_def KVMSPACE_def)
  have "apic_map X core k = Some k2"
    using scr y p m(1) True
    by (simp add: apic_map_def dbg_draw [where w = w and h = h] k1_def k2_def vmap_def unwrap_ok_def)
  moreover have "only_devices k k2"
    using only_devices_trans [OF _ only_devices_steps(3) [of k1 m], of k] only_devicesI [of k] by (simp add: k1_def k2_def)
  ultimately show ?thesis using scr(1) m(2) pf by (simp add: k1_def k2_def map_post_def)
next
  case False
  then show ?thesis using scr(1) only_devices_steps(3) [of k "flush_all (k_mem k)"] by (simp add: apic_map_def)
qed

end

text \<open>The writes to the local APIC, in order.\<close>

definition apic_writes :: "nat \<Rightarrow> mmio" where
  "apic_writes quantum = [(0x370, 0xFD), (0xF0, 0x1FF), (0x320, 0x200F0), (0x3E0, 0b1011), (0x380, 0xFFFFFFFF),
     (0x380, word_of_nat quantum)]"

fun nmi_pin :: "LocalApicNmiConfig \<Rightarrow> nat" where
  "nmi_pin (NmiAll lint flags) = lint"
| "nmi_pin (NmiSpecific core lint flags) = lint"

lemma lint_configs_ok:
  assumes "\<forall>cfg \<in> set cfgs. nmi_pin cfg \<le> 1"
  shows "\<exists>ws. fold_opt (lint_config core) cfgs l = Some (l @ ws) \<and> set (map fst ws) \<subseteq> {0x350, 0x360}"
  using assms
proof (induction cfgs arbitrary: l)
  case (Cons cfg cfgs)
  have "\<exists>w. lint_config core cfg l = Some (l @ w) \<and> set (map fst w) \<subseteq> {0x350, 0x360}"
  proof (cases "nmi_pin cfg = 0 \<or> nmi_pin cfg = 1")
    case True
    then show ?thesis by (cases cfg) (auto simp: lint_config_def lint_setup_def reg_write_def reg_offsets)
  qed (use Cons.prems in auto)
  then obtain w where w: "lint_config core cfg l = Some (l @ w)" "set (map fst w) \<subseteq> {0x350, 0x360}" by blast
  obtain ws where "fold_opt (lint_config core) cfgs (l @ w) = Some ((l @ w) @ ws)" "set (map fst ws) \<subseteq> {0x350, 0x360}"
    using Cons.IH [of "l @ w"] Cons.prems by auto
  with w show ?case by (intro exI [of _ "w @ ws"]) simp
qed simp

context x86_crate
begin

lemma apic_init_ok:
  assumes scr: "screen_ok w h k" "114 \<le> w" "20 + core < h" "20 + core < 2 ^ 64"
    and pre: "core = k_bspid k \<Longrightarrow> map_pre X APIC_VBASE APIC_BASE 1 {} (k_mem k)"
    and mp: "core = k_bspid k \<or> is_mapped"
    and c: "calib_ok reads t0 t1" and cfg: "\<forall>cfg \<in> set (once [] config). nmi_pin cfg \<le> 1"
  shows "\<exists>k' io ws. apic_init X core is_mapped isvm reads t0 t1 config k = Some (Some ((t0 - t1) * QUANTUM_MS div 10), k', io) \<and>
    screen_ok w h k' \<and> only_devices k k' \<and>
    k_lapic k' = (k_lapic k)(core := k_lapic k core @ apic_writes ((t0 - t1) * QUANTUM_MS div 10) @ ws) \<and> set (map fst ws) \<subseteq> {0x350, 0x360}"
proof -
  let ?q = "(t0 - t1) * QUANTUM_MS div 10" and ?y = "20 + core"
  obtain k0 where k0: "apic_map X core k = Some k0" "screen_ok w h k0" "only_devices k k0" "k_lapic k0 = k_lapic k"
    using apic_map_ok [OF scr(1) _ scr(3,4) pre] scr(2) by auto
  define k1 where "k1 = draw 13 ?y (255, 0, 255) (on_lapic core (error_setup (vector LocalApicError)) (draw 12 ?y (255, 255, 255) k0))"
  define k2 where "k2 = draw 14 ?y (255, 255, 255) (on_lapic core (spurious_setup (vector LocalApicSpurious)) k1)"
  obtain l where l: "timer_setup (vector LocalApicTimer) Periodic 0 (k_lapic k2 core) = Some l"
    "l = k_lapic k2 core @ [(0x320, 0x200F0), (0x3E0, 0b1011)]"
    by (simp add: timer_setup_def timer_divcfg_def mode_word_def reg_write_def reg_offsets)
  define k2' where "k2' = draw 15 ?y (255, 0, 255) (on_lapic core (\<lambda>_. l) k2)"
  define k3 where "k3 = draw 16 ?y (255, 255, 255) (on_lapic core (timer_reset (2 ^ 64 - 1)) k2')"
  have s: "screen_ok w h k1" "screen_ok w h k2" "screen_ok w h k3" using k0(2) by (simp_all add: k1_def k2_def k2'_def k3_def)
  obtain k4 io where k4: "pit_calib_sleep core isvm reads t0 t1 k3 = Some (Some (t0, t1), k4, io)" "screen_ok w h k4"
    "only_devices k3 k4" "k_lapic k4 = k_lapic k3"
    using pit_calib_ok [OF s(3) _ scr(3,4) c, of isvm] scr(2) by auto
  define k5 where "k5 = draw_bin 50 (core + 1) (t0 - t1) (draw 17 ?y (255, 0, 255) k4)"
  define k6 where "k6 = draw 18 ?y (255, 255, 255) (on_lapic core (timer_reset ?q) k5)"
  have s5: "dbg_bin 50 (core + 1) (t0 - t1) (draw 17 ?y (255, 0, 255) k4) = Some k5 \<and> screen_ok w h k5"
    unfolding k5_def by (rule dbg_bin_draw) (use k4(2) scr in auto)
  obtain ws where ws: "fold_opt (lint_config core) (once [] config) (k_lapic k6 core) = Some (k_lapic k6 core @ ws)"
    "set (map fst ws) \<subseteq> {0x350, 0x360}" using lint_configs_ok [OF cfg] by blast
  define k7 where "k7 = on_lapic core (\<lambda>_. k_lapic k6 core @ ws) k6"
  have a: "add64 20 core = Some ?y" "add64 core 1 = Some (core + 1)" using scr(4) by (simp_all add: add64_def)
  have q: "sub64 t0 t1 = Some (t0 - t1)" "quantum_of (t0, t1) = Some ?q"
    using c by (simp_all add: calib_ok_def quantum_of_def sub64_def mul64_def)
  have d: "dbg x ?y col k' = Some (draw x ?y col k')" if "screen_ok w h k'" "x < 19" for x col k'
    using dbg_draw [OF that(1)] that(2) scr(2,3) by simp
  have e: "dbg 12 ?y (255, 255, 255) k0 = Some (draw 12 ?y (255, 255, 255) k0)"
    "dbg 13 ?y (255, 0, 255) (on_lapic core (error_setup (vector LocalApicError)) (draw 12 ?y (255, 255, 255) k0)) = Some k1"
    "dbg 14 ?y (255, 255, 255) (on_lapic core (spurious_setup (vector LocalApicSpurious)) k1) = Some k2"
    "dbg 15 ?y (255, 0, 255) (on_lapic core (\<lambda>_. l) k2) = Some k2'"
    "dbg 16 ?y (255, 255, 255) (on_lapic core (timer_reset (2 ^ 64 - 1)) k2') = Some k3"
    "dbg 17 ?y (255, 0, 255) k4 = Some (draw 17 ?y (255, 0, 255) k4)"
    "dbg 18 ?y (255, 255, 255) (on_lapic core (timer_reset ?q) k5) = Some k6"
    unfolding k1_def k2_def k2'_def k3_def k6_def using k0(2) k4(2) s5 by (auto intro!: d)
  have "apic_init X core is_mapped isvm reads t0 t1 config k = Some (Some ?q, k7, io)"
    using k0(1) a e l(1) k4(1) q s5 ws(1) mp by (simp add: apic_init_def Let_def k7_def)
  moreover have "only_devices k k7"
  proof -
    note t = only_devices_trans and st = only_devices_steps
    have "only_devices k0 k1" by (simp add: k1_def) (rule t [OF _ st(2)], simp add: only_devicesI)
    moreover have "only_devices k1 k2" by (simp add: k2_def st(2))
    moreover have "only_devices k2 k3" by (simp add: k3_def k2'_def) (rule t [OF _ st(2)], simp add: st(2))
    moreover have "only_devices k4 k5" unfolding k5_def by (rule t [OF _ st(1)]) (simp add: only_devicesI)
    moreover have "only_devices k5 k6" by (simp add: k6_def st(2))
    moreover have "only_devices k6 k7" by (simp add: k7_def st(2))
    ultimately show ?thesis using k0(3) k4(3) t by metis
  qed
  moreover have "screen_ok w h k7" using s5 by (simp add: k7_def k6_def)
  moreover have "k_lapic k7 = (k_lapic k)(core := k_lapic k core @ apic_writes ?q @ ws)"
  proof -
    have "k_lapic k5 = k_lapic k4" using draw_bin_devices [of 50 "core + 1" "t0 - t1" "draw 17 ?y (255, 0, 255) k4"]
      by (auto simp: k5_def)
    moreover have w: "(18446744073709551615 :: u32) = 4294967295" by simp
    ultimately show ?thesis using k4(4) k0(4) l(2)
      by (simp add: k7_def k6_def k3_def k2'_def k2_def k1_def on_lapic_def error_setup_def spurious_setup_def timer_reset_def
          reg_write_def reg_offsets apic_writes_def w)
  qed
  ultimately show ?thesis using ws(2) by blast
qed

end

end
