(* ===== verification/Gdt.thy ===== *)
theory Gdt
  imports Apic
begin

text \<open>
  Segments and the task state segment, \<open>kernel/src/mem/gdt.rs\<close>, with \<open>enable\<close> of
  \<open>kernel/src/proc/syscall.rs\<close>, which hands the same selectors to the \<open>syscall\<close> instruction. The
  tables themselves are types of the \<open>x86_64\<close> crate: a descriptor table is a value of the type
  \<open>'g\<close>, the functions on it are the fields of \<open>gdt_ops\<close>, and what the crate documents of them is
  the locale \<open>gdt_crate\<close>. \<open>gdt_ref\<close> is the instance with a list of entries.
\<close>

section \<open>The crate\<close>

datatype Descriptor =
    kernel_code_segment
  | kernel_data_segment
  | user_data_segment
  | user_code_segment
  | tss_segment nat

record TaskStateSegment =
  privilege_stack_table :: "nat list"
  interrupt_stack_table :: "nat list"

text \<open>
  \<open>star_write\<close> takes the selectors for \<open>sysret\<close> and for \<open>syscall\<close> and returns the two that end up
  in the register. \<open>size_kgdt\<close> is the size of a \<open>KernelGlobalDescriptorTable\<close>, which contains a
  table of the crate.
\<close>

record 'g gdt_ops =
  gdt_new :: 'g
  gdt_append :: "Descriptor \<Rightarrow> 'g \<Rightarrow> (u16 \<times> 'g) option"
  tss_new :: TaskStateSegment
  star_write :: "u16 \<Rightarrow> u16 \<Rightarrow> u16 \<Rightarrow> u16 \<Rightarrow> (u16 \<times> u16) option"
  size_kgdt :: nat
  size_tss :: nat

fun dpl :: "Descriptor \<Rightarrow> nat" where
  "dpl kernel_code_segment = 0"
| "dpl kernel_data_segment = 0"
| "dpl user_data_segment = 3"
| "dpl user_code_segment = 3"
| "dpl (tss_segment a) = 0"

fun slots_of :: "Descriptor \<Rightarrow> nat" where
  "slots_of (tss_segment a) = 2"
| "slots_of d = 1"

text \<open>
  A table holds eight entries and starts with the null descriptor; the selector of a new entry is
  its byte offset with the privilege level in the low bits.
\<close>

locale gdt_crate =
  fixes G :: "'g gdt_ops" and used :: "'g \<Rightarrow> nat"
  assumes used_new: "used (gdt_new G) = 1"
    and append_ok: "used g + slots_of d \<le> 8 \<Longrightarrow>
      \<exists>g'. gdt_append G d g = Some (word_of_nat (8 * used g + dpl d), g') \<and> used g' = used g + slots_of d"
    and tss_new_length: "length (privilege_stack_table (tss_new G)) = 3" "length (interrupt_stack_table (tss_new G)) = 7"
    and size_tss_eq: "size_tss G = 104"
    and star_write_ok:
      "unat cs_sysret = unat ss_sysret + 8 \<Longrightarrow> unat ss_syscall = unat cs_syscall + 8 \<Longrightarrow>
       unat ss_sysret mod 4 = 3 \<Longrightarrow> unat ss_syscall mod 4 = 0 \<Longrightarrow>
       star_write G cs_sysret ss_sysret cs_syscall ss_syscall = Some (ss_sysret - 8, cs_syscall)"

definition gdt_ref :: "Descriptor option list gdt_ops" where
  "gdt_ref = \<lparr>gdt_new = [None],
     gdt_append = (\<lambda>d g. if length g + slots_of d \<le> 8
       then Some (word_of_nat (8 * length g + dpl d), g @ replicate (slots_of d) (Some d)) else None),
     tss_new = \<lparr>privilege_stack_table = replicate 3 0, interrupt_stack_table = replicate 7 0\<rparr>,
     star_write = (\<lambda>cs_sysret ss_sysret cs_syscall ss_syscall.
       if unat cs_sysret = unat ss_sysret + 8 \<and> unat ss_syscall = unat cs_syscall + 8 \<and>
          unat ss_sysret mod 4 = 3 \<and> unat ss_syscall mod 4 = 0
       then Some (ss_sysret - 8, cs_syscall) else None),
     size_kgdt = 88, size_tss = 104\<rparr>"

interpretation gdt: gdt_crate gdt_ref length
  by unfold_locales (simp_all add: gdt_ref_def)

section \<open>The state of the processors\<close>

record 'g cpu =
  cpu_gdt :: "'g option"
  cpu_cs :: u16
  cpu_ss :: u16
  cpu_ds :: u16
  cpu_es :: u16
  cpu_fs :: u16
  cpu_gs :: u16
  cpu_tr :: u16
  cpu_kernel_gs_base :: nat
  cpu_lstar :: nat
  cpu_star :: "u16 \<times> u16"
  cpu_sce :: bool
  cpu_idt :: bool

text \<open>
  The kernel with its processors: \<open>pl_gdt\<close> and \<open>pl_tss\<close> are the tables of descriptor tables and of
  task state segments, one entry per core, \<open>pl_stack\<close> the table of stacks, \<open>pl_proc_table\<close>,
  \<open>pl_ignition\<close>, \<open>pl_late\<close> and \<open>pl_mapped\<close> say which of the \<open>Once\<close> statics have been set. The selectors of an
  entry of the descriptor tables are \<^const>\<open>k_gdt\<close>, and \<open>PROC_TABLE\<close> is \<^const>\<open>k_procs\<close>.
\<close>

record 'g platform =
  pl_k :: kernel
  pl_heap :: heap
  pl_idt :: idt
  pl_apic :: apic
  pl_handlers :: "handlers option"
  pl_ports :: ports
  pl_gdt :: "nat \<Rightarrow> 'g option"
  pl_tss :: "nat \<Rightarrow> TaskStateSegment"
  pl_stack :: "nat \<Rightarrow> nat"
  pl_cpu :: "nat \<Rightarrow> 'g cpu"
  pl_proc_table :: bool
  pl_ignition :: bool
  pl_late :: bool
  pl_mapped :: bool

definition pdbg :: "nat \<Rightarrow> nat \<Rightarrow> u8 \<times> u8 \<times> u8 \<Rightarrow> 'g platform \<Rightarrow> 'g platform option" where
  "pdbg x y c p = do {
     k \<leftarrow> dbg x y c (pl_k p);
     Some (p\<lparr>pl_k := k\<rparr>) }"

definition on_cpu :: "nat \<Rightarrow> ('g cpu \<Rightarrow> 'g cpu) \<Rightarrow> 'g platform \<Rightarrow> 'g platform" where
  "on_cpu core f p = p\<lparr>pl_cpu := (pl_cpu p)(core := f (pl_cpu p core))\<rparr>"

definition set_segments :: "u16 \<Rightarrow> u16 \<Rightarrow> 'g cpu \<Rightarrow> 'g cpu" where
  "set_segments code data c = c\<lparr>cpu_cs := code, cpu_ss := data, cpu_ds := data, cpu_es := data, cpu_fs := data, cpu_gs := data\<rparr>"

section \<open>The first descriptor table\<close>

definition BASIC_GDT :: "'g gdt_ops \<Rightarrow> ('g \<times> u16 \<times> u16) option" where
  "BASIC_GDT G = do {
     let gdt = gdt_new G;
     (code_segment, gdt) \<leftarrow> gdt_append G kernel_code_segment gdt;
     (data_segment, gdt) \<leftarrow> gdt_append G kernel_data_segment gdt;
     Some (gdt, code_segment, data_segment) }"

definition basic_init :: "'g gdt_ops \<Rightarrow> nat \<Rightarrow> 'g platform \<Rightarrow> 'g platform option" where
  "basic_init G core p = do {
     (gdt, code_segment, data_segment) \<leftarrow> BASIC_GDT G;
     Some (on_cpu core (\<lambda>c. set_segments code_segment data_segment (c\<lparr>cpu_gdt := Some gdt\<rparr>)) p) }"

section \<open>The table of a core\<close>

definition GDT_TABLE_PTR :: nat where
  "GDT_TABLE_PTR = KVMSPACE + 5 * 1024 * 1024 * 1024 * 1024"

definition TSS_TABLE_PTR :: nat where
  "TSS_TABLE_PTR = KVMSPACE + 7 * 1024 * 1024 * 1024 * 1024"

definition kgdt_init :: "x86 \<Rightarrow> 'g gdt_ops \<Rightarrow> nat \<Rightarrow> machine \<Rightarrow> machine option" where
  "kgdt_init X G numcores m = do {
     m \<leftarrow> valloc_ktable X (size_kgdt G) GDT_TABLE_PTR numcores m;
     valloc_ktable X (size_tss G) TSS_TABLE_PTR numcores m }"

definition tss_address :: "'g gdt_ops \<Rightarrow> nat \<Rightarrow> nat" where
  "tss_address G core = TSS_TABLE_PTR + core * size_tss G"

definition load_kernel :: "nat \<Rightarrow> KernelGlobalDescriptorTable \<Rightarrow> 'g platform \<Rightarrow> 'g platform option" where
  "load_kernel core e p = do {
     let p = on_cpu core (set_segments (kcode_seg e) (kdata_seg e)) p;
     y \<leftarrow> add64 core 1;
     p \<leftarrow> pdbg 42 y (255, 0, 0) p;
     Some (on_cpu core (\<lambda>c. c\<lparr>cpu_tr := tss_seg e\<rparr>) p) }"

definition register :: "'g gdt_ops \<Rightarrow> nat \<Rightarrow> nat \<Rightarrow> nat \<Rightarrow> nat \<Rightarrow> 'g platform \<Rightarrow> 'g platform option" where
  "register G core kstack nmistack dfstack p = do {
     y \<leftarrow> add64 core 1;
     p \<leftarrow> pdbg 30 y (255, 0, 0) p;
     let gdt = gdt_new G;
     p \<leftarrow> pdbg 31 y (0, 255, 0) p;
     (kcode, gdt) \<leftarrow> gdt_append G kernel_code_segment gdt;
     p \<leftarrow> pdbg 32 y (255, 0, 0) p;
     (kdata, gdt) \<leftarrow> gdt_append G kernel_data_segment gdt;
     p \<leftarrow> pdbg 33 y (0, 255, 0) p;
     (udata, gdt) \<leftarrow> gdt_append G user_data_segment gdt;
     p \<leftarrow> pdbg 34 y (255, 0, 0) p;
     (ucode, gdt) \<leftarrow> gdt_append G user_code_segment gdt;
     p \<leftarrow> pdbg 35 y (0, 255, 0) p;
     let tss = tss_new G;
     p \<leftarrow> pdbg 36 y (255, 0, 0) p;
     privilege \<leftarrow> put (privilege_stack_table tss) 0 kstack;
     interrupt \<leftarrow> put (interrupt_stack_table tss) 0 nmistack;
     interrupt \<leftarrow> put interrupt 1 dfstack;
     let p = p\<lparr>pl_tss := (pl_tss p)(core := tss\<lparr>privilege_stack_table := privilege, interrupt_stack_table := interrupt\<rparr>)\<rparr>;
     (tssel, gdt) \<leftarrow> gdt_append G (tss_segment (tss_address G core)) gdt;
     p \<leftarrow> pdbg 37 y (0, 255, 0) p;
     let e = \<lparr>kcode_seg = kcode, kdata_seg = kdata, ucode_seg = ucode, udata_seg = udata, tss_seg = tssel\<rparr>;
     let p = p\<lparr>pl_gdt := (pl_gdt p)(core \<mapsto> gdt), pl_k := (pl_k p)\<lparr>k_gdt := (k_gdt (pl_k p))(core := e)\<rparr>\<rparr>;
     p \<leftarrow> pdbg 40 y (255, 255, 0) p;
     let p = on_cpu core (\<lambda>c. c\<lparr>cpu_gdt := Some gdt\<rparr>) p;
     p \<leftarrow> pdbg 41 y (255, 0, 255) p;
     p \<leftarrow> load_kernel core e p;
     pdbg 43 y (0, 0, 255) p }"

section \<open>The system call instruction\<close>

definition enable :: "x86 \<Rightarrow> 'g gdt_ops \<Rightarrow> nat \<Rightarrow> nat \<Rightarrow> 'g platform \<Rightarrow> 'g platform option" where
  "enable X G core handler_adr p = do {
     let gdt = k_gdt (pl_k p) core;
     adr \<leftarrow> virt_try_new X handler_adr;
     star \<leftarrow> star_write G (ucode_seg gdt) (udata_seg gdt) (kcode_seg gdt) (kdata_seg gdt);
     Some (on_cpu core (\<lambda>c. c\<lparr>cpu_lstar := adr, cpu_star := star, cpu_sce := True\<rparr>) p) }"

section \<open>What the start of a core leaves\<close>

text \<open>The selectors of a core's table, the same on every core.\<close>

definition selectors :: KernelGlobalDescriptorTable where
  "selectors = \<lparr>kcode_seg = 0x08, kdata_seg = 0x10, ucode_seg = 0x23, udata_seg = 0x1B, tss_seg = 0x28\<rparr>"

lemma pdbg_draw:
  "screen_ok w h (pl_k p) \<Longrightarrow> x < w \<Longrightarrow> y < h \<Longrightarrow> pdbg x y c p = Some (p\<lparr>pl_k := draw x y c (pl_k p)\<rparr>)"
  by (simp add: pdbg_def dbg_draw)

context gdt_crate
begin

lemma appends:
  obtains g1 g2 g3 g4 g5 where "gdt_append G kernel_code_segment (gdt_new G) = Some (0x08, g1)"
    "gdt_append G kernel_data_segment g1 = Some (0x10, g2)" "gdt_append G user_data_segment g2 = Some (0x1B, g3)"
    "gdt_append G user_code_segment g3 = Some (0x23, g4)" "gdt_append G (tss_segment a) g4 = Some (0x28, g5)"
proof -
  obtain g1 where 1: "gdt_append G kernel_code_segment (gdt_new G) = Some (0x08, g1)" "used g1 = 2"
    using append_ok [of "gdt_new G" kernel_code_segment] used_new by auto
  obtain g2 where 2: "gdt_append G kernel_data_segment g1 = Some (0x10, g2)" "used g2 = 3"
    using append_ok [of g1 kernel_data_segment] 1(2) by auto
  obtain g3 where 3: "gdt_append G user_data_segment g2 = Some (0x1B, g3)" "used g3 = 4"
    using append_ok [of g2 user_data_segment] 2(2) by auto
  obtain g4 where 4: "gdt_append G user_code_segment g3 = Some (0x23, g4)" "used g4 = 5"
    using append_ok [of g3 user_code_segment] 3(2) by auto
  obtain g5 where "gdt_append G (tss_segment a) g4 = Some (0x28, g5)"
    using append_ok [of g4 "tss_segment a"] 4(2) by auto
  with 1 2 3 4 show ?thesis by (intro that)
qed

lemma register_ok:
  assumes scr: "screen_ok w h (pl_k p)" "43 < w" "core + 1 < h" "core + 1 < 2 ^ 64"
  shows "\<exists>p' gdt. register G core kstack nmistack dfstack p = Some p' \<and> screen_ok w h (pl_k p') \<and>
    only_devices ((pl_k p)\<lparr>k_gdt := (k_gdt (pl_k p))(core := selectors)\<rparr>) (pl_k p') \<and>
    pl_gdt p' core = Some gdt \<and>
    privilege_stack_table (pl_tss p' core) ! 0 = kstack \<and>
    interrupt_stack_table (pl_tss p' core) ! 0 = nmistack \<and> interrupt_stack_table (pl_tss p' core) ! 1 = dfstack \<and>
    pl_cpu p' = (pl_cpu p)(core := (pl_cpu p core)\<lparr>cpu_gdt := Some gdt, cpu_cs := 0x08, cpu_ss := 0x10, cpu_ds := 0x10,
      cpu_es := 0x10, cpu_fs := 0x10, cpu_gs := 0x10, cpu_tr := 0x28\<rparr>) \<and>
    (\<forall>c. c \<noteq> core \<longrightarrow> pl_gdt p' c = pl_gdt p c \<and> pl_tss p' c = pl_tss p c) \<and>
    pl_stack p' = pl_stack p \<and> pl_apic p' = pl_apic p \<and> pl_idt p' = pl_idt p \<and>
    pl_proc_table p' = pl_proc_table p \<and> pl_ignition p' = pl_ignition p \<and> pl_late p' = pl_late p \<and> pl_mapped p' = pl_mapped p \<and>
    k_mem (pl_k p') = k_mem (pl_k p) \<and> k_lapic (pl_k p') = k_lapic (pl_k p)"
proof -
  obtain g1 g2 g3 g4 g5 where g: "gdt_append G kernel_code_segment (gdt_new G) = Some (0x08, g1)"
    "gdt_append G kernel_data_segment g1 = Some (0x10, g2)" "gdt_append G user_data_segment g2 = Some (0x1B, g3)"
    "gdt_append G user_code_segment g3 = Some (0x23, g4)" "gdt_append G (tss_segment (tss_address G core)) g4 = Some (0x28, g5)"
    by (rule appends)
  have "add64 core 1 = Some (core + 1)" using scr(4) by (simp add: add64_def)
  then show ?thesis using scr g tss_new_length
    by (simp add: register_def load_kernel_def pdbg_draw [where w = w and h = h] on_cpu_def set_segments_def Let_def)
      (simp add: selectors_def only_devices_cong only_devicesI fun_upd_def)
qed

lemma enable_ok:
  assumes "k_gdt (pl_k p) core = selectors" "virt_try_new X a = Some a"
  shows "enable X G core a p = Some (on_cpu core (\<lambda>c. c\<lparr>cpu_lstar := a, cpu_star := (0x13, 0x08), cpu_sce := True\<rparr>) p)"
  using assms star_write_ok [of "0x23" "0x1B" "0x10" "0x08"] by (simp add: enable_def selectors_def)

end

end
