(* ===== verification/Proc.thy ===== *)
theory Proc
  imports Gdt
begin

text \<open>
  The start of the processors, \<open>kernel/src/proc/mod.rs\<close>: the tables with one entry per core, the
  stacks, \<open>ignite\<close> on the primary core and \<open>wakeup\<close> on every core. A core that waits in a loop for
  another one is \<open>Waits\<close>; one that has reached \<open>sys::event_loop\<close> is \<open>Loops\<close>.
\<close>

section \<open>Stacks and tables\<close>

definition STACK_TABLE_VPTR :: nat where
  "STACK_TABLE_VPTR = KVMSPACE + 4 * 1024 * 1024 * 1024 * 1024"

definition NMI_STACKS_VPTR :: nat where
  "NMI_STACKS_VPTR = KVMSPACE + 7 * 1024 * 1024 * 1024 * 1024"

definition DF_STACKS_VPTR :: nat where
  "DF_STACKS_VPTR = KVMSPACE + 8 * 1024 * 1024 * 1024 * 1024"

definition is_primary :: "nat \<Rightarrow> kernel \<Rightarrow> bool" where
  "is_primary core k \<longleftrightarrow> core = k_bspid k"

definition nmi_stack :: "x86 \<Rightarrow> nat \<Rightarrow> nat option" where
  "nmi_stack X core = do {
     n \<leftarrow> add64 core 1;
     n \<leftarrow> mul64 ERROR_STACK_SIZE n;
     virt_add X NMI_STACKS_VPTR n }"

definition df_stack :: "x86 \<Rightarrow> nat \<Rightarrow> nat option" where
  "df_stack X core = do {
     n \<leftarrow> add64 core 1;
     n \<leftarrow> mul64 ERROR_STACK_SIZE n;
     virt_add X DF_STACKS_VPTR n }"

text \<open>\<open>x_ptr\<close> is the address of a variable on the current stack.\<close>

definition stack :: "x86 \<Rightarrow> nat \<Rightarrow> nat \<Rightarrow> nat option" where
  "stack X x_ptr stack_size = do {
     stack_base \<leftarrow> (if (2 ^ 64 - stack_size) mod 2 ^ 64 \<le> x_ptr then Some 0 else align_up X x_ptr stack_size);
     virt_try_new X stack_base }"

section \<open>\<open>wakeup\<close>\<close>

text \<open>
  What a core finds: its id, the stack the boot loader gave it, where the allocator puts its
  \<open>ProcInfo\<close> and the linker the handler of system calls, what the timers answer.
\<close>

record env =
  e_core :: nat
  e_xptr :: nat
  e_stack_size :: nat
  e_pinfo_adr :: nat
  e_syscall_adr :: nat
  e_isvm :: bool
  e_reads :: "(u8 \<times> u8) list"
  e_t0 :: nat
  e_t1 :: nat

datatype progress = Waits | Loops

definition ProcInfo_new :: "nat \<Rightarrow> nat \<Rightarrow> ProcInfo" where
  "ProcInfo_new i st = \<lparr>proc_id = i, tick_miss = 0, current_task = None,
     basic = \<lparr>save_user_rsp = 0, kernel_rsp = st\<rparr>, schedule_quantum = 0, active_mapping = None\<rparr>"

text \<open>The stacks of the core and its descriptor table.\<close>

definition wakeup_tables :: "env \<Rightarrow> x86 \<Rightarrow> 'g gdt_ops \<Rightarrow> 'g platform \<Rightarrow> (nat \<times> 'g platform) option" where
  "wakeup_tables E X G p = do {
     let core = e_core E;
     p \<leftarrow> pdbg 10 0 (255, 255, 255) p;
     y \<leftarrow> add64 core 1;
     p \<leftarrow> pdbg 10 y (255, 0, 255) p;
     st \<leftarrow> stack X (e_xptr E) (e_stack_size E);
     let p = p\<lparr>pl_stack := (pl_stack p)(core := st)\<rparr>;
     p \<leftarrow> pdbg 11 y (255, 255, 0) p;
     nmistack \<leftarrow> nmi_stack X core;
     p \<leftarrow> pdbg 12 y (255, 0, 255) p;
     dfstack \<leftarrow> df_stack X core;
     p \<leftarrow> pdbg 13 y (255, 255, 0) p;
     p \<leftarrow> register G core st nmistack dfstack p;
     p \<leftarrow> pdbg 14 y (255, 0, 255) p;
     Some (st, p) }"

text \<open>The entry of the core in \<open>PROC_TABLE\<close>, whose address the assembly finds in \<open>KernelGsBase\<close>.\<close>

definition wakeup_pinfo :: "env \<Rightarrow> x86 \<Rightarrow> nat \<Rightarrow> 'g platform \<Rightarrow> 'g platform option" where
  "wakeup_pinfo E X st p = do {
     let core = e_core E;
     y \<leftarrow> add64 core 1;
     p \<leftarrow> pdbg 15 y (255, 0, 0) p;
     _ \<leftarrow> rassert (pl_proc_table p);
     let p = p\<lparr>pl_k := set_proc core (ProcInfo_new core st) (pl_k p)\<rparr>;
     p \<leftarrow> pdbg 16 y (0, 0, 255) p;
     _ \<leftarrow> k_procs (pl_k p) core;
     adr \<leftarrow> virt_try_new X (e_pinfo_adr E);
     pdbg 17 y (255, 0, 255) (on_cpu core (\<lambda>c. c\<lparr>cpu_kernel_gs_base := adr\<rparr>) p) }"

text \<open>The last part: \<open>late_start\<close> on the primary core, which the others wait for; \<open>dev::init\<close> is empty.\<close>

definition late_start :: "'g platform \<Rightarrow> 'g platform option" where
  "late_start p = pdbg 0 5 (255, 255, 255) p"

definition wakeup_late :: "env \<Rightarrow> 'g platform \<Rightarrow> (progress \<times> 'g platform) option" where
  "wakeup_late E p = do {
     y \<leftarrow> add64 (e_core E) 1;
     p \<leftarrow> (if is_primary (e_core E) (pl_k p)
       then do { p \<leftarrow> late_start p; Some (p\<lparr>pl_late := True\<rparr>) }
       else Some p);
     if \<not> pl_late p then Some (Waits, p)
     else do {
       p \<leftarrow> pdbg 5 0 (255, 128, 128) p;
       p \<leftarrow> pdbg 5 y (255, 128, 128) p;
       Some (Loops, p) } }"

definition wakeup :: "env \<Rightarrow> x86 \<Rightarrow> 'g gdt_ops \<Rightarrow> 'g platform \<Rightarrow> (progress \<times> 'g platform) option" where
  "wakeup E X G p = do {
     let core = e_core E;
     y \<leftarrow> add64 core 1;
     (st, p) \<leftarrow> wakeup_tables E X G p;
     p \<leftarrow> wakeup_pinfo E X st p;
     (quantum, k, io) \<leftarrow> apic_init X core (pl_mapped p) (e_isvm E) (e_reads E) (e_t0 E) (e_t1 E) (APIC_CONFIG (pl_apic p)) (pl_k p);
     let p = p\<lparr>pl_k := k, pl_ports := pl_ports p @ io, pl_mapped := pl_mapped p \<or> is_primary core (pl_k p)\<rparr>;
     case quantum of
       None \<Rightarrow> Some (Waits, p)
     | Some q \<Rightarrow> do {
         pinfo \<leftarrow> k_procs (pl_k p) core;
         let p = p\<lparr>pl_k := set_proc core (pinfo\<lparr>schedule_quantum := q\<rparr>) (pl_k p)\<rparr>;
         p \<leftarrow> pdbg 18 y (255, 255, 0) p;
         let p = on_cpu core (\<lambda>c. c\<lparr>cpu_idt := True\<rparr>) p;
         p \<leftarrow> pdbg 19 y (255, 0, 255) p;
         p \<leftarrow> enable X G core (e_syscall_adr E) p;
         p \<leftarrow> pdbg 20 y (255, 255, 0) p;
         wakeup_late E p } }"

section \<open>\<open>ignite\<close> and \<open>wait\<close>\<close>

definition ignite_tables :: "x86 \<Rightarrow> 'g gdt_ops \<Rightarrow> nat \<Rightarrow> machine \<Rightarrow> machine option" where
  "ignite_tables X G numcores m = do {
     m \<leftarrow> valloc_ktable X 8 STACK_TABLE_VPTR numcores m;
     m \<leftarrow> kgdt_init X G numcores m;
     m \<leftarrow> valloc_ktable X ERROR_STACK_SIZE NMI_STACKS_VPTR numcores m;
     valloc_ktable X ERROR_STACK_SIZE DF_STACKS_VPTR numcores m }"

definition ignite :: "env \<Rightarrow> x86 \<Rightarrow> 'g gdt_ops \<Rightarrow> 'g platform \<Rightarrow> (progress \<times> 'g platform) option" where
  "ignite E X G p = do {
     let k = pl_k p;
     m \<leftarrow> ignite_tables X G (k_numcores k) (k_mem k);
     let p = p\<lparr>pl_k := task_init (k\<lparr>k_mem := m\<rparr>), pl_proc_table := True, pl_ignition := True\<rparr>;
     y \<leftarrow> add64 (e_core E) 1;
     p \<leftarrow> pdbg 1 y (255, 255, 128) p;
     p \<leftarrow> pdbg 2 y (255, 128, 255) p;
     p \<leftarrow> pdbg 3 y (128, 255, 255) p;
     wakeup E X G p }"

definition wait :: "env \<Rightarrow> x86 \<Rightarrow> 'g gdt_ops \<Rightarrow> 'g platform \<Rightarrow> (progress \<times> 'g platform) option" where
  "wait E X G p = (if pl_ignition p then wakeup E X G p else Some (Waits, p))"

section \<open>Stacks\<close>

text \<open>The boot loader puts the stack of core \<open>i\<close> below the end of the address space.\<close>

definition boot_stack :: "nat \<Rightarrow> nat \<Rightarrow> nat set" where
  "boot_stack sz i = {2 ^ 64 - (i + 1) * sz <..< 2 ^ 64 - i * sz}"

context x86_crate
begin

text \<open>Whatever variable of its stack a core looks at, it finds the end of that stack.\<close>

lemma stack_eq:
  assumes "s < 47" "(i + 1) * 2 ^ s \<le> 2 ^ 47" "x \<in> boot_stack (2 ^ s) i"
  shows "stack X x (2 ^ s) = Some (if i = 0 then 0 else 2 ^ 64 - i * 2 ^ s)"
proof (cases "i = 0")
  case True
  then have "(2 ^ 64 - 2 ^ s) mod 2 ^ 64 \<le> x" using assms(1,3) by (auto simp: boot_stack_def)
  then show ?thesis using True by (simp add: stack_def virt_try_new_eq canonical_def)
next
  case False
  have pos: "(0 :: nat) < 2 ^ s" by simp
  have b: "2 ^ 64 - (i + 1) * 2 ^ s < x" "x < 2 ^ 64 - i * 2 ^ s" using assms(3) by (auto simp: boot_stack_def)
  have i: "2 ^ s \<le> i * 2 ^ s" "i * 2 ^ s + 2 ^ s \<le> 2 ^ 47" using False assms(2) by auto
  have k: "(2 :: nat) ^ 64 - i * 2 ^ s = (2 ^ (64 - s) - i) * 2 ^ s"
    using assms(1) by (simp add: diff_mult_distrib power_add [symmetric])
  have near: "2 ^ 64 - i * 2 ^ s < x + 2 ^ s" using b(1) i by simp
  have "round_up x (2 ^ s) \<le> round_up (2 ^ 64 - i * 2 ^ s) (2 ^ s)" using b(2) by (intro round_up_mono) simp
  also have "\<dots> = 2 ^ 64 - i * 2 ^ s" by (rule round_up_id) (unfold k, simp)
  finally have le: "round_up x (2 ^ s) \<le> 2 ^ 64 - i * 2 ^ s" .
  obtain d where d: "round_up x (2 ^ s) = d * 2 ^ s" using round_up_dvd [of "2 ^ s" x] by (metis dvd_def mult.commute)
  have "(2 ^ (64 - s) - i) * 2 ^ s < (d + 1) * 2 ^ s"
    using near round_up_ge [OF pos, of x] unfolding k [symmetric] d by simp
  then have "2 ^ (64 - s) - i < d + 1" using pos by (metis mult_less_cancel2)
  then have "(2 ^ (64 - s) - i) * 2 ^ s \<le> d * 2 ^ s" by (intro mult_right_mono) simp_all
  with le have up: "round_up x (2 ^ s) = 2 ^ 64 - i * 2 ^ s" unfolding d k by simp
  have m: "(2 ^ 64 - 2 ^ s) mod 2 ^ 64 = (2 ^ 64 - 2 ^ s :: nat)" by simp
  have "\<not> 2 ^ 64 - 2 ^ s \<le> x" using b(2) i by linarith
  moreover have "align_up X x (2 ^ s) = Some (2 ^ 64 - i * 2 ^ s)" using align_up_eq [of s x] assms(1) up i pos by simp
  moreover have "canonical (2 ^ 64 - i * 2 ^ s)" using i pos by (auto simp: canonical_def)
  ultimately show ?thesis using False m by (simp add: stack_def virt_try_new_eq)
qed

end

section \<open>A core that has started\<close>

text \<open>
  What the boot loader and the timers have to provide for a core, and what it finds when it wakes
  up; the screen has at least \<open>h\<close> rows.
\<close>

definition env_ok :: "x86 \<Rightarrow> nat \<Rightarrow> env \<Rightarrow> nat \<Rightarrow> bool" where
  "env_ok X h E st \<longleftrightarrow> e_core E < 256 \<and> 21 + e_core E \<le> h \<and> stack X (e_xptr E) (e_stack_size E) = Some st \<and>
     canonical (e_pinfo_adr E) \<and> canonical (e_syscall_adr E) \<and> calib_ok (e_reads E) (e_t0 E) (e_t1 E)"

definition wake_pre :: "x86 \<Rightarrow> nat \<Rightarrow> env \<Rightarrow> nat \<Rightarrow> 'g platform \<Rightarrow> bool" where
  "wake_pre X h E st p \<longleftrightarrow> env_ok X h E st \<and> screen_ok 114 h (pl_k p) \<and>
     pl_proc_table p \<and> (is_primary (e_core E) (pl_k p) \<or> pl_late p \<and> pl_mapped p) \<and>
     (is_primary (e_core E) (pl_k p) \<longrightarrow> map_pre X APIC_VBASE APIC_BASE 1 {} (k_mem (pl_k p))) \<and>
     (\<forall>cfg \<in> set (once [] (APIC_CONFIG (pl_apic p))). nmi_pin cfg \<le> 1)"

definition wake_quantum :: "env \<Rightarrow> nat" where
  "wake_quantum E = (e_t0 E - e_t1 E) * QUANTUM_MS div 10"

text \<open>The registers, tables and records of a core that has reached the event loop.\<close>

definition cpu_ready :: "env \<Rightarrow> 'g option \<Rightarrow> 'g cpu \<Rightarrow> bool" where
  "cpu_ready E gdt c \<longleftrightarrow> cpu_gdt c = gdt \<and> gdt \<noteq> None \<and> cpu_cs c = 0x08 \<and> cpu_ss c = 0x10 \<and> cpu_ds c = 0x10 \<and>
     cpu_es c = 0x10 \<and> cpu_fs c = 0x10 \<and> cpu_gs c = 0x10 \<and> cpu_tr c = 0x28 \<and>
     cpu_kernel_gs_base c = e_pinfo_adr E \<and> cpu_lstar c = e_syscall_adr E \<and> cpu_star c = (0x13, 0x08) \<and> cpu_sce c \<and> cpu_idt c"

definition tss_ready :: "nat \<Rightarrow> nat \<Rightarrow> TaskStateSegment \<Rightarrow> bool" where
  "tss_ready core st t \<longleftrightarrow> privilege_stack_table t ! 0 = st \<and>
     interrupt_stack_table t ! 0 = NMI_STACKS_VPTR + ERROR_STACK_SIZE * (core + 1) \<and>
     interrupt_stack_table t ! 1 = DF_STACKS_VPTR + ERROR_STACK_SIZE * (core + 1)"

definition same_core :: "nat \<Rightarrow> 'g platform \<Rightarrow> 'g platform \<Rightarrow> bool" where
  "same_core c p p' \<longleftrightarrow> pl_cpu p' c = pl_cpu p c \<and> pl_gdt p' c = pl_gdt p c \<and> pl_tss p' c = pl_tss p c \<and>
     pl_stack p' c = pl_stack p c \<and> k_lapic (pl_k p') c = k_lapic (pl_k p) c"

definition core_ready :: "env \<Rightarrow> nat \<Rightarrow> 'g platform \<Rightarrow> 'g platform \<Rightarrow> bool" where
  "core_ready E st p p' \<longleftrightarrow> (let core = e_core E; k = pl_k p; k' = pl_k p' in
     only_devices (k\<lparr>k_gdt := (k_gdt k)(core := selectors),
       k_procs := (k_procs k)(core \<mapsto> (ProcInfo_new core st)\<lparr>schedule_quantum := wake_quantum E\<rparr>)\<rparr>) k' \<and>
     pl_stack p' core = st \<and> tss_ready core st (pl_tss p' core) \<and> cpu_ready E (pl_gdt p' core) (pl_cpu p' core) \<and>
     (\<forall>c. c \<noteq> core \<longrightarrow> same_core c p p'))"

context x86_crate
begin

lemma error_stacks:
  "core < 256 \<Longrightarrow> nmi_stack X core = Some (NMI_STACKS_VPTR + ERROR_STACK_SIZE * (core + 1))"
  "core < 256 \<Longrightarrow> df_stack X core = Some (DF_STACKS_VPTR + ERROR_STACK_SIZE * (core + 1))"
  by (simp_all add: nmi_stack_def df_stack_def add64_def mul64_def virt_add_eq canonical_def NMI_STACKS_VPTR_def DF_STACKS_VPTR_def
      KVMSPACE_def)

end

text \<open>What both crates give together.\<close>

locale crates = x86_crate X + gdt_crate G used for X and G :: "'g gdt_ops" and used
begin

lemma wakeup_tables_ok:
  assumes pre: "wake_pre X h E st p"
  shows "\<exists>p'. wakeup_tables E X G p = Some (st, p') \<and> screen_ok 114 h (pl_k p') \<and>
    only_devices ((pl_k p)\<lparr>k_gdt := (k_gdt (pl_k p))(e_core E := selectors)\<rparr>) (pl_k p') \<and>
    pl_gdt p' (e_core E) \<noteq> None \<and> pl_stack p' (e_core E) = st \<and> tss_ready (e_core E) st (pl_tss p' (e_core E)) \<and>
    pl_cpu p' = (pl_cpu p)(e_core E := (pl_cpu p (e_core E))\<lparr>cpu_gdt := pl_gdt p' (e_core E), cpu_cs := 0x08, cpu_ss := 0x10, cpu_ds := 0x10,
      cpu_es := 0x10, cpu_fs := 0x10, cpu_gs := 0x10, cpu_tr := 0x28\<rparr>) \<and>
    (\<forall>c. c \<noteq> e_core E \<longrightarrow> pl_gdt p' c = pl_gdt p c \<and> pl_tss p' c = pl_tss p c \<and> pl_stack p' c = pl_stack p c) \<and>
    pl_apic p' = pl_apic p \<and> pl_proc_table p' = pl_proc_table p \<and> pl_ignition p' = pl_ignition p \<and> pl_late p' = pl_late p \<and>
    pl_mapped p' = pl_mapped p \<and> k_mem (pl_k p') = k_mem (pl_k p) \<and> k_lapic (pl_k p') = k_lapic (pl_k p)"
proof -
  note P = pre [unfolded wake_pre_def env_ok_def]
  let ?c = "e_core E"
  define k1 where "k1 = draw 13 (?c + 1) (255, 255, 0) (draw 12 (?c + 1) (255, 0, 255) (draw 11 (?c + 1) (255, 255, 0)
    (draw 10 (?c + 1) (255, 0, 255) (draw 10 0 (255, 255, 255) (pl_k p)))))"
  define p1 where "p1 = p\<lparr>pl_stack := (pl_stack p)(?c := st), pl_k := k1\<rparr>"
  have s1: "screen_ok 114 h (pl_k p1)" using P by (simp add: p1_def k1_def)
  have od: "only_devices (pl_k p) k1" by (simp add: k1_def only_devicesI)
  have ch: "?c + 1 < h" using P by simp
  have c: "?c + 1 < 2 ^ 64" "add64 ?c 1 = Some (?c + 1)" using P by (simp_all add: add64_def)
  obtain p2 gdt where r: "register G ?c st (NMI_STACKS_VPTR + ERROR_STACK_SIZE * (?c + 1)) (DF_STACKS_VPTR + ERROR_STACK_SIZE * (?c + 1)) p1 = Some p2"
    and s2: "screen_ok 114 h (pl_k p2)" and d2: "only_devices ((pl_k p1)\<lparr>k_gdt := (k_gdt (pl_k p1))(?c := selectors)\<rparr>) (pl_k p2)"
    and g2: "pl_gdt p2 ?c = Some gdt" and t2: "tss_ready ?c st (pl_tss p2 ?c)"
    and c2: "pl_cpu p2 = (pl_cpu p1)(?c := (pl_cpu p1 ?c)\<lparr>cpu_gdt := Some gdt, cpu_cs := 0x08, cpu_ss := 0x10, cpu_ds := 0x10,
      cpu_es := 0x10, cpu_fs := 0x10, cpu_gs := 0x10, cpu_tr := 0x28\<rparr>)"
    and f2: "pl_stack p2 = pl_stack p1" "pl_apic p2 = pl_apic p1" "pl_proc_table p2 = pl_proc_table p1" "pl_late p2 = pl_late p1"
      "pl_mapped p2 = pl_mapped p1" "pl_ignition p2 = pl_ignition p1" "\<forall>c. c \<noteq> ?c \<longrightarrow> pl_gdt p2 c = pl_gdt p1 c \<and> pl_tss p2 c = pl_tss p1 c"
      "k_mem (pl_k p2) = k_mem (pl_k p1)" "k_lapic (pl_k p2) = k_lapic (pl_k p1)"
    using register_ok [OF s1 _ ch c(1), of st "NMI_STACKS_VPTR + ERROR_STACK_SIZE * (?c + 1)" "DF_STACKS_VPTR + ERROR_STACK_SIZE * (?c + 1)"]
    unfolding tss_ready_def by auto
  define p3 where "p3 = p2\<lparr>pl_k := draw 14 (?c + 1) (255, 0, 255) (pl_k p2)\<rparr>"
  have d: "pdbg x y col q = Some (q\<lparr>pl_k := draw x y col (pl_k q)\<rparr>)" if "screen_ok 114 h (pl_k q)" "x < 114" "y < h"
    for x y col and q :: "'g platform" using pdbg_draw [OF that] .
  have "wakeup_tables E X G p = Some (st, p3)"
    using P c(2) r s2 error_stacks [of ?c]
    by (simp add: wakeup_tables_def Let_def d p1_def k1_def p3_def)
  moreover have "only_devices ((pl_k p)\<lparr>k_gdt := (k_gdt (pl_k p))(?c := selectors)\<rparr>) (pl_k p3)"
    using only_devices_trans [OF only_devices_cong(1) [OF od, of "(k_gdt (pl_k p))(?c := selectors)"]] d2
    by (simp add: p3_def p1_def only_devicesD [OF od])
  ultimately show ?thesis using s2 g2 t2 c2 f2 by (intro exI [of _ p3]) (simp add: p3_def p1_def k1_def)
qed

lemma wakeup_pinfo_ok:
  assumes scr: "screen_ok 114 h (pl_k p)" and c: "e_core E < 256" and h: "21 + e_core E \<le> h" and t: "pl_proc_table p" and a: "canonical (e_pinfo_adr E)"
  shows "\<exists>k'. wakeup_pinfo E X st p = Some (on_cpu (e_core E) (\<lambda>c. c\<lparr>cpu_kernel_gs_base := e_pinfo_adr E\<rparr>) (p\<lparr>pl_k := k'\<rparr>)) \<and>
    screen_ok 114 h k' \<and>
    only_devices (set_proc (e_core E) (ProcInfo_new (e_core E) st) (pl_k p)) k' \<and>
    k_mem k' = k_mem (pl_k p) \<and> k_lapic k' = k_lapic (pl_k p)"
proof -
  let ?c = "e_core E"
  define k1 where "k1 = draw 15 (?c + 1) (255, 0, 0) (pl_k p)"
  define k2 where "k2 = draw 16 (?c + 1) (0, 0, 255) (set_proc ?c (ProcInfo_new ?c st) k1)"
  define k3 where "k3 = draw 17 (?c + 1) (255, 0, 255) k2"
  have od: "only_devices (pl_k p) k1" by (simp add: k1_def only_devicesI)
  have "only_devices (set_proc ?c (ProcInfo_new ?c st) (pl_k p)) (set_proc ?c (ProcInfo_new ?c st) k1)"
    using only_devices_cong(2) [OF od, of "(k_procs (pl_k p))(?c \<mapsto> ProcInfo_new ?c st)"]
    by (simp add: set_proc_def only_devicesD [OF od])
  then have "only_devices (set_proc ?c (ProcInfo_new ?c st) (pl_k p)) k3" by (simp add: k3_def k2_def)
  moreover have s: "screen_ok 114 h k1" "screen_ok 114 h k2" "screen_ok 114 h k3"
    using scr by (simp_all add: k1_def k2_def k3_def set_proc_def)
  moreover have "wakeup_pinfo E X st p = Some (on_cpu ?c (\<lambda>c. c\<lparr>cpu_kernel_gs_base := e_pinfo_adr E\<rparr>) (p\<lparr>pl_k := k3\<rparr>))"
  proof -
    have e: "pdbg 15 (?c + 1) (255, 0, 0) p = Some (p\<lparr>pl_k := k1\<rparr>)"
      "pdbg 16 (?c + 1) (0, 0, 255) (p\<lparr>pl_k := set_proc ?c (ProcInfo_new ?c st) k1\<rparr>) = Some (p\<lparr>pl_k := k2\<rparr>)"
      "pdbg 17 (?c + 1) (255, 0, 255) (on_cpu ?c f (p\<lparr>pl_k := k2\<rparr>)) = Some (on_cpu ?c f (p\<lparr>pl_k := k3\<rparr>))" for f
      using scr s h by (simp_all add: pdbg_draw [where w = 114 and h = h] k1_def k2_def k3_def on_cpu_def set_proc_def)
    have "k_procs k2 ?c \<noteq> None" by (simp add: k2_def set_proc_def)
    then show ?thesis using c t a e by (auto simp: wakeup_pinfo_def Let_def add64_def virt_try_new_eq)
  qed
  ultimately show ?thesis by (intro exI [of _ k3]) (simp add: k3_def k2_def k1_def set_proc_def)
qed

lemma wakeup_late_ok:
  assumes scr: "screen_ok 114 h (pl_k p)" and c: "e_core E < 256" and h: "21 + e_core E \<le> h" and l: "is_primary (e_core E) (pl_k p) \<or> pl_late p"
  shows "\<exists>k'. wakeup_late E p = Some (Loops, p\<lparr>pl_k := k', pl_late := True\<rparr>) \<and> only_devices (pl_k p) k' \<and> k_lapic k' = k_lapic (pl_k p) \<and>
    screen_ok 114 h k'"
proof -
  let ?c = "e_core E"
  define k0 where "k0 = (if is_primary ?c (pl_k p) then draw 0 5 (255, 255, 255) (pl_k p) else pl_k p)"
  define k1 where "k1 = draw 5 (?c + 1) (255, 128, 128) (draw 5 0 (255, 128, 128) k0)"
  have s: "screen_ok 114 h k0" "only_devices (pl_k p) k0" "k_lapic k0 = k_lapic (pl_k p)"
    using scr by (simp_all add: k0_def only_devicesI)
  have "pl_late p \<Longrightarrow> p\<lparr>pl_k := k1\<rparr> = p\<lparr>pl_k := k1, pl_late := True\<rparr>" by (cases p) simp
  then have "wakeup_late E p = Some (Loops, p\<lparr>pl_k := k1, pl_late := True\<rparr>)"
    using scr s(1) c l h
    by (cases "is_primary ?c (pl_k p)")
      (simp_all add: wakeup_late_def late_start_def add64_def pdbg_draw [where w = 114 and h = h] k0_def k1_def)
  with s show ?thesis by (intro exI [of _ k1]) (simp add: k1_def)
qed

lemma wakeup_ok:
  assumes pre: "wake_pre X h E st p"
  shows "\<exists>p' ws. wakeup E X G p = Some (Loops, p') \<and> core_ready E st p p' \<and> screen_ok 114 h (pl_k p') \<and>
    pl_late p' \<and> pl_mapped p' \<and> pl_proc_table p' \<and> pl_ignition p' = pl_ignition p \<and> pl_apic p' = pl_apic p \<and>
    k_lapic (pl_k p') (e_core E) = k_lapic (pl_k p) (e_core E) @ apic_writes (wake_quantum E) @ ws \<and> set (map fst ws) \<subseteq> {0x350, 0x360}"
proof -
  note P = pre [unfolded wake_pre_def env_ok_def]
  let ?c = "e_core E" and ?q = "wake_quantum E"
  let ?pi = "ProcInfo_new ?c st" and ?kg = "(pl_k p)\<lparr>k_gdt := (k_gdt (pl_k p))(e_core E := selectors)\<rparr>"
  obtain p1 where w1: "wakeup_tables E X G p = Some (st, p1)" "screen_ok 114 h (pl_k p1)"
    and d1: "only_devices ?kg (pl_k p1)" and g1: "pl_gdt p1 ?c \<noteq> None" "pl_stack p1 ?c = st" "tss_ready ?c st (pl_tss p1 ?c)"
    and c1: "pl_cpu p1 = (pl_cpu p)(?c := (pl_cpu p ?c)\<lparr>cpu_gdt := pl_gdt p1 ?c, cpu_cs := 0x08, cpu_ss := 0x10, cpu_ds := 0x10,
      cpu_es := 0x10, cpu_fs := 0x10, cpu_gs := 0x10, cpu_tr := 0x28\<rparr>)"
    and o1: "\<forall>c. c \<noteq> ?c \<longrightarrow> pl_gdt p1 c = pl_gdt p c \<and> pl_tss p1 c = pl_tss p c \<and> pl_stack p1 c = pl_stack p c"
    and f1: "pl_apic p1 = pl_apic p" "pl_proc_table p1 = pl_proc_table p" "pl_late p1 = pl_late p"
      "k_mem (pl_k p1) = k_mem (pl_k p)" "k_lapic (pl_k p1) = k_lapic (pl_k p)"
      "pl_mapped p1 = pl_mapped p" "pl_ignition p1 = pl_ignition p"
    using wakeup_tables_ok [OF pre] by blast
  have t1: "?c < 256" "pl_proc_table p1" "canonical (e_pinfo_adr E)" "canonical (e_syscall_adr E)" and h: "21 + ?c \<le> h" using P f1 by simp_all
  obtain k2 where w2: "wakeup_pinfo E X st p1 = Some (on_cpu ?c (\<lambda>c. c\<lparr>cpu_kernel_gs_base := e_pinfo_adr E\<rparr>) (p1\<lparr>pl_k := k2\<rparr>))"
    and s2: "screen_ok 114 h k2" and d2: "only_devices (set_proc ?c ?pi (pl_k p1)) k2"
    and f2: "k_mem k2 = k_mem (pl_k p1)" "k_lapic k2 = k_lapic (pl_k p1)"
    using wakeup_pinfo_ok [OF w1(2) t1(1) h t1(2,3)] by blast
  define p2 where "p2 = on_cpu ?c (\<lambda>c. c\<lparr>cpu_kernel_gs_base := e_pinfo_adr E\<rparr>) (p1\<lparr>pl_k := k2\<rparr>)"
  have e2: "pl_k p2 = k2" "pl_apic p2 = pl_apic p" "pl_mapped p2 = pl_mapped p" by (simp_all add: p2_def on_cpu_def f1)
  have k2: "k_procs k2 ?c = Some ?pi" "k_gdt k2 ?c = selectors" "k_bspid k2 = k_bspid (pl_k p)"
    using only_devicesD [OF d2] only_devicesD [OF d1] by (simp_all add: set_proc_def)
  have ap: "?c = k_bspid k2 \<Longrightarrow> map_pre X APIC_VBASE APIC_BASE 1 {} (k_mem k2)"
    using P f1 f2 k2(3) by (simp add: is_primary_def)
  have mp: "?c = k_bspid k2 \<or> pl_mapped p" using P k2(3) by (auto simp: is_primary_def)
  have cc: "calib_ok (e_reads E) (e_t0 E) (e_t1 E)" "\<forall>cfg \<in> set (once [] (APIC_CONFIG (pl_apic p))). nmi_pin cfg \<le> 1" using P by simp_all
  have b: "20 + ?c < h" "20 + ?c < 2 ^ 64" using t1(1) h by simp_all
  obtain k3 io ws where w3: "apic_init X ?c (pl_mapped p) (e_isvm E) (e_reads E) (e_t0 E) (e_t1 E) (APIC_CONFIG (pl_apic p)) k2 = Some (Some ?q, k3, io)"
    and s3: "screen_ok 114 h k3" and d3: "only_devices k2 k3"
    and l3: "k_lapic k3 = (k_lapic k2)(?c := k_lapic k2 ?c @ apic_writes ?q @ ws)" "set (map fst ws) \<subseteq> {0x350, 0x360}"
    using apic_init_ok [OF s2 le_refl b ap mp cc, of "e_isvm E"] unfolding wake_quantum_def by blast
  define p3 where "p3 = p2\<lparr>pl_k := k3, pl_ports := pl_ports p2 @ io, pl_mapped := pl_mapped p \<or> is_primary ?c k2\<rparr>"
  define k4 where "k4 = set_proc ?c (?pi\<lparr>schedule_quantum := ?q\<rparr>) k3"
  define k5 where "k5 = draw 19 (?c + 1) (255, 0, 255) (draw 18 (?c + 1) (255, 255, 0) k4)"
  define k6 where "k6 = draw 20 (?c + 1) (255, 255, 0) k5"
  define p5 where "p5 = on_cpu ?c (\<lambda>c. c\<lparr>cpu_idt := True\<rparr>) (p3\<lparr>pl_k := k5\<rparr>)"
  define p6 where "p6 = on_cpu ?c (\<lambda>c. c\<lparr>cpu_lstar := e_syscall_adr E, cpu_star := (0x13, 0x08), cpu_sce := True\<rparr>) (p5\<lparr>pl_k := k6\<rparr>)"
  have s4: "screen_ok 114 h k4" "screen_ok 114 h k5" "screen_ok 114 h k6" using s3 by (simp_all add: k4_def k5_def k6_def set_proc_def)
  have g5: "k_gdt (pl_k p5) ?c = selectors" using k2(2) only_devicesD(1) [OF d3] by (simp add: p5_def on_cpu_def k5_def k4_def set_proc_def)
  have e6: "pl_k p6 = k6" "pl_late p6 = pl_late p" by (simp_all add: p6_def p5_def p3_def p2_def on_cpu_def f1)
  have "is_primary ?c (pl_k p6) \<or> pl_late p6"
    using P only_devicesD(5) [OF d3] k2(3) by (auto simp: e6 is_primary_def k6_def k5_def k4_def set_proc_def)
  then obtain k7 where w7: "wakeup_late E p6 = Some (Loops, p6\<lparr>pl_k := k7, pl_late := True\<rparr>)" "only_devices k6 k7" "k_lapic k7 = k_lapic k6" "screen_ok 114 h k7"
    using wakeup_late_ok [where E = E and p = p6 and h = h] s4(3) t1(1) h unfolding e6 by blast
  define p7 where "p7 = p6\<lparr>pl_k := k7, pl_late := True\<rparr>"
  have run: "wakeup E X G p = Some (Loops, p7)"
  proof -
    have e: "pdbg 18 (?c + 1) (255, 255, 0) (p3\<lparr>pl_k := k4\<rparr>) = Some (p3\<lparr>pl_k := draw 18 (?c + 1) (255, 255, 0) k4\<rparr>)"
      "pdbg 19 (?c + 1) (255, 0, 255) (on_cpu ?c (\<lambda>c. c\<lparr>cpu_idt := True\<rparr>) (p3\<lparr>pl_k := draw 18 (?c + 1) (255, 255, 0) k4\<rparr>)) = Some p5"
      using s4(1) h by (simp_all add: pdbg_draw [where w = 114 and h = h] p5_def k5_def on_cpu_def)
    have "enable X G ?c (e_syscall_adr E) p5 =
        Some (on_cpu ?c (\<lambda>c. c\<lparr>cpu_lstar := e_syscall_adr E, cpu_star := (0x13, 0x08), cpu_sce := True\<rparr>) p5)"
      using enable_ok [OF g5] t1(4) by (simp add: virt_try_new_eq)
    moreover have "pdbg 20 (?c + 1) (255, 255, 0)
        (on_cpu ?c (\<lambda>c. c\<lparr>cpu_lstar := e_syscall_adr E, cpu_star := (0x13, 0x08), cpu_sce := True\<rparr>) p5) = Some p6"
      using s4(2) h by (simp add: pdbg_draw [where w = 114 and h = h] p6_def k6_def p5_def on_cpu_def)
    moreover have "k_procs k3 ?c = Some ?pi" "add64 ?c 1 = Some (?c + 1)"
      using k2(1) only_devicesD(2) [OF d3] t1(1) by (simp_all add: add64_def)
    ultimately show ?thesis using w1(1) w2 w3 w7(1) e e2
      by (simp add: wakeup_def Let_def p2_def [symmetric] k4_def [symmetric] p3_def p7_def)
  qed
  have "only_devices (?kg\<lparr>k_procs := (k_procs (pl_k p))(?c \<mapsto> ?pi\<lparr>schedule_quantum := ?q\<rparr>)\<rparr>) k4"
  proof -
    let ?u = "\<lambda>k. k\<lparr>k_procs := (k_procs (pl_k p))(?c \<mapsto> ?pi\<lparr>schedule_quantum := ?q\<rparr>)\<rparr>"
    have u1: "only_devices (?u ?kg) (?u (pl_k p1))" by (rule only_devices_cong(2) [OF d1])
    have u2: "only_devices (?u (pl_k p1)) (?u k2)"
      using only_devices_cong(2) [OF d2, of "(k_procs (pl_k p))(?c \<mapsto> ?pi\<lparr>schedule_quantum := ?q\<rparr>)"] by (simp add: set_proc_def)
    have u3: "only_devices (?u k2) (?u k3)" by (rule only_devices_cong(2) [OF d3])
    have "?u k3 = k4"
      using only_devicesD(2) [OF d3] only_devicesD(2) [OF d2] only_devicesD(2) [OF d1] by (simp add: k4_def set_proc_def)
    with only_devices_trans [OF only_devices_trans [OF u1 u2] u3] show ?thesis by simp
  qed
  then have "only_devices (?kg\<lparr>k_procs := (k_procs (pl_k p))(?c \<mapsto> ?pi\<lparr>schedule_quantum := ?q\<rparr>)\<rparr>) k7"
    using only_devices_trans [OF _ w7(2)] by (simp add: k6_def k5_def)
  moreover have l7: "k_lapic k7 = (k_lapic (pl_k p))(?c := k_lapic (pl_k p) ?c @ apic_writes ?q @ ws)"
    using l3(1) f1(5) f2(2) w7(3) by (simp add: k6_def k5_def k4_def set_proc_def)
  moreover have "cpu_ready E (pl_gdt p7 ?c) (pl_cpu p7 ?c)" "pl_stack p7 ?c = st" "tss_ready ?c st (pl_tss p7 ?c)"
    "\<forall>c. c \<noteq> ?c \<longrightarrow> same_core c p p7"
    using g1 c1 o1 l7 by (simp_all add: cpu_ready_def same_core_def p7_def p6_def p5_def p3_def p2_def on_cpu_def)
  moreover have "pl_k p7 = k7" "pl_late p7" "pl_mapped p7" "pl_proc_table p7" "pl_ignition p7 = pl_ignition p" "pl_apic p7 = pl_apic p"
    using f1 t1(2) mp by (auto simp: p7_def p6_def p5_def p3_def p2_def on_cpu_def is_primary_def)
  ultimately show ?thesis using run l3(2) w7(4) by (intro exI [of _ p7] exI [of _ ws]) (simp add: core_ready_def Let_def)
qed

end

interpretation ready: crates x86_ref gdt_ref length
  by unfold_locales


text \<open>A machine with one core, for the witness.\<close>

definition demo_platform :: "Descriptor option list platform" where
  "demo_platform = \<lparr>pl_k = demo_kernel\<lparr>k_fb := Some (demo_fb\<lparr>fb_width := 640, fb_height := 480, fb_scanline := 2560\<rparr>)\<rparr>,
     pl_heap = heap_new, pl_idt = interrupts_init Map.empty,
     pl_apic = \<lparr>a_mem = big_machine, NUMCORES = 1, APIC_CONFIG = Some [NmiAll 1 5], IOAPIC = None, IOAPIC_REDIRECTION = None\<rparr>,
     pl_handlers = None, pl_ports = [], pl_gdt = Map.empty, pl_tss = (\<lambda>_. tss_new gdt_ref), pl_stack = (\<lambda>_. 0),
     pl_cpu = (\<lambda>_. \<lparr>cpu_gdt = None, cpu_cs = 0, cpu_ss = 0, cpu_ds = 0, cpu_es = 0, cpu_fs = 0, cpu_gs = 0, cpu_tr = 0,
       cpu_kernel_gs_base = 0, cpu_lstar = 0, cpu_star = (0, 0), cpu_sce = False, cpu_idt = False\<rparr>),
     pl_proc_table = True, pl_ignition = True, pl_late = False, pl_mapped = False\<rparr>"

definition demo_env :: env where
  "demo_env = \<lparr>e_core = 0, e_xptr = 0xFFFFFFFFFFFFFF00, e_stack_size = 2 ^ 12, e_pinfo_adr = 0xFFFF808000000100,
     e_syscall_adr = 0xFFFFFFFFFFE02000, e_isvm = True, e_reads = [(0xFF, 0xFF), (0, 0)], e_t0 = 100000, e_t1 = 50000\<rparr>"

lemma demo_wake_pre: "wake_pre x86_ref 21 demo_env 0 demo_platform"
proof -
  have "calib_ok [(0xFF, 0xFF), (0, 0)] 100000 50000"
    unfolding calib_ok_def by (intro conjI exI [of _ "(0xFF, 0xFF)"] exI [of _ "[]"] exI [of _ "(0, 0)"])
      (simp_all add: pit_value_def pit_delay_def QUANTUM_MS_def)
  moreover have "stack x86_ref 0xFFFFFFFFFFFFFF00 (2 ^ 12) = Some 0"
    using ref.stack_eq [of 12 0 "0xFFFFFFFFFFFFFF00"] by (simp add: boot_stack_def)
  moreover have "map_pre x86_ref APIC_VBASE APIC_BASE 1 {} big_machine"
    using big_machine_inv demo_vc_map(5) big_free_frames(1)
    by (simp add: map_pre_def range_ok_def big_path_ok APIC_VBASE_def APIC_BASE_def KVMSPACE_def)
  ultimately show ?thesis
    by (simp add: wake_pre_def env_ok_def demo_env_def demo_platform_def demo_kernel_def is_primary_def screen_ok_def)
      (simp add: fb_ok_def demo_fb_def canonical_def once_def)
qed


section \<open>Tables that overlap\<close>

text \<open>
  The table of task state segments starts where the stacks for non-maskable interrupts start: the
  segments of the first 78 cores lie in the stack of core 0.
\<close>

lemma tss_in_nmi_stack:
  assumes "gdt_crate G used" "core < 78"
  shows "NMI_STACKS_VPTR \<le> tss_address G core" "tss_address G core + size_tss G \<le> NMI_STACKS_VPTR + ERROR_STACK_SIZE"
  using assms(2) gdt_crate.size_tss_eq [OF assms(1)]
  by (simp_all add: tss_address_def TSS_TABLE_PTR_def NMI_STACKS_VPTR_def)

end
