(* ===== verification/Virt_Init.thy ===== *)
theory Virt_Init
  imports Mem
begin

text \<open>
  The start of virtual memory: \<open>vcache::init\<close> of \<open>kernel/src/mem/virt/vcache.rs\<close>, \<open>map_header\<close> of
  \<open>kernel/src/mem/phys.rs\<close>, and \<open>virt::init\<close>, which runs them with \<open>mapper::init\<close> and
  \<open>mapper::remove_identity\<close>. Until the last of these the boot loader's identity mapping is in place
  and the code reaches a table at its physical address. From the end of \<open>vcache::init\<close> on, the
  content of the four tables of the cache is \<open>vc_p1\<close>.
\<close>

section \<open>The cache of windows\<close>

text \<open>An entry of a table in the identity mapping, filled with a new table when it is unused.\<close>

definition init_entry :: "x86 \<Rightarrow> nat \<Rightarrow> nat \<Rightarrow> machine \<Rightarrow> (nat \<times> machine) option" where
  "init_entry X t i m = do {
     e \<leftarrow> read_entry X (Ident t i) m;
     m \<leftarrow> (if pte_is_unused X e then do {
         (_, m) \<leftarrow> alloc_substruct X (Ident t i) {WRITABLE, PRESENT} True m;
         Some m }
       else Some m);
     e \<leftarrow> read_entry X (Ident t i) m;
     frame \<leftarrow> pte_frame X e;
     Some (frame, m) }"

definition init_p2_entry :: "x86 \<Rightarrow> nat \<Rightarrow> nat \<Rightarrow> machine \<Rightarrow> machine option" where
  "init_p2_entry X p2 i m = do {
     e \<leftarrow> read_entry X (Ident p2 i) m;
     _ \<leftarrow> rassert (pte_is_unused X e);
     (_, m) \<leftarrow> alloc_substruct X (Ident p2 i) {WRITABLE, PRESENT} True m;
     Some m }"

definition table_entries :: "machine \<Rightarrow> nat \<Rightarrow> u64 list" where
  "table_entries m f = map (m_tables m f) [0..<512]"

text \<open>The tables of the cache are mapped into its own first windows.\<close>

definition map_own_table :: "x86 \<Rightarrow> nat \<Rightarrow> nat \<Rightarrow> VCache \<Rightarrow> VCache option" where
  "map_own_table X p1_frame i vc = do {
     a \<leftarrow> phys_add X p1_frame (i * 512 * 8);
     frame \<leftarrow> frame_from_start X a;
     (r, vc) \<leftarrow> vc_map X frame vc;
     p1_virtaddr \<leftarrow> r;
     expected \<leftarrow> virt_add X START_ADDR (PAGE_SIZE * i);
     _ \<leftarrow> rassert (p1_virtaddr = expected);
     Some vc }"

text \<open>
  The first table is the one the windows were entered in; the others are found behind it in
  physical memory.
\<close>

definition vcache_init :: "x86 \<Rightarrow> machine \<Rightarrow> machine option" where
  "vcache_init X m = do {
     (p3, m) \<leftarrow> init_entry X (m_cr3 m) (p4_index X START_ADDR) m;
     (p2, m) \<leftarrow> init_entry X p3 (p3_index X START_ADDR) m;
     m \<leftarrow> fold_opt (init_p2_entry X p2) [0..<P2PAGE_COUNT] m;
     e \<leftarrow> read_entry X (Ident p2 0) m;
     p1_frame \<leftarrow> pte_frame X e;
     vc \<leftarrow> fold_opt (map_own_table X p1_frame) [0..<P2PAGE_COUNT] (VCacheState_new [table_entries m p1_frame]);
     let tables = vc_p1 vc @ map (\<lambda>i. table_entries m (p1_frame + i * 4096)) [1..<P2PAGE_COUNT];
     Some (m\<lparr>m_vcache := vc\<lparr>vc_p1 := tables\<rparr>\<rparr>) }"

section \<open>The header of the frame allocator\<close>

definition PHYSHEADER_START :: nat where
  "PHYSHEADER_START = 0xFFFF804000000000"

fun offset_segments :: "nat \<Rightarrow> (nat \<times> segment) list \<Rightarrow> (nat \<times> segment) list option" where
  "offset_segments off [] = Some []"
| "offset_segments off ((p, s) # segs) = do {
     q \<leftarrow> add64 p off;
     rassert (q \<noteq> 0);
     segs \<leftarrow> offset_segments off segs;
     Some ((q, s) # segs) }"

definition map_header :: "x86 \<Rightarrow> machine \<Rightarrow> machine option" where
  "map_header X m = do {
     let pmm_frame = phyframe (m_phys m);
     let pmm_size = pfa_size (m_phys m);
     r \<leftarrow> vmap X PHYSHEADER_START pmm_frame pmm_size {WRITABLE} m;
     m \<leftarrow> unwrap_ok r;
     segment_offset \<leftarrow> sub64 PHYSHEADER_START pmm_frame;
     segs \<leftarrow> offset_segments segment_offset (segments (m_phys m));
     Some (m\<lparr>m_phys := (m_phys m)\<lparr>segments := segs\<rparr>\<rparr>) }"

definition virt_init :: "x86 \<Rightarrow> machine \<Rightarrow> machine option" where
  "virt_init X m = do {
     m \<leftarrow> vcache_init X m;
     m \<leftarrow> mapper_init X m;
     m \<leftarrow> map_header X m;
     remove_identity X m }"

text \<open>
  \<open>mem::init\<close> after the descriptor table and the early heap: the allocator, the address space, the
  heap.
\<close>

definition mem_init :: "x86 \<Rightarrow> BootBoot \<Rightarrow> machine \<Rightarrow> machine option" where
  "mem_init X bb m = do {
     phys \<leftarrow> phys_init X bb;
     m \<leftarrow> virt_init X (m\<lparr>m_phys := phys\<rparr>);
     heap_init X m }"

section \<open>What the allocator keeps\<close>

text \<open>Size and place of the header, and the places of the segments in it.\<close>

definition hdr :: "machine \<Rightarrow> nat \<times> nat \<times> nat list" where
  "hdr m = (pfa_size (m_phys m), phyframe (m_phys m), map fst (segments (m_phys m)))"

lemma alloc_segments_fst: "alloc_segments X segs = Some (r, segs') \<Longrightarrow> map fst segs' = map fst segs"
proof (induction segs arbitrary: r segs' rule: alloc_segments.induct)
  case (2 X p s rest)
  then show ?case
    by (cases "find_index (\<lambda>w. w \<noteq> - 1) (seg_bitmap s)") (auto simp: bind_Some_iff Let_def)
qed simp

lemma palloc_hdr: "palloc X m = Some (r, m') \<Longrightarrow> hdr m' = hdr m"
  using alloc_segments_fst by (fastforce simp: palloc_def allocate_frame_def bind_Some_iff hdr_def)

lemma write_entry_hdr: "write_entry X r e m = Some m' \<Longrightarrow> hdr m' = hdr m"
  by (auto simp: write_entry_def bind_Some_iff hdr_def)

lemma alloc_substruct_hdr: "alloc_substruct X r fl c m = Some (f, m') \<Longrightarrow> hdr m' = hdr m"
  using palloc_hdr write_entry_hdr
  by (fastforce simp: alloc_substruct_def bind_Some_iff Let_def fill_zero_def hdr_def split: if_splits)

lemma ensure_allocated_hdr:
  assumes "ensure_allocated X r page w m = Some m'"
  shows "hdr m' = hdr m"
proof -
  have v: "hdr (x\<lparr>m_vcache := vc\<rparr>) = hdr x" "hdr (fill_zero f x) = hdr x" for x vc f
    by (simp_all add: hdr_def fill_zero_def)
  from assms show ?thesis
    using alloc_substruct_hdr v by (auto simp: ensure_allocated_def bind_Some_iff Let_def split: if_splits)
qed

lemma set_p1_entry_hdr: "set_p1_entry X w a f fl m = Some m' \<Longrightarrow> hdr m' = hdr m"
  using write_entry_hdr by (fastforce simp: set_p1_entry_def bind_Some_iff hdr_def split: if_splits)

lemma map_step_hdr:
  assumes "map_step X page phys t0 t1 d i s = Some s'"
  shows "hdr (snd s') = hdr (snd s)"
proof -
  have v: "hdr (flush_page a x) = hdr x" for x a by (simp add: hdr_def flush_page_def)
  from assms show ?thesis
    unfolding map_step_def
    by (auto simp: bind_Some_iff Let_def v dest!: ensure_allocated_hdr set_p1_entry_hdr split: prod.splits)
qed

lemma kernel_map_hdr:
  assumes "kernel_map X page phys n fl m = Some (r, m')"
  shows "hdr m' = hdr m"
proof -
  have v: "hdr (x\<lparr>m_vcache := vc\<rparr>) = hdr x" "hdr (flush_all x) = hdr x" for x vc
    by (simp_all add: hdr_def flush_all_def)
  have loop: "hdr m2 = hdr m1"
    if "fold_opt (map_step X page phys t0 t1 d) is (fl1, m1) = Some (fl2, m2)" for t0 t1 d "is" fl1 fl2 m1 m2
    using fold_opt_inv [OF that, of "\<lambda>s. hdr (snd s) = hdr m1"] map_step_hdr by fastforce
  from assms show ?thesis unfolding kernel_map_def
    by (auto simp: bind_Some_iff Let_def v dest!: loop split: if_splits option.splits)
qed

section \<open>New tables in the identity mapping\<close>

text \<open>Entry \<open>i\<close> of the table at \<open>p\<close> now leads to a new empty table in the first free frame.\<close>

definition grown :: "x86 \<Rightarrow> nat \<Rightarrow> nat list \<Rightarrow> nat \<Rightarrow> machine \<Rightarrow> machine \<Rightarrow> bool" where
  "grown X i p f m m' \<longleftrightarrow>
     tree_ok X m' \<and> phys_inv (m_phys m') \<and> free_list (m_phys m') = tl (free_list (m_phys m)) \<and>
     hdr m' = hdr m \<and> m_cr3 m' = m_cr3 m \<and>
     (\<forall>q. tpath q \<longrightarrow> node X m' q = (if q = i # p then Some f else node X m q)) \<and>
     (\<forall>q j. tpath q \<and> (q, j) \<noteq> (p, i) \<longrightarrow> ent X m' j q = ent X m j q)"

lemma grownD:
  assumes "grown X i p f m m'"
  shows "tree_ok X m'" "phys_inv (m_phys m')" "free_list (m_phys m') = tl (free_list (m_phys m))"
    "hdr m' = hdr m" "m_cr3 m' = m_cr3 m" "tpath q \<Longrightarrow> node X m' q = (if q = i # p then Some f else node X m q)"
    "tpath q \<Longrightarrow> (q, j) \<noteq> (p, i) \<Longrightarrow> ent X m' j q = ent X m j q"
  using assms unfolding grown_def by blast+

context x86_crate
begin

lemma alloc_ident:
  assumes tree: "tree_ok X m" and inv: "phys_inv (m_phys m)" and fl: "free_list (m_phys m) = f # fs"
    and p: "tpath (i # p)" "node X m p = Some t" "m_tables m t i = 0"
  shows "\<exists>m'. alloc_substruct X (Ident t i) {WRITABLE, PRESENT} True m = Some (f, m') \<and> grown X i p f m m'"
proof -
  obtain ph where ph: "allocate_frame X (m_phys m) = Some (Some f, ph)" "free_list ph = fs" "phys_inv ph"
    using allocate_frame_spec [OF inv] fl by (metis list.sel(3) list.simps(5))
  have ff: "f \<in> free_frames (m_phys m)" using fl by (simp add: free_frames_def)
  then have fok: "page_aligned f" "f < 2 ^ 52" using managed_frame [OF inv] free_subset_managed by blast+
  define e where "e = pte_set_frame X 0 f {WRITABLE, PRESENT}"
  have e: "pte_frame X e = Some f" unfolding e_def by (rule pte_frame_set_frame [OF fok]) auto
  have p': "tpath p" using p(1) by (simp add: tpath_Cons)
  have ne: "f \<noteq> t" using tree_okD(1) [OF tree p' p(2)] ff by auto
  define m' where "m' = m\<lparr>m_phys := ph, m_tables := (m_tables m)(t := (m_tables m t)(i := e), f := (\<lambda>_. 0))\<rparr>"
  have m': "m_tables m' = (m_tables m)(t := (m_tables m t)(i := e), f := (\<lambda>_. 0))" "m_cr3 m' = m_cr3 m" "m_phys m' = ph"
    by (simp_all add: m'_def)
  have run: "alloc_substruct X (Ident t i) {WRITABLE, PRESENT} True m = Some (f, m')"
    using ph(1) ne by (simp add: alloc_substruct_def palloc_def write_entry_def fill_zero_def pte_new_eq m'_def e_def fun_upd_twist)
  have "f \<notin> set fs" using distinct_free_list [OF inv] fl by simp
  then have "free_frames (m_phys m') = free_frames (m_phys m) - {f}" using fl ph(2) m'(3) by (simp add: free_frames_def)
  from grow_tree [OF tree p ff e m'(1,2) this] grow_write [OF tree p ff e m'(1,2)] ph m' fl alloc_substruct_hdr [OF run]
  have "grown X i p f m m'" unfolding grown_def by auto
  with run show ?thesis by blast
qed

lemma init_entry_ok:
  assumes "tree_ok X m" "phys_inv (m_phys m)" "free_list (m_phys m) = f # fs"
    and p: "tpath (i # p)" "node X m p = Some t" "m_tables m t i = 0"
  shows "\<exists>m'. init_entry X t i m = Some (f, m') \<and> grown X i p f m m'"
proof -
  obtain m' where m': "alloc_substruct X (Ident t i) {WRITABLE, PRESENT} True m = Some (f, m')" "grown X i p f m m'"
    using alloc_ident [OF assms] by blast
  have "tpath p" "p \<noteq> i # p" using p(1) by (simp_all add: tpath_Cons)
  then have "node X m' p = Some t" "node X m' (i # p) = Some f"
    using grownD(6) [OF m'(2), of p] grownD(6) [OF m'(2) p(1)] p by (simp_all del: node.simps)
  then have "pte_frame X (m_tables m' t i) = Some f" by simp
  with m' p(3) show ?thesis by (simp add: init_entry_def read_entry_def pte_is_unused_eq)
qed

lemma init_p2_entry_ok:
  assumes "tree_ok X m" "phys_inv (m_phys m)" "free_list (m_phys m) = f # fs"
    and p: "tpath (i # p)" "node X m p = Some t" "m_tables m t i = 0"
  shows "\<exists>m'. init_p2_entry X t i m = Some m' \<and> grown X i p f m m'"
  using alloc_ident [OF assms] p(3) by (auto simp: init_p2_entry_def read_entry_def pte_is_unused_eq)

lemma ent_no_node: "node X m p = None \<Longrightarrow> ent X m i p = 0"
  by (simp add: ent_def)

text \<open>The loop over the entries of the second-level table.\<close>

lemma init_p2_loop:
  assumes m: "tree_ok X m" "phys_inv (m_phys m)" "free_list (m_phys m) = gs @ rest"
    and p: "tpath p" "length p = 2" "node X m p = Some t" "\<forall>i<512. m_tables m t i = 0" and k: "k \<le> length gs" "k \<le> 512"
  shows "\<exists>m'. fold_opt (init_p2_entry X t) [0..<k] m = Some m' \<and>
    tree_ok X m' \<and> phys_inv (m_phys m') \<and> free_list (m_phys m') = drop k gs @ rest \<and> hdr m' = hdr m \<and> m_cr3 m' = m_cr3 m \<and>
    (\<forall>q. tpath q \<longrightarrow> node X m' q = (if \<exists>i<k. q = i # p then Some (gs ! hd q) else node X m q)) \<and>
    (\<forall>q j. tpath q \<and> \<not> (q = p \<and> j < k) \<longrightarrow> ent X m' j q = ent X m j q)"
  using k
proof (induction k)
  case 0
  then show ?case using m by simp
next
  case (Suc k)
  then obtain m1 where m1: "fold_opt (init_p2_entry X t) [0..<k] m = Some m1" "tree_ok X m1" "phys_inv (m_phys m1)"
    "free_list (m_phys m1) = drop k gs @ rest" "hdr m1 = hdr m" "m_cr3 m1 = m_cr3 m"
    "\<And>q. tpath q \<Longrightarrow> node X m1 q = (if \<exists>i<k. q = i # p then Some (gs ! hd q) else node X m q)"
    "\<And>q j. tpath q \<Longrightarrow> \<not> (q = p \<and> j < k) \<Longrightarrow> ent X m1 j q = ent X m j q" by fastforce
  have fl: "free_list (m_phys m1) = gs ! k # (drop (Suc k) gs @ rest)"
    using m1(4) Suc.prems(1) by (simp add: Cons_nth_drop_Suc [symmetric])
  have tp: "tpath (k # p)" using p(1,2) Suc.prems(2) by (simp add: tpath_Cons)
  have t1: "node X m1 p = Some t" using m1(7) [OF p(1)] p(3) by auto
  have z: "m_tables m1 t k = 0" using m1(8) [OF p(1), of k] p(3,4) t1 Suc.prems(2) by (simp add: ent_def)
  obtain m2 where m2: "init_p2_entry X t k m1 = Some m2" "grown X k p (gs ! k) m1 m2"
    using init_p2_entry_ok [OF m1(2,3) fl tp t1 z] by blast
  note g = grownD [OF m2(2)]
  have nd: "node X m2 q = (if \<exists>i<Suc k. q = i # p then Some (gs ! hd q) else node X m q)" if "tpath q" for q
    using g(6) [OF that] m1(7) [OF that] by (auto simp: less_Suc_eq)
  have en: "ent X m2 j q = ent X m j q" if "tpath q" "\<not> (q = p \<and> j < Suc k)" for q j
    using g(7) [OF that(1), of j] m1(8) [OF that(1), of j] that(2) by auto
  from m1(1) m2(1) g(1-5) m1(5,6) fl nd en show ?case
    by (intro exI [of _ m2]) (simp add: fold_opt_append)
qed

end

section \<open>The windows of the cache's own tables\<close>

text \<open>The cache after the first \<open>n\<close> of the frames from \<open>p\<close> on have been mapped.\<close>

definition own_table :: "x86 \<Rightarrow> nat \<Rightarrow> nat \<Rightarrow> u64 list" where
  "own_table X p n = map (\<lambda>j. if j < n then window_pte X (p + j * 4096) else 0) [0..<512]"

definition own_cache :: "x86 \<Rightarrow> nat \<Rightarrow> nat \<Rightarrow> u64 list list \<Rightarrow> VCache" where
  "own_cache X p n rest = \<lparr>vc_p1 = own_table X p n # rest, p2_freecount = [512 - n, 512, 512, 512],
     p2_lazycount = [0, 0, 0, 0], p1_age = replicate 4 (replicate 512 0), vc_stale = {}\<rparr>"

lemma own_table_nth: "j < 512 \<Longrightarrow> own_table X p n ! j = (if j < n then window_pte X (p + j * 4096) else 0)"
  by (simp add: own_table_def del: upt_rec_numeral)

lemma own_table_length [simp]: "length (own_table X p n) = 512"
  by (simp add: own_table_def)

lemma own_table_Suc: "n < 512 \<Longrightarrow> (own_table X p n)[n := window_pte X (p + n * 4096)] = own_table X p (Suc n)"
  by (rule nth_equalityI) (auto simp: own_table_nth nth_list_update_If)

lemma own_cache_Suc: "n < 512 \<Longrightarrow> occupy X (p + n * 4096) 0 n (own_cache X p n rest) = own_cache X p (Suc n) rest"
  by (simp add: occupy_def own_cache_def own_table_Suc)

lemma replicate_4: "replicate 4 x = [x, x, x, x]" "replicate 3 x = [x, x, x]"
  by (simp_all add: numeral_eq_Suc)

lemma own_table_0: "own_table X p 0 = replicate 512 0"
  by (simp add: own_table_def map_replicate_const del: upt_rec_numeral)

lemma own_cache_0: "own_cache X p 0 rest = VCacheState_new (replicate 512 0 # rest)"
  by (simp only: own_cache_def VCacheState_new_def own_table_0 replicate_4 P2PAGE_COUNT_def P1PAGE_COUNT_def) (simp add: replicate_4)

context x86_crate
begin

lemma own_free:
  assumes "n < 512" "page_aligned p" "p + n * 4096 \<le> 2 ^ 52"
  shows "List.find (\<lambda>j. \<not> entry_present X (own_table X p n ! j)) [0..<512] = Some n"
proof -
  have "entry_present X (own_table X p n ! j)" if "j < n" for j
    using window_pte(1) [of "p + j * 4096"] that assms by (simp add: own_table_nth)
  moreover have "\<not> entry_present X (own_table X p n ! n)"
    using assms(1) by (simp add: own_table_nth entry_present_def pte_flags_unused)
  ultimately show ?thesis using assms(1) by (simp add: find_upt_Some del: upt_rec_numeral)
qed

text \<open>This holds while the cache has only its first table.\<close>

lemma vc_map_own:
  assumes "n < 512" "page_aligned p" "p + n * 4096 \<le> 2 ^ 52"
  shows "vc_map X (p + n * 4096) (own_cache X p n rest) = Some (Some (win_page 0 n), own_cache X p (Suc n) rest)"
proof -
  let ?vc = "own_cache X p n rest"
  have f: "scan_free ?vc [0..<4] None = Some (Some 0, Some 0)"
    using assms(1) by (subst scan_free_eq) (simp_all add: own_cache_def find_upt_Some del: upt_rec_numeral)
  have s: "scan_p1 X (?vc\<lparr>p2_freecount := fc\<rparr>) 0 [0..<512] = Some (Some n)" for fc
    using own_free [OF assms] by (subst scan_p1_first) (simp_all add: own_cache_def del: upt_rec_numeral)
  have a: "put2 (p1_age ?vc) 0 n 0 = Some (p1_age ?vc)"
    using assms(1) by (simp add: own_cache_def replicate_4 put2_def list_update_same_conv)
  have w: "write_p1 X 0 n (window_pte X (p + n * 4096)) (vc\<lparr>p2_freecount := fc\<rparr>) =
      Some (vc\<lparr>p2_freecount := fc, vc_p1 := own_table X p (Suc n) # rest, vc_stale := insert (win_page 0 n) (vc_stale vc)\<rparr>)"
    if "vc = ?vc" for vc fc
    using assms(1) that by (simp add: write_p1_def slot_page_eq own_cache_def own_table_Suc)
  have "map_in_table X (p + n * 4096) 0 None ?vc = Some (Some (win_page 0 n), own_cache X p (Suc n) rest)"
    using assms(1) w [OF refl] s a
    by (simp add: map_in_table_def slot_page_eq pte_new_eq window_pte_def [symmetric] del: upt_rec_numeral)
      (simp add: own_cache_def sub64_def flush_def)
  with f show ?thesis by (simp add: vc_map_def del: upt_rec_numeral)
qed

lemma own_cache_inv:
  assumes "n \<le> 512" "page_aligned p" "p + n * 4096 \<le> 2 ^ 52"
  shows "vc_inv X (own_cache X p n (replicate 3 (replicate 512 0)))" (is "vc_inv X (?c n)")
  using assms(1,3)
proof (induction n)
  case 0
  have "?c 0 = empty_vc" by (simp only: own_cache_0 empty_vc_def replicate_4)
  then show ?case using empty_vc_inv by simp
next
  case (Suc n)
  have "vc_inv X (occupy X (p + n * 4096) 0 n (?c n))"
    using Suc assms(2) by (intro occupy_props(1)) (auto simp: own_cache_def own_table_nth entry_present_def pte_flags_unused)
  then show ?case using Suc.prems(1) by (simp add: own_cache_Suc)
qed

lemma own_cache_win:
  "i < n \<Longrightarrow> n \<le> 512 \<Longrightarrow> page_aligned p \<Longrightarrow> p + n * 4096 \<le> 2 ^ 52 \<Longrightarrow>
   vc_win X (own_cache X p n rest) (win_page 0 i) = Some (p + i * 4096)"
  by (subst vc_win_page) (auto simp: own_cache_def own_table_nth intro!: window_pte(2))

lemma map_own_tables:
  assumes "page_aligned p" "p + 4 * 4096 \<le> 2 ^ 52" "k \<le> 4"
  shows "fold_opt (map_own_table X p) [0..<k] (own_cache X p 0 rest) = Some (own_cache X p k rest)"
  using assms(3)
proof (induction k)
  case (Suc k)
  have "map_own_table X p k (own_cache X p k rest) = Some (own_cache X p (Suc k) rest)"
    using Suc.prems assms vc_map_own [of k p rest]
    by (simp add: map_own_table_def crate_eqs START_ADDR_def win_page_def canonical_def KVMSPACE_def mult.commute)
  with Suc show ?case by (simp add: fold_opt_append)
qed simp

end

section \<open>\<open>vcache::init\<close>\<close>

text \<open>
  What the boot loader has to leave: no mapping where the cache goes, page tables that are a
  tree outside the free frames, and four consecutive frames behind the first two free ones.
\<close>

definition cache_frames :: "nat \<Rightarrow> nat list" where
  "cache_frames g = [g, g + 4096, g + 8192, g + 12288]"

lemma cache_frames_nth: "i < 4 \<Longrightarrow> cache_frames g ! i = g + i * 4096"
proof -
  assume "i < 4"
  then consider "i = 0" | "i = 1" | "i = 2" | "i = 3" by linarith
  then show ?thesis by cases (simp_all add: cache_frames_def)
qed

lemma cache_frames_length [simp]: "length (cache_frames g) = 4"
  by (simp add: cache_frames_def)

context x86_crate
begin

lemma start_index: "p4_index X START_ADDR = 256" "p3_index X START_ADDR = 0"
  by (simp_all add: p4_index_eq p3_index_eq START_ADDR_def KVMSPACE_def)

lemma table_entries_zero:
  assumes "node X m p = Some t" "\<forall>j. ent X m j p = 0"
  shows "table_entries m t = replicate 512 0"
proof -
  have "m_tables m t = (\<lambda>_. 0)" using assms by (simp add: ent_def fun_eq_iff)
  then show ?thesis by (simp add: table_entries_def map_replicate_const del: upt_rec_numeral)
qed

text \<open>The three levels of tables.\<close>

lemma init_tables:
  assumes m: "tree_ok X m" "phys_inv (m_phys m)" "m_tables m (m_cr3 m) 256 = 0"
    and fl: "free_list (m_phys m) = f0 # f1 # gs @ rest" and gs: "length gs = 4"
  shows "\<exists>m1 m2 m3. init_entry X (m_cr3 m) 256 m = Some (f0, m1) \<and> init_entry X f0 0 m1 = Some (f1, m2) \<and>
    fold_opt (init_p2_entry X f1) [0..<4] m2 = Some m3 \<and>
    tree_ok X m3 \<and> phys_inv (m_phys m3) \<and> free_list (m_phys m3) = rest \<and> hdr m3 = hdr m \<and> m_cr3 m3 = m_cr3 m \<and>
    node X m3 [256] = Some f0 \<and> node X m3 [0, 256] = Some f1 \<and> (\<forall>i<4. node X m3 [i, 0, 256] = Some (gs ! i)) \<and>
    (\<forall>i<4. \<forall>j. ent X m3 j [i, 0, 256] = 0) \<and>
    (\<forall>j. j \<noteq> 0 \<longrightarrow> ent X m3 j [256] = 0) \<and> (\<forall>j. 4 \<le> j \<longrightarrow> ent X m3 j [0, 256] = 0) \<and>
    (\<forall>j. j \<noteq> 256 \<longrightarrow> ent X m3 j [] = ent X m j [])"
proof -
  have tps: "tpath [256]" "tpath [0, 256]" "i < 4 \<Longrightarrow> tpath [i, 0, 256]" for i by (auto simp: tpath_def)
  have n0: "node X m [256] = None" using m(3) by (simp add: pte_frame_unused)
  obtain m1 where m1: "init_entry X (m_cr3 m) 256 m = Some (f0, m1)" "grown X 256 [] f0 m m1"
    using init_entry_ok [OF m(1,2) fl tps(1) _ m(3)] by auto
  note g1 = grownD [OF m1(2)]
  have e1: "ent X m1 j [256] = 0" for j using g1(7) [OF tps(1), of j] ent_no_node [OF n0] by simp
  have f0: "node X m1 [256] = Some f0" using g1(6) [OF tps(1)] by (simp del: node.simps)
  have z1: "m_tables m1 f0 j = 0" for j using e1 [of j] f0 by (simp add: ent_def del: node.simps)
  have n1: "node X m1 [0, 256] = None" unfolding node_Cons_ent e1 by (rule pte_frame_unused)
  have fl1: "free_list (m_phys m1) = f1 # (gs @ rest)" using g1(3) fl by simp
  obtain m2 where m2: "init_entry X f0 0 m1 = Some (f1, m2)" "grown X 0 [256] f1 m1 m2"
    using init_entry_ok [OF g1(1,2) fl1 tps(2) f0 z1] by blast
  note g2 = grownD [OF m2(2)]
  have e2: "ent X m2 j [0, 256] = 0" for j using g2(7) [OF tps(2), of j] ent_no_node [OF n1] by simp
  have f1: "node X m2 [0, 256] = Some f1" "node X m2 [256] = Some f0"
    using g2(6) [OF tps(2)] g2(6) [OF tps(1)] f0 by (simp_all del: node.simps)
  have z2: "m_tables m2 f1 j = 0" for j using e2 [of j] f1 by (simp add: ent_def del: node.simps)
  have n2: "node X m2 [i, 0, 256] = None" for i unfolding node_Cons_ent [of _ i] e2 by (rule pte_frame_unused)
  have fl2: "free_list (m_phys m2) = gs @ rest" using g2(3) fl1 by simp
  have k: "4 \<le> length gs" "4 \<le> (512 :: nat)" using gs by simp_all
  obtain m3 where m3: "fold_opt (init_p2_entry X f1) [0..<4] m2 = Some m3" "tree_ok X m3" "phys_inv (m_phys m3)"
    "free_list (m_phys m3) = drop 4 gs @ rest" "hdr m3 = hdr m2" "m_cr3 m3 = m_cr3 m2"
    and nd: "\<And>q. tpath q \<Longrightarrow> node X m3 q = (if \<exists>i<4. q = i # [0, 256] then Some (gs ! hd q) else node X m2 q)"
    and en: "\<And>q j. tpath q \<Longrightarrow> \<not> (q = [0, 256] \<and> j < 4) \<Longrightarrow> ent X m3 j q = ent X m2 j q"
    using init_p2_loop [OF g2(1,2) fl2 tps(2) _ f1(1) _ k] z2 by (auto simp del: node.simps upt_rec_numeral)
  show ?thesis
  proof (rule exI [of _ m1], rule exI [of _ m2], rule exI [of _ m3], intro conjI allI impI)
    show "node X m3 [256] = Some f0" "node X m3 [0, 256] = Some f1" using nd [OF tps(1)] nd [OF tps(2)] f1 by simp_all
    show "node X m3 [i, 0, 256] = Some (gs ! i)" if "i < 4" for i using nd [OF tps(3) [OF that]] that by simp
    show "ent X m3 j [i, 0, 256] = 0" if "i < 4" for i j
      using en [OF tps(3) [OF that], of j] ent_no_node [OF n2] by simp
    show "ent X m3 j [256] = 0" if "j \<noteq> 0" for j
      using en [OF tps(1), of j] g2(7) [OF tps(1), of j] e1 that by simp
    show "ent X m3 j [0, 256] = 0" if "4 \<le> j" for j using en [OF tps(2), of j] e2 that by simp
    show "ent X m3 j [] = ent X m j []" if "j \<noteq> 256" for j
      using en [of "[]" j] g2(7) [of "[]" j] g1(7) [of "[]" j] that by simp
  qed (use m1(1) m2(1) m3 gs g1(4,5) g2(4,5) in simp_all)
qed

lemma vcache_init_ok:
  assumes m: "tree_ok X m" "phys_inv (m_phys m)" "m_tables m (m_cr3 m) 256 = 0"
    and fl: "free_list (m_phys m) = f0 # f1 # cache_frames g @ rest"
  shows "\<exists>m'. vcache_init X m = Some m' \<and> tree_ok X m' \<and> phys_inv (m_phys m') \<and> free_list (m_phys m') = rest \<and>
    hdr m' = hdr m \<and> m_cr3 m' = m_cr3 m \<and> m_vcache m' = own_cache X g 4 (replicate 3 (replicate 512 0)) \<and>
    page_aligned g \<and> g + 4 * 4096 \<le> 2 ^ 52 \<and>
    (\<forall>i<4. node X m' [i, 0, 256] = Some (g + i * 4096)) \<and>
    (\<forall>a. p4_index X a = 256 \<longrightarrow> path_ok X m' a) \<and> (\<forall>j. j \<noteq> 256 \<longrightarrow> ent X m' j [] = ent X m j [])"
proof -
  obtain m1 m2 m3 where r: "init_entry X (m_cr3 m) 256 m = Some (f0, m1)" "init_entry X f0 0 m1 = Some (f1, m2)"
      "fold_opt (init_p2_entry X f1) [0..<4] m2 = Some m3"
    and m3: "tree_ok X m3" "phys_inv (m_phys m3)" "free_list (m_phys m3) = rest" "hdr m3 = hdr m" "m_cr3 m3 = m_cr3 m"
    and nd: "node X m3 [256] = Some f0" "node X m3 [0, 256] = Some f1" "\<forall>i<4. node X m3 [i, 0, 256] = Some (cache_frames g ! i)"
    and en: "\<forall>i<4. \<forall>j. ent X m3 j [i, 0, 256] = 0" "\<forall>j. j \<noteq> 0 \<longrightarrow> ent X m3 j [256] = 0"
      "\<forall>j. 4 \<le> j \<longrightarrow> ent X m3 j [0, 256] = 0" "\<forall>j. j \<noteq> 256 \<longrightarrow> ent X m3 j [] = ent X m j []"
    using init_tables [OF m fl cache_frames_length] by blast
  have "set (cache_frames g) \<subseteq> free_frames (m_phys m)" using fl by (auto simp: free_frames_def)
  then have fr: "page_aligned g" "g + 12288 < 2 ^ 52"
    using managed_frame [OF m(2), of g] managed_frame [OF m(2), of "g + 12288"] free_subset_managed [of "m_phys m"]
    by (auto simp: cache_frames_def)
  then have g: "page_aligned g" "g + 4 * 4096 \<le> 2 ^ 52" by auto
  have te: "table_entries m3 (g + i * 4096) = replicate 512 0" if "i < 4" for i
    by (rule table_entries_zero [of m3 "[i, 0, 256]"]) (use nd(3) en(1) that in \<open>simp_all add: cache_frames_nth del: node.simps\<close>)
  have e0: "pte_frame X (m_tables m3 f1 0) = Some g"
    using nd(3) [rule_format, of 0] nd(2) unfolding node.simps(2) [of X m3 0 "[0, 256]"] by (simp add: cache_frames_nth del: node.simps)
  have own: "fold_opt (map_own_table X g) [0..<4] (VCacheState_new [replicate 512 0]) = Some (own_cache X g 4 [])"
    using map_own_tables [OF g le_refl, of "[]"] unfolding own_cache_0 .
  have tabs: "map (\<lambda>i. table_entries m3 (g + i * 4096)) [1..<4] = replicate 3 (replicate 512 0)"
    using te [of 1] te [of 2] te [of 3] by (simp add: replicate_4(2) upt_rec)
  define m' where "m' = m3\<lparr>m_vcache := own_cache X g 4 (replicate 3 (replicate 512 0))\<rparr>"
  have f: "m_tables m' = m_tables m3" "m_cr3 m' = m_cr3 m3" "m_phys m' = m_phys m3" by (simp_all add: m'_def)
  note st = same_tables [OF f(1,2), of X]
  have "vcache_init X m = Some m'"
    using r e0 te [of 0] own tabs
    by (simp add: vcache_init_def start_index read_entry_def Let_def del: upt_rec_numeral)
      (simp add: m'_def own_cache_def)
  moreover have "path_ok X m3 a" if a: "p4_index X a = 256" for a
  proof -
    have 1: "pte_frame X (ent X m3 256 []) \<noteq> None" "pte_frame X (ent X m3 0 [256]) \<noteq> None"
      using nd(1,2) unfolding node_Cons_ent by auto
    moreover have "ent X m3 j [0, 256] = 0 \<or> pte_frame X (ent X m3 j [0, 256]) \<noteq> None" for j
      using nd(3) en(3) unfolding node_Cons_ent by (cases "j < 4") auto
    moreover have "ent X m3 j [i, 256] = 0" if "i \<noteq> 0" for i j
    proof (rule ent_no_node)
      show "node X m3 [i, 256] = None" using en(2) that unfolding node_Cons_ent by (simp add: pte_frame_unused)
    qed
    ultimately show ?thesis using en(2) a by (cases "p3_index X a = 0") (auto simp: path_ok_def)
  qed
  moreover have "tree_ok X m'" using m3(1) unfolding tree_ok_def st f .
  ultimately show ?thesis using m3 nd(3) en(4) g
    by (intro exI [of _ m']) (simp add: st f hdr_def cache_frames_nth, simp add: m'_def)
qed

end

section \<open>\<open>map_header\<close>\<close>

definition shift_segments :: "nat \<Rightarrow> PhysicalFrameAllocator \<Rightarrow> PhysicalFrameAllocator" where
  "shift_segments off pfa = pfa\<lparr>segments := map (\<lambda>(p, s). (p + off, s)) (segments pfa)\<rparr>"

lemma offset_segments_eq:
  assumes "\<forall>p \<in> set (map fst segs). p + off < 2 ^ 64" "0 < off"
  shows "offset_segments off segs = Some (map (\<lambda>(p, s). (p + off, s)) segs)"
  using assms by (induction off segs rule: offset_segments.induct) (auto simp: add64_def)

lemma shift_segments [simp]:
  "free_list (shift_segments off pfa) = free_list pfa" "managed (shift_segments off pfa) = managed pfa"
  "phys_inv (shift_segments off pfa) = phys_inv pfa" "pfa_size (shift_segments off pfa) = pfa_size pfa"
  "phyframe (shift_segments off pfa) = phyframe pfa"
  "map fst (segments (shift_segments off pfa)) = map (\<lambda>p. p + off) (map fst (segments pfa))"
proof -
  have f: "segs_free (map (\<lambda>(p, s). (p + off, s)) segs) = segs_free segs"
    "segs_managed (map (\<lambda>(p, s). (p + off, s)) segs) = segs_managed segs" for segs
    by (induction segs) auto
  show "free_list (shift_segments off pfa) = free_list pfa" "managed (shift_segments off pfa) = managed pfa"
    by (simp_all add: free_list_def managed_def managed_list_def shift_segments_def f)
  show "phys_inv (shift_segments off pfa) = phys_inv pfa"
    by (simp add: phys_inv_def shift_segments_def sorted_wrt_map case_prod_unfold)
qed (simp_all add: shift_segments_def case_prod_unfold)

lemma shift_free_frames [simp]: "free_frames (shift_segments off pfa) = free_frames pfa"
  by (simp add: free_frames_def)

context x86_crate
begin

lemma header_index: "KVMSPACE \<le> a \<Longrightarrow> a < KVMSPACE + 2 ^ 39 \<Longrightarrow> p4_index X a = 256"
proof -
  assume "KVMSPACE \<le> a" "a < KVMSPACE + 2 ^ 39"
  then have "a div 2 ^ 39 = 33554176" by (intro div_nat_eqI) (simp_all add: KVMSPACE_def)
  then show ?thesis unfolding p4_index_eq by simp
qed

lemma map_header_ok:
  assumes inv: "mp_inv X m" and room: "2 \<le> vc_room (m_vcache m)" and hd: "hdr m = (sz, fr, ps)"
    and sz: "0 < sz" "n = page_count sz" "n * 4096 \<le> 2 ^ 38" and fr: "page_aligned fr" "fr + n * 4096 \<le> 2 ^ 52"
    and ps: "\<forall>p \<in> set ps. fr \<le> p \<and> p < fr + sz" and free: "3 * n \<le> card (free_frames (m_phys m))"
    and ok: "\<And>a. p4_index X a = 256 \<Longrightarrow> path_ok X m a"
  shows "\<exists>m'. map_header X m = Some m' \<and> mp_inv X m' \<and>
    moved X {} (slots X (pages PHYSHEADER_START n)) (3 * n) m m' \<and>
    (\<forall>i<n. pte_frame X (pagemap X m' (PHYSHEADER_START + i * 4096)) = Some (fr + i * 4096)) \<and>
    hdr m' = (sz, fr, map (\<lambda>p. PHYSHEADER_START + (p - fr)) ps)"
proof -
  have p4: "p4_index X a = 256" if "a \<in> pages PHYSHEADER_START n" for a
    using that sz(3) by (intro header_index) (auto simp: pages_def PHYSHEADER_START_def KVMSPACE_def)
  have pre: "map_pre X PHYSHEADER_START fr n {WRITABLE} m"
    using inv room fr free ok p4 sz(3)
    by (auto simp: map_pre_def range_ok_def PHYSHEADER_START_def KVMSPACE_def)
  obtain m1 where m1: "kernel_map X PHYSHEADER_START fr sz {WRITABLE} m = Some (Inr (), m1)"
    "map_post X PHYSHEADER_START fr n {WRITABLE} m m1"
    using kernel_map_ok [OF pre sz(2,1)] by blast
  have h1: "hdr m1 = (sz, fr, ps)" using kernel_map_hdr [OF m1(1)] hd by simp
  define off where "off = PHYSHEADER_START - fr"
  have "sz \<le> n * 4096" using round_up_ge [of 4096 sz] round_up_dvd [of 4096 sz] by (simp add: sz(2) page_count_def)
  then have off: "0 < off" "\<forall>p \<in> set (map fst (segments (m_phys m1))). p + off < 2 ^ 64" "fr \<le> PHYSHEADER_START"
    "\<forall>p \<in> set ps. p + off = PHYSHEADER_START + (p - fr)"
    using fr(2) ps h1 sz(3) by (auto simp: off_def PHYSHEADER_START_def hdr_def)
  define m' where "m' = m1\<lparr>m_phys := shift_segments off (m_phys m1)\<rparr>"
  have f: "m_tables m' = m_tables m1" "m_cr3 m' = m_cr3 m1" "m_vcache m' = m_vcache m1" "m_p4page m' = m_p4page m1"
    "m_phys m' = shift_segments off (m_phys m1)" "m_stale m' = m_stale m1" "m_gstale m' = m_gstale m1"
    by (simp_all add: m'_def)
  note st = same_tables [OF f(1,2), of X]
  have "sub64 PHYSHEADER_START fr = Some off" using off(3) by (simp add: sub64_def off_def)
  then have "map_header X m = Some m'"
    using m1(1) hd offset_segments_eq [OF off(2,1)]
    by (simp add: map_header_def hdr_def vmap_def unwrap_ok_def m'_def shift_segments_def)
  moreover have "mp_inv X m'" using m1(2) unfolding map_post_def mp_inv_def tree_ok_def st f by simp
  moreover have "moved X {} (slots X (pages PHYSHEADER_START n)) (3 * n) m m'"
    using m1(2) unfolding map_post_def moved_def st f by simp
  moreover have "hdr m' = (sz, fr, map (\<lambda>p. PHYSHEADER_START + (p - fr)) ps)"
    using h1 off(4) by (simp add: hdr_def f)
  moreover have "\<forall>i<n. pte_frame X (pagemap X m' (PHYSHEADER_START + i * 4096)) = Some (fr + i * 4096)"
    using m1(2) by (simp add: map_post_def st)
  ultimately show ?thesis by blast
qed

end

section \<open>\<open>remove_identity\<close>\<close>

context x86_crate
begin

lemma p4_user: "a < 2 ^ 47 \<Longrightarrow> p4_index X a < 256"
  unfolding p4_index_eq by (simp add: div_less_iff_less_mult)

lemma remove_identity_ok:
  assumes inv: "mp_inv X m"
  shows "\<exists>m'. remove_identity X m = Some m' \<and> mp_inv X m' \<and> m_phys m' = m_phys m \<and> m_vcache m' = m_vcache m \<and>
    m_cr3 m' = m_cr3 m \<and> m_stale m' = {} \<and>
    (\<forall>a<2 ^ 47. path_ok X m' a \<and> pagemap X m' a = 0) \<and>
    (\<forall>a. 256 \<le> p4_index X a \<longrightarrow> pagemap X m' a = pagemap X m a \<and> path_ok X m' a = path_ok X m a)"
proof -
  define m' where "m' = flush_all (m\<lparr>m_tables := (m_tables m)(m_cr3 m := (\<lambda>i. if i < 256 then 0 else m_tables m (m_cr3 m) i))\<rparr>)"
  have f: "m_phys m' = m_phys m" "m_vcache m' = m_vcache m" "m_cr3 m' = m_cr3 m" "m_p4page m' = m_p4page m" "m_stale m' = {}"
    "m_tables m' = (m_tables m)(m_cr3 m := (\<lambda>i. if i < 256 then 0 else m_tables m (m_cr3 m) i))"
    by (simp_all add: m'_def flush_all_def)
  have run: "remove_identity X m = Some m'" using inv by (simp add: remove_identity_def mp_inv_def m'_def)
  note tree = mp_inv_tree [OF inv]
  have other: "m_tables m' u = m_tables m u" if "tpath q" "q \<noteq> []" "node X m q = Some u" for q u
    using tree_okD(2) [OF tree tpath_Nil _ that(1), of u] that f(6) by auto
  have nd: "node X m' q = (if q \<noteq> [] \<and> last q < 256 then None else node X m q)" if "tpath q" for q
    using that
  proof (induction q)
    case (Cons j q)
    then have tq: "tpath q" by (simp add: tpath_Cons)
    show ?case
    proof (cases "q = []")
      case True
      then show ?thesis by (simp add: f pte_frame_unused)
    next
      case False
      with Cons.IH [OF tq] other [OF tq False] show ?thesis by (cases "node X m q") simp_all
    qed
  qed (simp add: f)
  have en: "ent X m' j q = (if last (j # q) < 256 then 0 else ent X m j q)" if "tpath q" for q j
    using nd [OF that] other [OF that] f by (cases "q = []"; cases "node X m q") (auto simp: ent_def)
  have "tree_ok X m'" using tree nd unfolding tree_ok_def f by (metis option.distinct(1))
  then have "mp_inv X m'" using inv by (simp add: mp_inv_def f)
  moreover have "path_ok X m' a \<and> pagemap X m' a = 0" if "a < 2 ^ 47" for a
    using p4_user [OF that] en [of "[]"] en [of "[p4_index X a]"] en [of "[p3_index X a, p4_index X a]"] en [OF tpath_path(1) [of a]]
    by (simp add: path_ok_def pagemap_def path_def tpath_def index_less)
  moreover have "pagemap X m' a = pagemap X m a \<and> path_ok X m' a = path_ok X m a" if "256 \<le> p4_index X a" for a
    using that en [of "[]"] en [of "[p4_index X a]"] en [of "[p3_index X a, p4_index X a]"] en [OF tpath_path(1) [of a]]
    by (simp add: path_ok_def pagemap_def path_def tpath_def index_less)
  ultimately show ?thesis using run f by blast
qed

end

section \<open>The start of virtual memory\<close>

text \<open>What the boot loader and \<open>phys::init\<close> leave, for a header of \<open>n\<close> pages.\<close>

definition boot_ok :: "x86 \<Rightarrow> nat \<Rightarrow> nat \<Rightarrow> machine \<Rightarrow> bool" where
  "boot_ok X g n m \<longleftrightarrow>
     tree_ok X m \<and> m_tables m (m_cr3 m) 256 = 0 \<and> page_aligned (m_cr3 m) \<and> m_cr3 m < 2 ^ 52 \<and>
     phys_inv (m_phys m) \<and> 0 < pfa_size (m_phys m) \<and> n = page_count (pfa_size (m_phys m)) \<and> n * 4096 \<le> 2 ^ 38 \<and>
     page_aligned (phyframe (m_phys m)) \<and> phyframe (m_phys m) + n * 4096 \<le> 2 ^ 52 \<and>
     (\<forall>p \<in> set (map fst (segments (m_phys m))). phyframe (m_phys m) \<le> p \<and> p < phyframe (m_phys m) + pfa_size (m_phys m)) \<and>
     take 4 (drop 2 (free_list (m_phys m))) = cache_frames g \<and> 6 + 3 * n \<le> length (free_list (m_phys m))"

context x86_crate
begin

text \<open>The last lines of the three functions before \<open>map_header\<close>, taken together.\<close>

lemma mapper_ready:
  assumes b: "boot_ok X g n m"
  shows "\<exists>m1 m2. vcache_init X m = Some m1 \<and> mapper_init X m1 = Some m2 \<and> mp_inv X m2 \<and> 2 \<le> vc_room (m_vcache m2) \<and>
    hdr m2 = hdr m \<and> m_cr3 m2 = m_cr3 m \<and> free_list (m_phys m2) = drop 6 (free_list (m_phys m)) \<and>
    (\<forall>i<4. win_page 0 i \<in> vc_held X (m_vcache m2) \<and> vc_win X (m_vcache m2) (win_page 0 i) = Some (g + i * 4096)) \<and>
    (\<forall>a. p4_index X a = 256 \<longrightarrow> path_ok X m2 a) \<and> (\<forall>j. j \<noteq> 256 \<longrightarrow> ent X m2 j [] = ent X m j [])"
proof -
  note B = b [unfolded boot_ok_def]
  define L where "L = free_list (m_phys m)"
  have L: "take 4 (drop 2 L) = cache_frames g" "6 \<le> length L" using B by (simp_all add: L_def)
  have "L = L ! 0 # L ! 1 # drop 2 L"
    using L(2) by (cases L; cases "tl L") (auto simp: numeral_eq_Suc)
  also have "drop 2 L = cache_frames g @ drop 6 L"
    using append_take_drop_id [of 4 "drop 2 L"] L(1) by simp
  finally have fl: "L = L ! 0 # L ! 1 # cache_frames g @ drop 6 L" .
  have b3: "tree_ok X m" "phys_inv (m_phys m)" "m_tables m (m_cr3 m) 256 = 0" using B by simp_all
  let ?c = "own_cache X g 4 (replicate 3 (replicate 512 0))"
  obtain m1 where m1: "vcache_init X m = Some m1" "tree_ok X m1" "phys_inv (m_phys m1)" "free_list (m_phys m1) = drop 6 L"
    "hdr m1 = hdr m" "m_cr3 m1 = m_cr3 m" "m_vcache m1 = ?c" "page_aligned g" "g + 4 * 4096 \<le> 2 ^ 52"
    "\<And>a. p4_index X a = 256 \<Longrightarrow> path_ok X m1 a" "\<And>j. j \<noteq> 256 \<Longrightarrow> ent X m1 j [] = ent X m j []"
  proof -
    from vcache_init_ok [OF b3 fl [unfolded L_def]] obtain m1 where
      "vcache_init X m = Some m1 \<and> tree_ok X m1 \<and> phys_inv (m_phys m1) \<and> free_list (m_phys m1) = drop 6 (free_list (m_phys m)) \<and>
       hdr m1 = hdr m \<and> m_cr3 m1 = m_cr3 m \<and> m_vcache m1 = ?c \<and> page_aligned g \<and> g + 4 * 4096 \<le> 2 ^ 52 \<and>
       (\<forall>i<4. node X m1 [i, 0, 256] = Some (g + i * 4096)) \<and>
       (\<forall>a. p4_index X a = 256 \<longrightarrow> path_ok X m1 a) \<and> (\<forall>j. j \<noteq> 256 \<longrightarrow> ent X m1 j [] = ent X m j [])" by (elim exE)
    then show ?thesis by (intro that [of m1]) (simp_all only: L_def simp_thms)
  qed
  have ci: "vc_inv X ?c" using own_cache_inv [OF _ m1(8,9)] by simp
  have fc: "p2_freecount ?c ! 0 = 508" "vc_room ?c = 508" by (simp_all add: own_cache_def vc_room_def)
  then have av: "(\<exists>i<4. p2_freecount ?c ! i \<noteq> 0) \<or> p2_lazycount ?c ! 0 \<noteq> 0" by (intro disjI1 exI [of _ 0]) simp
  have cr3: "page_aligned (m_cr3 m)" "m_cr3 m < 2 ^ 52" using B by simp_all
  obtain q vc where v: "vc_map X (m_cr3 m) ?c = Some (Some q, vc)" "vc_inv X vc" "vc_held X vc = insert q (vc_held X ?c)"
    "vc_win X vc q = Some (m_cr3 m)" "\<forall>r \<in> vc_held X ?c. vc_win X vc r = vc_win X ?c r" "vc_room ?c = vc_room vc + vc_cost q"
    using vc_map_ok [OF ci cr3 av] by blast
  define m2 where "m2 = m1\<lparr>m_vcache := vc, m_p4page := q\<rparr>"
  have f: "m_tables m2 = m_tables m1" "m_cr3 m2 = m_cr3 m1" "m_phys m2 = m_phys m1" "m_vcache m2 = vc" "m_p4page m2 = q"
    by (simp_all add: m2_def)
  note st = same_tables [OF f(1,2), of X]
  have run: "mapper_init X m1 = Some m2" using v(1) m1(6,7) by (simp add: mapper_init_def m2_def)
  have inv: "mp_inv X m2" using m1(2,3,6) v(2-4) unfolding mp_inv_def tree_ok_def st f by simp
  have room: "2 \<le> vc_room vc" using v(6) fc(2) by (auto simp: vc_cost_def split: if_splits)
  have held: "win_page 0 i \<in> vc_held X ?c" if "i < 4" for i
    using that m1(8,9) window_pte(1) [of "g + i * 4096"]
    by (subst win_page_held) (auto simp: is_held_def own_cache_def own_table_nth replicate_4)
  have win: "win_page 0 i \<in> vc_held X vc \<and> vc_win X vc (win_page 0 i) = Some (g + i * 4096)" if "i < 4" for i
    using held [OF that] v(3,5) own_cache_win [OF that _ m1(8,9)] by simp
  show ?thesis
    by (rule exI [of _ m1], rule exI [of _ m2], intro conjI)
      (use m1 run inv room win in \<open>simp_all add: f st hdr_def L_def\<close>)
qed

end

context x86_crate
begin

lemma path_ok_unused:
  assumes "ent X m (p4_index X a) [] = 0"
  shows "path_ok X m a"
proof -
  have 1: "node X m [p4_index X a] = None" unfolding node_Cons_ent assms by (rule pte_frame_unused)
  then have 2: "node X m [p3_index X a, p4_index X a] = None" unfolding node_Cons_ent [of m "p3_index X a"] ent_no_node [OF 1] by (simp add: pte_frame_unused)
  show ?thesis using assms ent_no_node [OF 1] ent_no_node [OF 2] by (simp add: path_ok_def)
qed

end

lemma virt_init_run:
  assumes "x86_crate X" and "boot_ok X g n m"
  shows "\<exists>m'. virt_init X m = Some m' \<and> mp_inv X m' \<and> 2 \<le> vc_room (m_vcache m') \<and>
    (\<forall>i<4. vc_win X (m_vcache m') (START_ADDR + i * 4096) = Some (g + i * 4096)) \<and>
    (\<forall>a<2 ^ 47. path_ok X m' a \<and> pagemap X m' a = 0) \<and>
    (\<forall>i<n. pte_frame X (pagemap X m' (PHYSHEADER_START + i * 4096)) = Some (phyframe (m_phys m) + i * 4096)) \<and>
    map fst (segments (m_phys m')) =
      map (\<lambda>p. PHYSHEADER_START + (p - phyframe (m_phys m))) (map fst (segments (m_phys m))) \<and>
    card (free_frames (m_phys m)) \<le> card (free_frames (m_phys m')) + 6 + 3 * n \<and>
    (\<forall>a. 256 < p4_index X a \<and> ent X m (p4_index X a) [] = 0 \<longrightarrow> path_ok X m' a)"
proof -
  note B = assms(2) [unfolded boot_ok_def]
  obtain m1 m2 where m2: "vcache_init X m = Some m1" "mapper_init X m1 = Some m2" "mp_inv X m2" "2 \<le> vc_room (m_vcache m2)"
    "hdr m2 = hdr m" "free_list (m_phys m2) = drop 6 (free_list (m_phys m))"
    and own: "\<And>i. i < 4 \<Longrightarrow> win_page 0 i \<in> vc_held X (m_vcache m2) \<and> vc_win X (m_vcache m2) (win_page 0 i) = Some (g + i * 4096)"
    and ok: "\<And>a. p4_index X a = 256 \<Longrightarrow> path_ok X m2 a" and root: "\<And>j. j \<noteq> 256 \<Longrightarrow> ent X m2 j [] = ent X m j []"
    using x86_crate.mapper_ready [OF assms] by blast
  have card: "card (free_frames (m_phys x)) = length (free_list (m_phys x))" if "phys_inv (m_phys x)" for x
    using distinct_card [OF distinct_free_list [OF that]] by (simp add: free_frames_def)
  have p2: "phys_inv (m_phys m2)" using m2(3) by (simp add: mp_inv_def)
  have len: "6 + 3 * n \<le> length (free_list (m_phys m))" "phys_inv (m_phys m)" using B by blast+
  have c2: "card (free_frames (m_phys m)) = card (free_frames (m_phys m2)) + 6" "3 * n \<le> card (free_frames (m_phys m2))"
    using card [OF p2] card [OF len(2)] len(1) m2(6) by simp_all
  have h2: "hdr m2 = (pfa_size (m_phys m), phyframe (m_phys m), map fst (segments (m_phys m)))" using m2(5) by (simp add: hdr_def)
  have pre: "0 < pfa_size (m_phys m)" "n = page_count (pfa_size (m_phys m))" "n * 4096 \<le> 2 ^ 38"
    "page_aligned (phyframe (m_phys m))" "phyframe (m_phys m) + n * 4096 \<le> 2 ^ 52"
    "\<forall>p \<in> set (map fst (segments (m_phys m))). phyframe (m_phys m) \<le> p \<and> p < phyframe (m_phys m) + pfa_size (m_phys m)"
    using B by simp_all
  obtain m3 where m3: "map_header X m2 = Some m3" "mp_inv X m3"
    "moved X {} (slots X (pages PHYSHEADER_START n)) (3 * n) m2 m3"
    "\<forall>i<n. pte_frame X (pagemap X m3 (PHYSHEADER_START + i * 4096)) = Some (phyframe (m_phys m) + i * 4096)"
    "hdr m3 = (pfa_size (m_phys m), phyframe (m_phys m),
      map (\<lambda>p. PHYSHEADER_START + (p - phyframe (m_phys m))) (map fst (segments (m_phys m))))"
    using x86_crate.map_header_ok [OF assms(1) m2(3,4) h2 pre c2(2) ok] by blast
  obtain m4 where m4: "remove_identity X m3 = Some m4" "mp_inv X m4" "m_phys m4 = m_phys m3" "m_vcache m4 = m_vcache m3"
    "\<forall>a<2 ^ 47. path_ok X m4 a \<and> pagemap X m4 a = 0" "\<And>a. 256 \<le> p4_index X a \<Longrightarrow> pagemap X m4 a = pagemap X m3 a"
    "\<And>a. 256 \<le> p4_index X a \<Longrightarrow> path_ok X m4 a = path_ok X m3 a"
    using x86_crate.remove_identity_ok [OF assms(1) m3(2)] by blast
  have mv: "vc_room (m_vcache m3) = vc_room (m_vcache m2)" "card (free_frames (m_phys m2)) \<le> card (free_frames (m_phys m3)) + 3 * n"
    "\<And>q. q \<in> vc_held X (m_vcache m2) \<Longrightarrow> vc_win X (m_vcache m3) q = vc_win X (m_vcache m2) q"
    using m3(3) unfolding moved_def by blast+
  have hp: "pagemap X m4 (PHYSHEADER_START + i * 4096) = pagemap X m3 (PHYSHEADER_START + i * 4096)" if "i < n" for i
  proof (rule m4(6))
    have "p4_index X (PHYSHEADER_START + i * 4096) = 256"
      using that pre(3) by (intro x86_crate.header_index [OF assms(1)]) (auto simp: PHYSHEADER_START_def KVMSPACE_def)
    then show "256 \<le> p4_index X (PHYSHEADER_START + i * 4096)" by simp
  qed
  have "vc_win X (m_vcache m4) (win_page 0 i) = Some (g + i * 4096)" if "i < 4" for i
    using own [OF that] mv(3) m4(4) by simp
  then have win: "\<forall>i<4. vc_win X (m_vcache m4) (START_ADDR + i * 4096) = Some (g + i * 4096)"
    by (simp add: win_page_def START_ADDR_def mult.commute)
  have run: "virt_init X m = Some m4" using m2(1,2) m3(1) m4(1) by (simp add: virt_init_def)
  have free: "path_ok X m4 a" if "256 < p4_index X a" "ent X m (p4_index X a) [] = 0" for a
  proof -
    have "path_ok X m2 a" using x86_crate.path_ok_unused [OF assms(1)] root [of "p4_index X a"] that by simp
    then have "path_ok X m3 a" using m3(3) unfolding moved_def by blast
    then show ?thesis using m4(7) [of a] that(1) by simp
  qed
  show ?thesis
  proof (intro exI [of _ m4] conjI)
    show "\<forall>a. 256 < p4_index X a \<and> ent X m (p4_index X a) [] = 0 \<longrightarrow> path_ok X m4 a" using free by blast
    show "\<forall>i<n. pte_frame X (pagemap X m4 (PHYSHEADER_START + i * 4096)) = Some (phyframe (m_phys m) + i * 4096)"
      using m3(4) hp by simp
    show "map fst (segments (m_phys m4)) =
        map (\<lambda>p. PHYSHEADER_START + (p - phyframe (m_phys m))) (map fst (segments (m_phys m)))"
      using m3(5) unfolding m4(3) hdr_def by blast
  qed (fact run, fact m4(2), use m2(4) m4(3,4) mv c2(1) in simp, fact win, fact m4(5), use m4(3) mv c2(1) in simp)
qed


lemma big_boot_ok: "boot_ok x86_ref 0x1002000 1 big_machine"
proof -
  have "take 4 (drop 2 (free_list big_pfa)) = cache_frames 0x1002000"
    by (simp add: big_pfa_free take_map drop_map take_upt del: upt_rec_numeral) (simp add: cache_frames_def upt_rec)
  moreover have "tree_ok x86_ref big_machine" by (rule mp_inv_tree [OF big_machine_inv])
  moreover have "m_tables big_machine 0x5000 256 = 0" by (simp add: big_same demo_machine_def)
  moreover have "length (free_list big_pfa) = 1000" by (simp add: big_pfa_free)
  ultimately show ?thesis
    using big_pfa_inv by (simp add: boot_ok_def) (simp add: big_pfa_def page_count_def round_up_def)
qed


section \<open>The start of memory\<close>

text \<open>What the boot loader's page tables have to be like, given the frames that are free.\<close>

definition boot_tables :: "x86 \<Rightarrow> PhysicalFrameAllocator \<Rightarrow> machine \<Rightarrow> bool" where
  "boot_tables X ph m \<longleftrightarrow> tree_ok X (m\<lparr>m_phys := ph\<rparr>) \<and> m_tables m (m_cr3 m) 256 = 0 \<and> m_tables m (m_cr3 m) 257 = 0 \<and>
     page_aligned (m_cr3 m) \<and> m_cr3 m < 2 ^ 52"

context x86_crate
begin

lemma phys_init_header:
  assumes "mmap_ok bb" "phys_init X bb = Some ph"
  shows "0 < pfa_size ph" "page_aligned (phyframe ph)" "phyframe ph + page_count (pfa_size ph) * 4096 \<le> 2 ^ 52"
proof -
  obtain pre s s' post where i: "usable_segments bb (mmap_indices bb) = pre @ s # post" "phyframe ph = seg_address s"
    "pfa_size ph = header_total bb" "segments ph = header_layout (seg_address s) 0 (pre @ s' # post)"
    "seg_address s' = seg_address s + round_up (header_total bb) 4096"
    using phys_init_Some [OF assms(2)] by metis
  show "0 < pfa_size ph" using i(1,3) by (simp add: header_total_def header_bytes_def)
  obtain a where "frame_from_start X a = Some (phyframe ph)"
    using assms(2) by (auto simp: phys_init_def bind_Some_iff Let_def split: prod.splits)
  then show "page_aligned (phyframe ph)" by (auto simp: frame_from_start_eq split: if_splits)
  have "s'\<lparr>seg_bitmap := fresh_bitmap s'\<rparr> \<in> set (map snd (segments ph))" unfolding i(4) header_layout_snd by simp
  then have "seg_ok (s'\<lparr>seg_bitmap := fresh_bitmap s'\<rparr>)" using phys_init_inv_lemma [OF assms] by (fastforce simp: phys_inv_def)
  then have "seg_address s' < 2 ^ 52" by (simp add: seg_ok_def)
  moreover have "page_count (pfa_size ph) * 4096 = round_up (header_total bb) 4096"
    by (simp add: page_count_def i(3) dvd_div_mult_self)
  ultimately show "phyframe ph + page_count (pfa_size ph) * 4096 \<le> 2 ^ 52" using i(2,5) by simp
qed

text \<open>The first six free frames are in one piece when the first segment has as many.\<close>

lemma boot_frames:
  assumes "phys_init X bb = Some ph" "segments ph = (q, s) # segs" "6 \<le> fresh_pages s"
  shows "take 4 (drop 2 (free_list ph)) = cache_frames (seg_frame s 2)"
proof -
  obtain rest where fl: "free_list ph = map (seg_frame s) [0..<fresh_pages s] @ rest"
    using phys_init_free_lemma [OF assms(1)] assms(2) by simp
  have "[0..<fresh_pages s] = [0..<6] @ [6..<fresh_pages s]" using assms(3) upt_add_eq_append [of 0 6 "fresh_pages s - 6"] by simp
  then have "free_list ph = map (seg_frame s) [0..<6] @ map (seg_frame s) [6..<fresh_pages s] @ rest" using fl by simp
  then show ?thesis by (simp add: cache_frames_def seg_frame_def upt_rec)
qed

lemma boot_ok_phys_init:
  assumes "mmap_ok bb" "phys_init X bb = Some ph" "segments ph = (q, s) # segs" "6 \<le> fresh_pages s" "boot_tables X ph m"
    and "n = page_count (pfa_size ph)" "n * 4096 \<le> 2 ^ 38" "6 + 3 * n \<le> length (free_list ph)"
  shows "boot_ok X (seg_frame s 2) n (m\<lparr>m_phys := ph\<rparr>)"
proof -
  have "\<forall>p \<in> set (map fst (segments ph)). phyframe ph \<le> p \<and> p < phyframe ph + pfa_size ph"
    using phys_init_headers_lemma [OF assms(2)] by (fastforce simp: header_bytes_def)
  then show ?thesis using assms(5-8) phys_init_header [OF assms(1,2)] phys_init_inv_lemma [OF assms(1,2)] boot_frames [OF assms(2-4)]
    unfolding boot_ok_def boot_tables_def by simp
qed

end

lemma mem_init_run:
  assumes "x86_crate X" and "mmap_ok bb" and "phys_init X bb = Some ph" and "segments ph = (q, s) # segs" and "6 \<le> fresh_pages s"
    and "boot_tables X ph m" and "n = page_count (pfa_size ph)" and "n * 4096 \<le> 2 ^ 38" and "38 + 3 * n \<le> length (free_list ph)"
  shows "\<exists>m'. mem_init X bb m = Some m' \<and> mp_inv X m' \<and> 2 \<le> vc_room (m_vcache m') \<and> heap_ok X heap_new m' \<and>
    (\<forall>a<2 ^ 47. path_ok X m' a \<and> (page_aligned a \<longrightarrow> pagemap X m' a = 0)) \<and>
    (\<forall>a. 256 < p4_index X a \<and> m_tables m (m_cr3 m) (p4_index X a) = 0 \<longrightarrow> path_ok X m' a) \<and>
    length (free_list ph) \<le> card (free_frames (m_phys m')) + 38 + 3 * n"
proof -
  have "6 + 3 * n \<le> length (free_list ph)" using assms(9) by simp
  from x86_crate.boot_ok_phys_init [OF assms(1-8) this] have b: "boot_ok X (seg_frame s 2) n (m\<lparr>m_phys := ph\<rparr>)" .
  have pinv: "phys_inv ph" by (rule x86_crate.phys_init_inv_lemma [OF assms(1-3)])
  obtain m1 where m1: "virt_init X (m\<lparr>m_phys := ph\<rparr>) = Some m1" "mp_inv X m1" "2 \<le> vc_room (m_vcache m1)"
    "\<forall>a<2 ^ 47. path_ok X m1 a \<and> pagemap X m1 a = 0"
    "card (free_frames (m_phys (m\<lparr>m_phys := ph\<rparr>))) \<le> card (free_frames (m_phys m1)) + 6 + 3 * n"
    "\<forall>a. 256 < p4_index X a \<and> ent X (m\<lparr>m_phys := ph\<rparr>) (p4_index X a) [] = 0 \<longrightarrow> path_ok X m1 a"
    using virt_init_run [OF assms(1) b] by blast
  have p4: "p4_index X a = 257" if "a \<in> pages HEAP_START 8" for a
  proof -
    from that have "a div 2 ^ 39 = 33554177" by (intro div_nat_eqI) (auto simp: pages_def HEAP_START_def)
    then show ?thesis unfolding x86_crate.p4_index_eq [OF assms(1)] by simp
  qed
  have "card (free_frames ph) = length (free_list ph)"
    using distinct_card [OF distinct_free_list [OF pinv]] by (simp add: free_frames_def)
  then have c: "length (free_list ph) \<le> card (free_frames (m_phys m1)) + 6 + 3 * n" using m1(5) by simp
  then have "32 \<le> card (free_frames (m_phys m1))" using assms(9) by simp
  moreover have "\<forall>a \<in> pages HEAP_START 8. path_ok X m1 a"
    using m1(6) p4 assms(6) by (simp add: ent_def boot_tables_def)
  moreover have r: "range_ok HEAP_START 8" by (simp add: range_ok_def HEAP_START_def KVMSPACE_def)
  ultimately have "alloc_pre X HEAP_START 8 {WRITABLE} m1" using m1(2,3) by (simp add: alloc_pre_def HEAP_START_def KVMSPACE_def)
  from x86_crate.valloc_ok [OF assms(1) this] obtain fs m2 where m2: "valloc X HEAP_START 8 {WRITABLE} m1 = Some m2" "length fs = 8"
    "alloc_post X HEAP_START fs {WRITABLE} m1 m2" by blast
  have mv: "moved X {} (slots X (pages HEAP_START 8)) (4 * length fs) m1 m2" and inv: "mp_inv X m2"
    using m2(2,3) by (simp_all add: alloc_post_def)
  have "mem_init X bb m = Some m2" using assms(3) m1(1) m2(1) by (simp add: mem_init_def heap_init_def)
  moreover have "heap_ok X heap_new m2"
    using x86_crate.alloc_post_writable [OF assms(1) m2(3)] m2(2) by (simp add: heap_ok_def heap_new_def) (simp add: HEAP_START_def)
  moreover have "path_ok X m2 a \<and> (page_aligned a \<longrightarrow> pagemap X m2 a = 0)" if "a < 2 ^ 47" for a
  proof -
    have "pagemap X m2 a = pagemap X m1 a" if "page_aligned a"
      using \<open>a < 2 ^ 47\<close> that
      by (intro x86_crate.pagemap_moved [OF assms(1) mv] x86_crate.slot_pages [OF assms(1) r])
        (auto simp: canonical_def pages_def HEAP_START_def)
    then show ?thesis using m1(4) mv that unfolding moved_def by simp
  qed
  moreover have "2 \<le> vc_room (m_vcache m2)" using mv m1(3) by (simp add: moved_def)
  moreover have "\<forall>a. 256 < p4_index X a \<and> m_tables m (m_cr3 m) (p4_index X a) = 0 \<longrightarrow> path_ok X m2 a"
    using m1(6) mv unfolding moved_def by (simp add: ent_def)
  moreover have "length (free_list ph) \<le> card (free_frames (m_phys m2)) + 38 + 3 * n"
    using mv m2(2) c unfolding moved_def by simp
  ultimately show ?thesis using inv by blast
qed


text \<open>One usable region of 64 pages, the first of which holds the header.\<close>

definition boot_mmap :: "nat \<Rightarrow> MMapEnt" where
  "boot_mmap i = \<lparr>ent_ptr = 0x100000, ent_size = 0x40001\<rparr>"

definition boot_bb :: BootBoot where
  "boot_bb = demo_bb\<lparr>bb_size := 144, bb_mmap := boot_mmap\<rparr>"

definition boot_seg :: segment where
  "boot_seg = \<lparr>seg_magic = MAGIC, seg_address = 0x101000, seg_size = 0x3F000, seg_bitmap = [push_bit 63 (- 1)]\<rparr>"

definition boot_pfa :: PhysicalFrameAllocator where
  "boot_pfa = \<lparr>segments = [(0x100000, boot_seg)], pfa_size = 32, phyframe = 0x100000\<rparr>"

lemma boot_entry:
  "get_type (boot_mmap i) = Some Free" "raw_size (boot_mmap i) = 0x40000" "phyadr x86_ref (boot_mmap i) = Some 0x100000"
  "mmap_size x86_ref (boot_mmap i) = Some 0x40000"
  using ref.align_up_eq [of 12 "0x100000"] ref.align_down_eq [of 12 "0x40000"]
  by (simp_all add: boot_mmap_def get_type_def raw_size_eq phyadr_def mmap_size_def round_up_def round_down_def ref.phys_new_eq)

lemma boot_bitmap_size:
  "bitmap_size x86_ref (segment_new 0x100000 0x40000) = Some 8" "bitmap_size x86_ref (boot_seg\<lparr>seg_bitmap := b\<rparr>) = Some 8"
  using ref.align_up_eq [of 6 64] ref.align_up_eq [of 6 63]
  by (simp_all add: bitmap_size_def segment_new_def boot_seg_def round_up_def)

lemma boot_place: "place_header x86_ref 32 [segment_new 0x100000 0x40000] = Some (Some 0x100000, [boot_seg\<lparr>seg_bitmap := []\<rparr>])"
  using ref.align_up_eq [of 12 32] by (simp add: segment_new_def boot_seg_def round_up_def ref.phys_add_eq sub64_def)

lemma boot_setup:
  "setup_segment x86_ref 0x100000 (boot_seg\<lparr>seg_bitmap := []\<rparr>) (0, []) = Some (32, [(0x100000, boot_seg)])"
  by (simp add: setup_segment_def bitmap_u64len_def boot_bitmap_size ref.phys_add_eq add64_def rassert_def)
    (simp add: boot_seg_def)

lemma boot_phys_init: "phys_init x86_ref boot_bb = Some boot_pfa"
proof -
  have bb: "bb_size boot_bb = 144" "bb_mmap boot_bb = boot_mmap" by (simp_all add: boot_bb_def)
  have "scan_entry x86_ref boot_bb 0 ([], 0) = Some ([segment_new 0x100000 0x40000], 32)"
    by (simp add: scan_entry_def bb boot_entry boot_bitmap_size add64_def)
  then show ?thesis
    by (simp add: phys_init_def bb boot_place boot_setup ref.frame_from_start_eq boot_pfa_def sub64_def del: place_header.simps)
qed

lemma boot_free: "free_list boot_pfa = map (seg_frame boot_seg) [0..<63]" "fresh_pages boot_seg = 63"
proof -
  show "fresh_pages boot_seg = 63" by (simp add: fresh_pages_def seg_pages_def boot_seg_def)
  then show "free_list boot_pfa = map (seg_frame boot_seg) [0..<63]"
    using ref.phys_init_free_lemma [OF boot_phys_init] by (simp add: boot_pfa_def del: upt_rec_numeral)
qed

lemma boot_mmap_ok: "mmap_ok boot_bb"
proof -
  have "mmap_indices boot_bb = [0]" by (simp add: mmap_indices_def boot_bb_def)
  then show ?thesis by (simp add: mmap_ok_def ent_end_def boot_entry) (simp add: boot_bb_def boot_mmap_def raw_size_eq)
qed

lemma boot_big_tables: "boot_tables x86_ref boot_pfa big_machine"
proof -
  have t: "m_tables (big_machine\<lparr>m_phys := boot_pfa\<rparr>) = m_tables demo_machine" "m_cr3 (big_machine\<lparr>m_phys := boot_pfa\<rparr>) = m_cr3 demo_machine"
    by (simp_all add: big_machine_def)
  have "(0x5000 :: nat) \<notin> free_frames boot_pfa"
    by (auto simp: free_frames_def boot_free seg_frame_def boot_seg_def simp del: upt_rec_numeral)
  then have "tree_ok x86_ref (big_machine\<lparr>m_phys := boot_pfa\<rparr>)" unfolding tree_ok_def same_tables [OF t] demo_node by auto
  moreover have "m_tables big_machine f i = 0" for f i by (simp add: big_same demo_machine_def)
  ultimately show ?thesis by (simp add: boot_tables_def)
qed


end
