(* ===== verification/Syscall.thy ===== *)
theory Syscall
  imports Sched
begin

text \<open>
  System calls: the interface of \<open>userspace/syscall/src/lib.rs\<close>, the wrappers of
  \<open>userspace/runtime/src/syscall.rs\<close> and the kernel's side in \<open>kernel/src/proc/syscall.rs\<close>. The
  registers of a call are those of the saved state that \<open>syscall_handle_1\<close> builds from them.
\<close>

section \<open>The interface\<close>

datatype SyscallResult =
    SysSuccess u64 u64 u64 u64 u64 u64
  | Invalid
  | Failed

datatype Syscall =
    Exit u64
  | GetPid
  | DebugDraw u64 u64 u64 u64 u64
  | Spawn u64 u64

text \<open>\<open>ordinal()\<close> numbers the constructors in the order of their declaration.\<close>

definition ordinal :: "Syscall \<Rightarrow> u64" where
  "ordinal s = (case s of Exit _ \<Rightarrow> 0 | GetPid \<Rightarrow> 1 | DebugDraw _ _ _ _ _ \<Rightarrow> 2 | Spawn _ _ \<Rightarrow> 3)"

definition call_args :: "Syscall \<Rightarrow> u64 \<times> u64 \<times> u64 \<times> u64 \<times> u64 \<times> u64" where
  "call_args s = (case s of
       Exit exitcode \<Rightarrow> (exitcode, 0, 0, 0, 0, 0)
     | GetPid \<Rightarrow> (0, 0, 0, 0, 0, 0)
     | DebugDraw x y r g b \<Rightarrow> (x, y, r, g, b, 0)
     | Spawn path' len \<Rightarrow> (path', len, 0, 0, 0, 0))"

text \<open>The state at the \<open>syscall\<close> instruction, and what is read from the state after it.\<close>

definition call_state :: "Syscall \<Rightarrow> TaskProcState \<Rightarrow> TaskProcState" where
  "call_state s ps = (case call_args s of (io0, io1, io2, io3, io4, io5) \<Rightarrow>
     ps\<lparr>ts_rax := ordinal s, ts_rdi := io0, ts_rsi := io1, ts_rdx := io2, ts_r10 := io3, ts_r8 := io4, ts_r9 := io5\<rparr>)"

definition call_result :: "TaskProcState \<Rightarrow> SyscallResult" where
  "call_result ps = (if ts_rax ps = 0
     then SysSuccess (ts_rdi ps) (ts_rsi ps) (ts_rdx ps) (ts_r10 ps) (ts_r8 ps) (ts_r9 ps)
     else Invalid)"

text \<open>The wrappers; \<open>unreachable!()\<close> is \<^const>\<open>None\<close>.\<close>

definition user_getpid :: "SyscallResult \<Rightarrow> u64 option" where
  "user_getpid r = (case r of SysSuccess pid _ _ _ _ _ \<Rightarrow> Some pid | _ \<Rightarrow> None)"

definition user_debug_draw :: "nat \<Rightarrow> nat \<Rightarrow> u8 \<Rightarrow> u8 \<Rightarrow> u8 \<Rightarrow> Syscall" where
  "user_debug_draw x y r g b = DebugDraw (word_of_nat x) (word_of_nat y) (ucast r) (ucast g) (ucast b)"

definition user_spawn :: "SyscallResult \<Rightarrow> nat option" where
  "user_spawn r = (case r of SysSuccess pid _ _ _ _ _ \<Rightarrow> Some (unat pid) | _ \<Rightarrow> None)"

text \<open>A program whose \<open>run\<close> returns ends with its result: \<open>_start\<close>, from the return on.\<close>

definition user_start_asm :: "instr list" where
  "user_start_asm = [Mov RDI RAX, MovImm RAX 0]"

section \<open>The kernel\<close>

definition syscall_try_from :: "TaskProcState \<Rightarrow> Syscall option" where
  "syscall_try_from ps =
     (if ts_rax ps = 0 then Some (Exit (ts_rdi ps))
      else if ts_rax ps = 1 then Some GetPid
      else if ts_rax ps = 2 then Some (DebugDraw (ts_rdi ps) (ts_rsi ps) (ts_rdx ps) (ts_r10 ps) (ts_r8 ps))
      else if ts_rax ps = 3 then Some (Spawn (ts_rdi ps) (ts_rsi ps))
      else None)"

text \<open>Reading a string of the caller; a page that is not mapped is a page fault in the kernel.\<close>

definition user_bytes :: "x86 \<Rightarrow> kernel \<Rightarrow> nat \<Rightarrow> nat \<Rightarrow> u8 list option" where
  "user_bytes X k a len =
     (if list_all (\<lambda>i. pte_frame X (pagemap X (k_mem k) (a + i - (a + i) mod 4096)) \<noteq> None) [0..<len]
      then Some (map (\<lambda>i. vread X (k_mem k) (k_pm k) (a + i)) [0..<len]) else None)"

definition handle :: "x86 \<Rightarrow> nat \<Rightarrow> Syscall \<Rightarrow> kernel \<Rightarrow> (SyscallResult \<times> kernel) option" where
  "handle X core s k = (case s of
       Exit exitcode \<Rightarrow> do {
         k \<leftarrow> exit_current X core k;
         Some (Invalid, k) }
     | GetPid \<Rightarrow> do {
         pinfo \<leftarrow> k_procs k core;
         t \<leftarrow> current_task pinfo;
         task \<leftarrow> k_store k t;
         Some (SysSuccess (word_of_nat (task_id task)) 0 0 0 0 0, k) }
     | DebugDraw x y r g b \<Rightarrow> do {
         (f, screen) \<leftarrow> debug_set_pixel (unat x) (unat y) (pixel_rgb (ucast r, ucast g, ucast b)) (k_fb k, k_screen k);
         Some (SysSuccess 0 0 0 0 0 0, k\<lparr>k_fb := f, k_screen := screen\<rparr>) }
     | Spawn ptr len \<Rightarrow> do {
         path' \<leftarrow> user_bytes X k (unat ptr) (unat len);
         (r, k) \<leftarrow> exec_initrd X core path' k;
         Some (case r of Success n \<Rightarrow> SysSuccess (word_of_nat n) 0 0 0 0 0 | _ \<Rightarrow> Failed, k) })"

definition result_state :: "SyscallResult \<Rightarrow> TaskProcState \<Rightarrow> TaskProcState" where
  "result_state r ps = (case r of
       SysSuccess o0 o1 o2 o3 o4 o5 \<Rightarrow>
         ps\<lparr>ts_rax := 0, ts_rdi := o0, ts_rsi := o1, ts_rdx := o2, ts_r10 := o3, ts_r8 := o4, ts_r9 := o5\<rparr>
     | _ \<Rightarrow> ps\<lparr>ts_rax := 1\<rparr>)"

definition syscall_handle_2 :: "x86 \<Rightarrow> nat \<Rightarrow> TaskProcState \<Rightarrow> kernel \<Rightarrow> (outcome \<times> kernel) option" where
  "syscall_handle_2 X core proc_state k = do {
     pinfo \<leftarrow> k_procs k core;
     t \<leftarrow> current_task pinfo;
     task \<leftarrow> k_store k t;
     let k = set_task t (task\<lparr>procstate := proc_state\<rparr>) k;
     (result, k) \<leftarrow> (case syscall_try_from proc_state of
         Some s \<Rightarrow> handle X core s k
       | None \<Rightarrow> Some (Invalid, k));
     pinfo \<leftarrow> k_procs k core;
     case current_task pinfo of
       None \<Rightarrow> Some (Event_loop, k)
     | Some t \<Rightarrow> do {
         task \<leftarrow> k_store k t;
         let k = set_task t (task\<lparr>procstate := result_state result (procstate task)\<rparr>) k;
         continue_current X core False k } }"

section \<open>Registers\<close>

text \<open>
  C16. The two sides of the interface agree. The kernel reads from the registers of a call the
  call that was made, and the caller reads from the registers of the answer the result the
  kernel gave, except that a failure arrives as an invalid call.
\<close>

theorem syscall_roundtrip:
  "syscall_try_from (call_state s ps) = Some s \<and>
   call_result (result_state r ps) = (case r of Failed \<Rightarrow> Invalid | _ \<Rightarrow> r)"
proof
  show "syscall_try_from (call_state s ps) = Some s"
    by (cases s) (simp_all add: syscall_try_from_def call_state_def call_args_def ordinal_def)
  show "call_result (result_state r ps) = (case r of Failed \<Rightarrow> Invalid | _ \<Rightarrow> r)"
    by (cases r) (simp_all add: call_result_def result_state_def)
qed

lemma try_from_call [simp]: "syscall_try_from (call_state s ps) = Some s"
  by (cases s) (simp_all add: syscall_try_from_def call_state_def call_args_def ordinal_def)

lemma user_start_exits:
  "\<exists>c'. run_asm user_start_asm c = Some c' \<and> syscall_try_from (user_state c') = Some (Exit (c_regs c RAX))"
  by (simp add: user_start_asm_def run_asm_def syscall_try_from_def user_state_def)

section \<open>Handling a call\<close>

text \<open>A call that does not end the task leaves the cores and the tasks there are alone.\<close>

lemma handle_frame:
  assumes "handle X core s k = Some (r, k')" "tasks_ok k" "\<forall>e. s \<noteq> Exit e"
  shows "k_procs k' = k_procs k" "k_store k t = Some task \<Longrightarrow> k_store k' t = Some task"
proof -
  have "k_procs k' = k_procs k \<and> (k_store k t = Some task \<longrightarrow> k_store k' t = Some task)"
  proof (cases s)
    case (Spawn ptr len)
    from assms(1) obtain path' r0 where e: "exec_initrd X core path' k = Some (r0, k')"
      unfolding handle_def Spawn by (auto simp: bind_Some_iff)
    have "t \<noteq> Suc (k_idcount k)" if "k_store k t = Some task" using store_fresh [OF assms(2)] that by auto
    then show ?thesis using exec_initrd_spawned [OF e] by (auto simp: spawned_def)
  qed (use assms in \<open>auto simp: handle_def bind_Some_iff\<close>)
  then show "k_procs k' = k_procs k" "k_store k t = Some task \<Longrightarrow> k_store k' t = Some task" by blast+
qed

lemma tasks_ok_procstate: "tasks_ok k \<Longrightarrow> k_store k t = Some task \<Longrightarrow> tasks_ok (set_task t (task\<lparr>procstate := ps\<rparr>) k)"
  by (auto simp: tasks_ok_def set_task_def)

lemma continue_resumes:
  assumes "continue_current X core reset k = Some (out, k')" "k_procs k core = Some pinfo" "current_task pinfo = Some t"
    "k_store k t = Some task"
  shows "out = Resume (procstate task)"
  using assms by (auto simp: continue_current_def bind_Some_iff Let_def)

lemma call_resumes:
  assumes "tasks_ok k" "k_procs k core = Some pinfo" "current_task pinfo = Some t" "k_store k t = Some task"
    and "syscall_handle_2 X core (call_state s ps) k = Some (out, k')" "\<forall>e. s \<noteq> Exit e"
  shows "\<exists>r k1. handle X core s (set_task t (task\<lparr>procstate := call_state s ps\<rparr>) k) = Some (r, k1) \<and>
    out = Resume (result_state r (call_state s ps))"
proof -
  define k0 where "k0 = set_task t (task\<lparr>procstate := call_state s ps\<rparr>) k"
  have k0: "k_procs k0 = k_procs k" "k_store k0 t = Some (task\<lparr>procstate := call_state s ps\<rparr>)"
    by (simp_all add: k0_def set_task_def)
  from assms(2-5) obtain r k1 where h: "handle X core s k0 = Some (r, k1)"
    unfolding syscall_handle_2_def k0_def by (auto simp: bind_Some_iff Let_def)
  have "tasks_ok k0" unfolding k0_def by (rule tasks_ok_procstate [OF assms(1,4)])
  note f = handle_frame [OF h this assms(6)]
  have p1: "k_procs k1 core = Some pinfo" "k_store k1 t = Some (task\<lparr>procstate := call_state s ps\<rparr>)"
    using f k0 assms(2) by simp_all
  define k2 where "k2 = set_task t (task\<lparr>procstate := result_state r (call_state s ps)\<rparr>) k1"
  have "continue_current X core False k2 = Some (out, k')"
    using assms(2-5) h p1 by (simp add: syscall_handle_2_def k0_def [symmetric] Let_def k2_def)
  moreover have "k_procs k2 core = Some pinfo" "k_store k2 t = Some (task\<lparr>procstate := result_state r (call_state s ps)\<rparr>)"
    using p1 by (simp_all add: k2_def set_task_def)
  ultimately have "out = Resume (result_state r (call_state s ps))" using continue_resumes assms(3) by fastforce
  then show ?thesis using h unfolding k0_def by blast
qed

lemma call_exits:
  assumes "tasks_ok k" "k_procs k core = Some pinfo" "current_task pinfo = Some t" "k_store k t = Some task"
    and "syscall_handle_2 X core (call_state (Exit e) ps) k = Some (out, k')"
    and "t \<in> set (k_tasks k)" "\<forall>d. d \<noteq> core \<longrightarrow> \<not> current_on k d t"
  shows "out = Event_loop \<and> t \<notin> set (k_tasks k') \<and> k_store k' t = None \<and> \<not> has_task core k'"
proof -
  define k0 where "k0 = set_task t (task\<lparr>procstate := call_state (Exit e) ps\<rparr>) k"
  have k0: "k_procs k0 core = Some pinfo" "tasks_ok k0" "k_tasks k0 = k_tasks k"
    using assms(2) tasks_ok_procstate [OF assms(1,4)] by (simp_all add: k0_def set_task_def)
  from assms(2-5) obtain k1 where x: "exit_current X core k0 = Some k1"
    unfolding syscall_handle_2_def k0_def by (auto simp: handle_def bind_Some_iff Let_def)
  have tk: "exit_take core k0 = Some (Some t, set_current core None k0)"
    using assms(3) by (simp add: exit_take_def set_current_def k0)
  then have r: "exit_remove X t (set_current core None k0) = Some k1" using x by (simp add: exit_current_def)
  have nc: "\<not> current_on (set_current core None k0) d t" for d
    using assms(7) k0(1) by (simp add: set_current_on) (simp add: current_on_def k0_def set_task_def)
  obtain index m where ix: "index < length (k_tasks k)" "k_tasks k ! index = t"
    and k1: "k1 = (set_current core None k0)\<lparr>k_tasks := remove_nth index (k_tasks k), k_mem := m,
      k_store := (k_store (set_current core None k0))(t := None)\<rparr>"
    using exit_remove_eq [OF _ _ nc r] k0 assms(6) by auto
  have "k_procs k1 core = Some (pinfo\<lparr>current_task := None\<rparr>)"
    by (simp add: k1 set_current_def set_proc_def k0)
  moreover have "handle X core (Exit e) k0 = Some (Invalid, k1)" using x by (simp add: handle_def)
  ultimately have o: "out = Event_loop" "k' = k1" "\<not> has_task core k1"
    using assms(2-5) by (auto simp: syscall_handle_2_def k0_def [symmetric] Let_def has_task_def)
  have "t \<notin> set (remove_nth index (k_tasks k))"
    using remove_nth_set(1) [of "k_tasks k" index] assms(1) ix by (simp add: tasks_ok_def)
  with o show ?thesis by (simp add: k1)
qed

text \<open>
  C20. What a system call does to its caller. A call that comes back comes back to the task that
  made it, with the result of the handler in the result registers and every other register as
  it was. \<open>Exit\<close> does not come back: the task is taken from the core, from the list and from
  memory, and the core goes to the event loop.
\<close>

theorem syscall_returns:
  assumes "tasks_ok k" and "k_procs k core = Some pinfo" and "current_task pinfo = Some t" and "k_store k t = Some task"
    and "t \<in> set (k_tasks k)" and "\<forall>d. d \<noteq> core \<longrightarrow> \<not> current_on k d t"
    and "syscall_handle_2 X core (call_state s ps) k = Some (out, k')"
  shows "case s of
      Exit e \<Rightarrow> out = Event_loop \<and> t \<notin> set (k_tasks k') \<and> k_store k' t = None \<and> \<not> has_task core k'
    | _ \<Rightarrow> \<exists>r k1. handle X core s (set_task t (task\<lparr>procstate := call_state s ps\<rparr>) k) = Some (r, k1) \<and>
        out = Resume (result_state r (call_state s ps))"
  using call_exits [OF assms(1-4) _ assms(5,6)] call_resumes [OF assms(1-4,7)] assms(7)
  by (cases s) simp_all

lemma demo_idle_pre:
  "tasks_ok demo_idle" "k_procs demo_idle 0 = Some (demo_pinfo\<lparr>current_task := Some 1\<rparr>)"
  "k_store demo_idle 1 = Some ((demo_task 1)\<lparr>state := Running 5\<rparr>)" "1 \<in> set (k_tasks demo_idle)"
  "d \<noteq> 0 \<Longrightarrow> \<not> current_on demo_idle d 1"
  by (simp_all add: demo_idle_def demo_sched_def tasks_ok_def demo_task_def demo_pinfo_def current_on_def)

theorem syscall_returns_witness:
  "\<exists>ps' k'. syscall_handle_2 x86_ref 0 (call_state GetPid (procstate (demo_task 1))) demo_idle = Some (Resume ps', k') \<and>
     call_result ps' = SysSuccess 1 0 0 0 0 0"
proof -
  let ?ps = "procstate (demo_task 1)"
  have "syscall_handle_2 x86_ref 0 (call_state GetPid ?ps) demo_idle \<noteq> None"
    by (simp add: syscall_handle_2_def handle_def continue_current_def demo_idle_pre(2) demo_idle_pre(3) [simplified]
        map_apply_def set_task_def Let_def) (simp add: demo_task_def MemoryMap_new_def demo_pinfo_def)
  then obtain out k' where e: "syscall_handle_2 x86_ref 0 (call_state GetPid ?ps) demo_idle = Some (out, k')" by auto
  have n: "\<forall>d. d \<noteq> 0 \<longrightarrow> \<not> current_on demo_idle d 1" using demo_idle_pre(5) by blast
  have c: "current_task (demo_pinfo\<lparr>current_task := Some 1\<rparr>) = Some 1" by simp
  obtain r k1 where r: "handle x86_ref 0 GetPid (set_task 1 ((demo_task 1)\<lparr>state := Running 5, procstate := call_state GetPid ?ps\<rparr>) demo_idle) = Some (r, k1)"
    "out = Resume (result_state r (call_state GetPid ?ps))"
    using syscall_returns [OF demo_idle_pre(1,2) c demo_idle_pre(3,4) n e] by auto
  then have "r = SysSuccess 1 0 0 0 0 0"
    by (simp add: handle_def demo_idle_pre(2) set_task_def) (simp add: demo_task_def)
  with r(2) e show ?thesis by (auto simp: call_result_def result_state_def)
qed

text \<open>
  An unknown number is refused: the caller goes on with 1 in \<open>rax\<close> and all its other registers,
  and nothing else of the kernel changes.
\<close>

theorem syscall_rejects:
  assumes "k_procs k core = Some pinfo" and "current_task pinfo = Some t" and "k_store k t = Some task"
    and "active_mapping pinfo = Some (map_id (memory_map task))" and "3 < ts_rax ps"
  shows "syscall_handle_2 X core ps k =
    Some (Resume (ps\<lparr>ts_rax := 1\<rparr>), set_task t (task\<lparr>procstate := ps\<lparr>ts_rax := 1\<rparr>\<rparr>) k)"
proof -
  have "syscall_try_from ps = None" using assms(5) by (auto simp: syscall_try_from_def)
  moreover have "(k_procs k)(core \<mapsto> pinfo) = k_procs k" using assms(1) by (simp add: fun_upd_idem)
  ultimately show ?thesis using assms
    by (simp add: syscall_handle_2_def continue_current_def map_apply_def result_state_def set_task_def set_proc_def)
qed

theorem syscall_rejects_witness:
  "\<exists>k' ps. ts_rax ps = 9 \<and> syscall_handle_2 x86_ref 0 ps
     (demo_idle\<lparr>k_procs := [0 \<mapsto> demo_pinfo\<lparr>current_task := Some 1, active_mapping := Some 0\<rparr>]\<rparr>) =
     Some (Resume (ps\<lparr>ts_rax := 1\<rparr>), k')"
proof -
  let ?k = "demo_idle\<lparr>k_procs := [0 \<mapsto> demo_pinfo\<lparr>current_task := Some 1, active_mapping := Some 0\<rparr>]\<rparr>"
  let ?ps = "(procstate (demo_task 1))\<lparr>ts_rax := 9\<rparr>" and ?t = "(demo_task 1)\<lparr>state := Running 5\<rparr>"
  define p where "p = demo_pinfo\<lparr>current_task := Some 1, active_mapping := Some 0\<rparr>"
  have p: "k_procs ?k 0 = Some p" "current_task p = Some 1" "active_mapping p = Some (map_id (memory_map ?t))"
    by (simp_all add: p_def demo_idle_def) (simp add: demo_task_def MemoryMap_new_def ID_COUNT_def)
  have t: "k_store ?k 1 = Some ?t" by (simp add: demo_idle_def)
  have "syscall_handle_2 x86_ref 0 ?ps ?k = Some (Resume (?ps\<lparr>ts_rax := 1\<rparr>), set_task 1 (?t\<lparr>procstate := ?ps\<lparr>ts_rax := 1\<rparr>\<rparr>) ?k)"
    by (rule syscall_rejects [OF p(1,2) t p(3)]) simp
  moreover have "ts_rax ?ps = 9" by simp
  ultimately show ?thesis by blast
qed

text \<open>A program that draws outside the screen stops the kernel.\<close>

lemma draw_panics:
  assumes "k_fb k = Some f" "fb_width f \<le> unat x \<or> fb_height f \<le> unat y"
  shows "handle X core (DebugDraw x y r g b) k = None"
proof -
  have "set_pixel (unat x) (unat y) p (f, mem) = None" for p mem
    using assms(2) by (intro set_pixel_off_screen) auto
  then show ?thesis by (simp add: handle_def debug_set_pixel_def assms(1))
qed

end
