(* ===== verification/Start.thy ===== *)
theory Start
  imports Proc Virt_Init Syscall
begin

text \<open>
  The start of the machine: \<open>_start\<close> of \<open>kernel/src/main.rs\<close>, the console, the debug port of
  \<open>kernel/src/debug.rs\<close> and the panic handler of \<open>kernel/src/sys.rs\<close>; and the start of all cores, on the
  model of \<open>ignite\<close> and \<open>wait\<close> of the theory Proc.
\<close>

section \<open>The debug port\<close>

text \<open>\<open>ecx\<close> is what \<open>cpuid\<close> leaves in the register for leaf one.\<close>

definition isvm :: "u32 \<Rightarrow> bool" where
  "isvm ecx \<longleftrightarrow> ecx AND push_bit 31 1 \<noteq> 0"

definition DEBUG_PORT :: nat where
  "DEBUG_PORT = 0xE9"

definition write_byte :: "u32 \<Rightarrow> u8 \<Rightarrow> ports \<Rightarrow> ports" where
  "write_byte ecx b io = (if isvm ecx then io @ [(DEBUG_PORT, b)] else io)"

definition write_str :: "u32 \<Rightarrow> u8 list \<Rightarrow> ports \<Rightarrow> ports" where
  "write_str ecx s io = (if isvm ecx then fold (write_byte ecx) s io else io)"

text \<open>\<open>println!\<close> of an already formatted text, after the number of the core in decimal digits.\<close>

definition println :: "u32 \<Rightarrow> u8 list \<Rightarrow> u8 list \<Rightarrow> ports \<Rightarrow> ports" where
  "println ecx core_digits s io = (if isvm ecx
     then write_str ecx [0x0D, 0x0A] (write_str ecx s (write_str ecx [0x5D, 0x20]
       (write_str ecx core_digits (write_str ecx [0x5B, 0x50, 0x72, 0x6F, 0x63, 0x20] io))))
     else io)"

definition rdtsc :: "u32 \<Rightarrow> u32 \<Rightarrow> u64" where
  "rdtsc high low = push_bit 32 (ucast high) OR ucast low"

text \<open>The panic handler up to its endless loop; \<^const>\<open>None\<close> is a panic in the handler itself.\<close>

definition panic_handler :: "nat \<Rightarrow> kernel \<Rightarrow> kernel option" where
  "panic_handler core k = do {
     k \<leftarrow> dbg 30 30 (255, 0, 0) k;
     y \<leftarrow> add64 30 core;
     y \<leftarrow> add64 y 1;
     dbg 30 y (255, 0, 0) k }"

section \<open>The early heap\<close>

text \<open>
  \<open>EarlyAllocator\<close> of \<open>kernel/src/mem/early_heap.rs\<close>. The allocator behind it, \<open>LockedHeap\<close> of the crate
  linked_list_allocator, is given by its two functions on a state \<open>'h\<close>; the null pointer is 0. A
  request of no bytes is answered with the dangling pointer of its layout, which is its alignment.
\<close>

record Layout =
  lay_size :: nat
  lay_align :: nat

datatype AllocError = AllocError

definition EARLY_HEAP_SIZE :: nat where
  "EARLY_HEAP_SIZE = 128 * 1024"

definition early_allocate :: "(Layout \<Rightarrow> 'h \<Rightarrow> nat \<times> 'h) \<Rightarrow> Layout \<Rightarrow> 'h \<Rightarrow> (AllocError + nat \<times> nat) \<times> 'h" where
  "early_allocate alloc layout h =
     (if lay_size layout = 0 then (Inr (lay_align layout, 0), h)
      else let (raw_ptr, h) = alloc layout h in
        if raw_ptr = 0 then (Inl AllocError, h) else (Inr (raw_ptr, lay_size layout), h))"

definition early_deallocate :: "(nat \<Rightarrow> Layout \<Rightarrow> 'h \<Rightarrow> 'h) \<Rightarrow> nat \<Rightarrow> Layout \<Rightarrow> 'h \<Rightarrow> 'h" where
  "early_deallocate dealloc ptr layout h = (if lay_size layout \<noteq> 0 then dealloc ptr layout h else h)"

text \<open>What is allocated can be given back, whatever its size, if that holds of the allocator behind it.\<close>

lemma early_heap_roundtrip:
  assumes "\<And>l h p h'. alloc l h = (p, h') \<Longrightarrow> p \<noteq> 0 \<Longrightarrow> dealloc p l h' = h"
    and "early_allocate alloc layout h = (Inr (p, n), h')"
  shows "n = lay_size layout" "early_deallocate dealloc p layout h' = h"
  using assms(2) assms(1) [of layout h p h']
  by (auto simp: early_allocate_def early_deallocate_def split: if_splits prod.splits)

section \<open>The start\<close>

definition framebuffer_init :: "BootBoot \<Rightarrow> nat \<Rightarrow> kernel \<Rightarrow> kernel option" where
  "framebuffer_init bb fb_virt k = (case k_fb k of
       Some f \<Rightarrow> Some k
     | None \<Rightarrow> do {
         f \<leftarrow> from_bootboot bb fb_virt;
         Some (k\<lparr>k_fb := Some f\<rparr>) })"

text \<open>The path \<open>/sys/font.psf\<close>; the result is what is printed: whether there is such a file.\<close>

definition font_path :: "u8 list" where
  "font_path = [0x2F, 0x73, 0x79, 0x73, 0x2F, 0x66, 0x6F, 0x6E, 0x74, 0x2E, 0x70, 0x73, 0x66]"

definition console_init :: "initrd option \<Rightarrow> bool option" where
  "console_init INITRD = do {
     fontfile \<leftarrow> open_file INITRD font_path;
     Some (fontfile \<noteq> None) }"

text \<open>\<open>mem::init\<close>; the early heap is a static array.\<close>

definition mem_start :: "x86 \<Rightarrow> 'g gdt_ops \<Rightarrow> BootBoot \<Rightarrow> nat \<Rightarrow> 'g platform \<Rightarrow> 'g platform option" where
  "mem_start X G bb core p = do {
     p \<leftarrow> basic_init G core p;
     m \<leftarrow> mem_init X bb (k_mem (pl_k p));
     Some (p\<lparr>pl_k := (pl_k p)\<lparr>k_mem := m\<rparr>, pl_heap := heap_new\<rparr>) }"

text \<open>
  What the firmware provides beside the boot structure: where the frame buffer is, and what the
  registers of the I/O APICs answer. \<open>b_depth\<close> bounds the recursion over the ACPI tables.
\<close>

record boot =
  b_bb :: BootBoot
  b_fb_virt :: nat
  b_dev :: "nat \<Rightarrow> u32 \<Rightarrow> u32"
  b_depth :: nat

definition start_memory :: "env \<Rightarrow> boot \<Rightarrow> x86 \<Rightarrow> 'g gdt_ops \<Rightarrow> 'g platform \<Rightarrow> 'g platform option" where
  "start_memory E B X G p = do {
     k \<leftarrow> framebuffer_init (b_bb B) (b_fb_virt B) (pl_k p);
     p \<leftarrow> pdbg 0 0 (255, 255, 255) (p\<lparr>pl_k := k\<rparr>);
     p \<leftarrow> pdbg 0 1 (255, 255, 0) (p\<lparr>pl_ports := pl_ports p @ pic_disable\<rparr>);
     p \<leftarrow> mem_start X G (b_bb B) (e_core E) p;
     pdbg 0 2 (0, 255, 255) p }"

text \<open>The interrupt table, the ramdisk, the console and the handlers of configuration tables.\<close>

definition start_tables :: "boot \<Rightarrow> x86 \<Rightarrow> 'g platform \<Rightarrow> 'g platform option" where
  "start_tables B X p = do {
     let p = p\<lparr>pl_idt := interrupts_init (pl_idt p)\<rparr>;
     let k = pl_k p;
     (initrd, m) \<leftarrow> initrd_init X (b_bb B) (k_pm k) (k_mem k);
     let k = k\<lparr>k_mem := m, k_initrd := initrd, k_file := vread X m (k_pm k)\<rparr>;
     _ \<leftarrow> console_init (k_initrd k);
     H \<leftarrow> cfgtb_init (pl_handlers p);
     pdbg 0 3 (0, 0, 255) (p\<lparr>pl_k := k, pl_handlers := H\<rparr>) }"

definition start_acpi :: "boot \<Rightarrow> x86 \<Rightarrow> 'g platform \<Rightarrow> 'g platform option" where
  "start_acpi B X p = do {
     let k = pl_k p;
     a \<leftarrow> acpi_init (b_depth B) X (b_dev B) (k_pm k) (pl_handlers p) (b_bb B) ((pl_apic p)\<lparr>a_mem := k_mem k\<rparr>);
     pdbg 0 4 (255, 0, 0) (p\<lparr>pl_k := k\<lparr>k_mem := a_mem a, k_numcores := NUMCORES a\<rparr>, pl_apic := a\<rparr>) }"

definition start :: "env \<Rightarrow> boot \<Rightarrow> x86 \<Rightarrow> 'g gdt_ops \<Rightarrow> 'g platform \<Rightarrow> (progress \<times> 'g platform) option" where
  "start E B X G p =
     (if \<not> is_primary (e_core E) (pl_k p) then wait E X G p
      else do {
        p \<leftarrow> start_memory E B X G p;
        p \<leftarrow> start_tables B X p;
        p \<leftarrow> start_acpi B X p;
        ignite E X G p })"

section \<open>Output and time\<close>

lemma write_str_eq: "write_str ecx s io = (if isvm ecx then io @ map (Pair DEBUG_PORT) s else io)"
proof -
  have "isvm ecx \<Longrightarrow> fold (write_byte ecx) s io = io @ map (Pair DEBUG_PORT) s"
    by (induction s arbitrary: io) (simp_all add: write_byte_def)
  then show ?thesis by (simp add: write_str_def)
qed

text \<open>On a virtual machine a line goes to the debug port byte by byte; on hardware nothing is written.\<close>

lemma println_eq:
  "println ecx n s io = (if isvm ecx
     then io @ map (Pair DEBUG_PORT) ([0x5B, 0x50, 0x72, 0x6F, 0x63, 0x20] @ n @ [0x5D, 0x20] @ s @ [0x0D, 0x0A]) else io)"
  by (simp add: println_def write_str_eq)

lemma isvm_bit: "isvm ecx \<longleftrightarrow> bit ecx 31"
  unfolding isvm_def push_bit_of_1 and_exp_eq_0_iff_not_bit by simp

lemma rdtsc_value: "unat (rdtsc high low) = unat high * 2 ^ 32 + unat low"
proof -
  have "push_bit 32 (ucast high :: u64) AND ucast low = 0"
    by (intro bit_word_eqI) (auto simp: bit_and_iff bit_push_bit_iff bit_ucast_iff dest: bit_imp_le_length)
  then have "rdtsc high low = push_bit 32 (ucast high) + ucast low" by (simp add: rdtsc_def disjunctive_add_eq_or)
  moreover have b: "unat high < 2 ^ 32" "unat low < 2 ^ 32" using unsigned_less [of high] unsigned_less [of low] by simp_all
  moreover have "unat (ucast high :: u64) = unat high" "unat (ucast low :: u64) = unat low"
    using b by (simp_all add: unsigned_ucast_eq take_bit_nat_eq_self_iff)
  ultimately show ?thesis by (simp add: push_bit_eq_mult unat_word_ariths)
qed

text \<open>
  The panic handler draws before it stops. Without a screen, or with one that is too small, it
  panics itself.
\<close>

lemma panic_handler_draws: "screen_ok 31 (32 + core) k \<Longrightarrow> core < 256 \<Longrightarrow> \<exists>k'. panic_handler core k = Some k' \<and> only_devices k k'"
  by (auto simp: panic_handler_def add64_def dbg_draw [where w = 31 and h = "32 + core"] only_devicesI)

lemma panic_handler_fails: "k_fb k = None \<Longrightarrow> panic_handler core k = None"
  by (simp add: panic_handler_def dbg_def debug_set_pixel_def)

lemma start_unknown_format:
  assumes "is_primary (e_core E) (pl_k p)" "k_fb (pl_k p) = None" "format_try_into (bb_fb_type (b_bb B)) = None"
  shows "start E B X G p = None" "panic_handler (e_core E) (pl_k p) = None"
  using assms by (simp_all add: start_def start_memory_def framebuffer_init_def from_bootboot_def panic_handler_fails)

text \<open>A core that is not the primary one changes nothing until the primary one is ready.\<close>

lemma start_secondary:
  assumes "\<not> is_primary (e_core E) (pl_k p)"
  shows "\<not> pl_ignition p \<Longrightarrow> start E B X G p = Some (Waits, p)" "pl_ignition p \<Longrightarrow> start E B X G p = wakeup E X G p"
  using assms by (simp_all add: start_def wait_def)

section \<open>From the boot loader to the ACPI tables\<close>

text \<open>
  What the boot loader hands over: a screen, a well-formed memory map whose first usable segment has
  six frames left, page tables with the root entries of the kernel's windows, heap and ramdisk
  unused, an archive in memory, and enough free frames.
\<close>

definition screen_pre :: "boot \<Rightarrow> kernel \<Rightarrow> bool" where
  "screen_pre B k \<longleftrightarrow> k_fb k = None \<and>
     (\<exists>f. from_bootboot (b_bb B) (b_fb_virt B) = Some f \<and> fb_ok f \<and> 1 \<le> fb_width f \<and> 4 \<le> fb_height f)"

definition memory_pre :: "x86 \<Rightarrow> BootBoot \<Rightarrow> PhysicalFrameAllocator \<Rightarrow> machine \<Rightarrow> bool" where
  "memory_pre X bb ph m \<longleftrightarrow> mmap_ok bb \<and> phys_init X bb = Some ph \<and>
     (\<exists>q s segs. segments ph = (q, s) # segs \<and> 6 \<le> fresh_pages s) \<and>
     boot_tables X ph m \<and> m_tables m (m_cr3 m) 258 = 0 \<and> page_count (pfa_size ph) * 4096 \<le> 2 ^ 38 \<and>
     38 + 3 * page_count (pfa_size ph) + 3 * page_count (bb_initrd_size bb) \<le> length (free_list ph)"

definition archive_pre :: "BootBoot \<Rightarrow> memory \<Rightarrow> archive \<Rightarrow> bool" where
  "archive_pre bb pm es \<longleftrightarrow> 0 < bb_initrd_size bb \<and> bb_initrd_size bb \<le> 2 ^ 38 \<and> page_aligned (bb_initrd_ptr bb) \<and>
     bb_initrd_ptr bb \<le> 2 ^ 51 \<and> (\<forall>e \<in> set es. entry_ok e) \<and>
     (\<exists>pad. holds pm (bb_initrd_ptr bb) (concat (map entry_bytes es) @ replicate pad 0) \<and>
        bb_initrd_size bb = length (concat (map entry_bytes es)) + pad)"

lemma framebuffer_starts:
  assumes "screen_pre B k"
  shows "\<exists>k'. framebuffer_init (b_bb B) (b_fb_virt B) k = Some k' \<and> screen_ok 1 4 k' \<and> only_devices k k' \<and> k_mem k' = k_mem k"
proof -
  obtain f where f: "k_fb k = None" "from_bootboot (b_bb B) (b_fb_virt B) = Some f" "fb_ok f" "1 \<le> fb_width f" "4 \<le> fb_height f"
    using assms unfolding screen_pre_def by blast
  have "only_devices k (k\<lparr>k_fb := Some f\<rparr>)"
    by (rule only_devices_update [where m = "k_mem k" and l = "k_lapic k" and f = "Some f" and s = "k_screen k"]) simp
  with f show ?thesis by (simp add: framebuffer_init_def screen_ok_def)
qed

lemma console_starts: "\<exists>b. console_init (Some initrd) = Some b"
  by (simp add: console_init_def open_file_def open_path_def)

lemma cfgtb_starts: "\<exists>H l. cfgtb_init H0 = Some (Some H) \<and> H sig_APIC = Some (l @ [apic_cfgtb_acpi_handler])"
  by (simp add: cfgtb_init_def handlers_register_def)

context x86_crate
begin

text \<open>Mapping elsewhere keeps the heap.\<close>

lemma heap_ok_kept:
  assumes "map_post X page phys n flags m m'" "range_ok page n" "heap_ok X heap_new m" "pages page n \<inter> pages HEAP_START 8 = {}"
  shows "heap_ok X heap_new m'"
proof -
  have "pagemap X m' a = pagemap X m a" if "a \<in> pages HEAP_START 8" for a
  proof (rule pagemap_moved)
    show "moved X {} (slots X (pages page n)) (3 * n) m m'" using assms(1) by (simp add: map_post_def)
    have r: "range_ok HEAP_START 8" by (simp add: range_ok_def HEAP_START_def KVMSPACE_def)
    from that obtain i where i: "a = HEAP_START + i * 4096" "i \<in> {..<8}" unfolding pages_def by (rule imageE)
    then have "i < 8" by simp
    then have "canonical a" "page_aligned a" unfolding i(1) by (rule range_ok_page [OF r])+
    moreover have "a \<notin> pages page n" using assms(4) that by (auto simp only: disjoint_iff)
    ultimately show "(path X a, p1_index X a) \<notin> slots X (pages page n)" by (rule slot_pages [OF assms(2)])
  qed
  then show ?thesis using assms(3) by (simp add: heap_ok_def heap_new_def writable_page_def)
qed

lemma user_kept:
  assumes "map_post X page phys n flags m m'" "range_ok page n" "a < 2 ^ 47" "2 ^ 47 \<le> page" "path_ok X m a \<and> (page_aligned a \<longrightarrow> pagemap X m a = 0)"
  shows "path_ok X m' a \<and> (page_aligned a \<longrightarrow> pagemap X m' a = 0)"
proof -
  have mv: "moved X {} (slots X (pages page n)) (3 * n) m m'" using assms(1) by (simp add: map_post_def)
  have "a \<notin> pages page n" using assms(3,4) by (auto simp: pages_def)
  moreover have "canonical a" using assms(3) by (simp add: canonical_def)
  ultimately have "page_aligned a \<Longrightarrow> pagemap X m' a = pagemap X m a"
    by (intro pagemap_moved [OF mv] slot_pages [OF assms(2)])
  then show ?thesis using mv assms(5) by (simp add: moved_def)
qed

lemma initrd_pages:
  assumes "archive_pre bb pm es"
  shows "range_ok INITRD_START (page_count (bb_initrd_size bb))" "a \<in> pages INITRD_START (page_count (bb_initrd_size bb)) \<Longrightarrow> p4_index X a = 258"
    "pages INITRD_START (page_count (bb_initrd_size bb)) \<inter> pages HEAP_START 8 = {}"
proof -
  let ?n = "page_count (bb_initrd_size bb)"
  have "?n * 4096 \<le> bb_initrd_size bb + 4095" by (simp add: page_count_def round_up_def)
  then have n: "?n * 4096 \<le> 2 ^ 38 + 4095" using assms by (simp add: archive_pre_def)
  then show "range_ok INITRD_START ?n" by (simp add: range_ok_def INITRD_START_def KVMSPACE_def)
  show "p4_index X a = 258" if "a \<in> pages INITRD_START ?n"
  proof -
    from that n have "a div 2 ^ 39 = 33554178" by (intro div_nat_eqI) (auto simp: pages_def INITRD_START_def)
    then show ?thesis unfolding p4_index_eq by simp
  qed
  show "pages INITRD_START ?n \<inter> pages HEAP_START 8 = {}"
  proof -
    have "INITRD_START + i * 4096 \<noteq> HEAP_START + j * 4096" if "j < 8" for i j
      using that by (simp add: INITRD_START_def HEAP_START_def)
    then show ?thesis unfolding pages_def by blast
  qed
qed

end

lemma start_memory_ok:
  assumes "x86_crate X" "gdt_crate G used" "screen_pre B (pl_k p)" "memory_pre X (b_bb B) ph (k_mem (pl_k p))"
  shows "\<exists>p' m. start_memory E B X G p = Some p' \<and> only_devices (pl_k p) (pl_k p') \<and> screen_ok 1 4 (pl_k p') \<and> k_mem (pl_k p') = m \<and>
    pl_heap p' = heap_new \<and> pl_idt p' = pl_idt p \<and> pl_handlers p' = pl_handlers p \<and>
    mp_inv X m \<and> 2 \<le> vc_room (m_vcache m) \<and> heap_ok X heap_new m \<and> (\<forall>a<2 ^ 47. path_ok X m a \<and> (page_aligned a \<longrightarrow> pagemap X m a = 0)) \<and>
    (\<forall>a. p4_index X a = 258 \<longrightarrow> path_ok X m a) \<and> 3 * page_count (bb_initrd_size (b_bb B)) \<le> card (free_frames (m_phys m)) \<and>
    cpu_cs (pl_cpu p' (e_core E)) = 0x08 \<and> cpu_ss (pl_cpu p' (e_core E)) = 0x10"
proof -
  let ?k = "pl_k p" and ?n = "page_count (pfa_size ph)" and ?c = "e_core E"
  obtain q s segs where M: "mmap_ok (b_bb B)" "phys_init X (b_bb B) = Some ph" "segments ph = (q, s) # segs" "6 \<le> fresh_pages s"
    "boot_tables X ph (k_mem ?k)" "m_tables (k_mem ?k) (m_cr3 (k_mem ?k)) 258 = 0" "?n * 4096 \<le> 2 ^ 38"
    "38 + 3 * ?n + 3 * page_count (bb_initrd_size (b_bb B)) \<le> length (free_list ph)"
    using assms(4) unfolding memory_pre_def by blast
  have "38 + 3 * ?n \<le> length (free_list ph)" using M(8) by simp
  from mem_init_run [OF assms(1) M(1-5) refl M(7) this] obtain m where m: "mem_init X (b_bb B) (k_mem ?k) = Some m" "mp_inv X m"
    "2 \<le> vc_room (m_vcache m)" "heap_ok X heap_new m" "\<forall>a<2 ^ 47. path_ok X m a \<and> (page_aligned a \<longrightarrow> pagemap X m a = 0)"
    "\<forall>a. 256 < p4_index X a \<and> m_tables (k_mem ?k) (m_cr3 (k_mem ?k)) (p4_index X a) = 0 \<longrightarrow> path_ok X m a"
    "length (free_list ph) \<le> card (free_frames (m_phys m)) + 38 + 3 * ?n" by blast
  obtain g1 g2 where g: "gdt_append G kernel_code_segment (gdt_new G) = Some (0x08, g1)" "gdt_append G kernel_data_segment g1 = Some (0x10, g2)"
    by (rule gdt_crate.appends [OF assms(2)])
  obtain k0 where k0: "framebuffer_init (b_bb B) (b_fb_virt B) ?k = Some k0" "screen_ok 1 4 k0" "only_devices ?k k0" "k_mem k0 = k_mem ?k"
    using framebuffer_starts [OF assms(3)] by blast
  define k1 where "k1 = draw 0 1 (255, 255, 0) (draw 0 0 (255, 255, 255) k0)"
  define k2 where "k2 = draw 0 2 (0, 255, 255) (k1\<lparr>k_mem := m\<rparr>)"
  have s: "screen_ok 1 4 k1" "screen_ok 1 4 k2" using k0(2) by (simp_all add: k1_def k2_def)
  have "\<exists>p'. start_memory E B X G p = Some p' \<and> pl_k p' = k2 \<and> pl_heap p' = heap_new \<and> pl_idt p' = pl_idt p \<and>
      pl_handlers p' = pl_handlers p \<and> cpu_cs (pl_cpu p' ?c) = 0x08 \<and> cpu_ss (pl_cpu p' ?c) = 0x10"
    using k0 m(1) g s
    by (simp add: start_memory_def mem_start_def basic_init_def BASIC_GDT_def pdbg_draw [where w = 1 and h = 4] on_cpu_def
        set_segments_def k1_def k2_def)
  moreover have "only_devices ?k k2"
    using only_devices_trans [OF _ only_devices_steps(3) [of k1 m], of ?k] k0(3) by (simp add: k1_def k2_def)
  moreover have "\<forall>a. p4_index X a = 258 \<longrightarrow> path_ok X m a" "3 * page_count (bb_initrd_size (b_bb B)) \<le> card (free_frames (m_phys m))"
    "k_mem k2 = m" using m(6,7) M(6,8) by (simp_all add: k2_def)
  ultimately show ?thesis using s(2) m(2-5) by metis
qed

lemma start_tables_ok:
  assumes "x86_crate X" "archive_pre (b_bb B) (k_pm (pl_k p)) es" "screen_ok 1 4 (pl_k p)" "pl_heap p = heap_new"
    and m: "m = k_mem (pl_k p)" "mp_inv X m" "2 \<le> vc_room (m_vcache m)" "heap_ok X heap_new m"
      "\<forall>a<2 ^ 47. path_ok X m a \<and> (page_aligned a \<longrightarrow> pagemap X m a = 0)" "\<forall>a. p4_index X a = 258 \<longrightarrow> path_ok X m a"
      "3 * page_count (bb_initrd_size (b_bb B)) \<le> card (free_frames (m_phys m))"
  shows "\<exists>p' m' initrd f sc H l. start_tables B X p = Some p' \<and>
    pl_k p' = (pl_k p)\<lparr>k_mem := m', k_initrd := Some initrd, k_file := vread X m' (k_pm (pl_k p)), k_fb := f, k_screen := sc\<rparr> \<and>
    mp_inv X m' \<and> 2 \<le> vc_room (m_vcache m') \<and> heap_ok X (pl_heap p') m' \<and>
    (\<forall>a<2 ^ 47. path_ok X m' a \<and> (page_aligned a \<longrightarrow> pagemap X m' a = 0)) \<and>
    (\<forall>path. entry_agrees (vread X m' (k_pm (pl_k p))) (lookup_entry es path) (initrd path)) \<and>
    pl_idt p' = interrupts_init (pl_idt p) \<and> pl_handlers p' = Some H \<and> H sig_APIC = Some (l @ [apic_cfgtb_acpi_handler]) \<and>
    pl_cpu p' = pl_cpu p"
proof -
  let ?bb = "b_bb B"
  define k n where "k = pl_k p" and "n = page_count (bb_initrd_size ?bb)"
  obtain pad where A: "0 < bb_initrd_size ?bb" "bb_initrd_size ?bb \<le> 2 ^ 38" "page_aligned (bb_initrd_ptr ?bb)" "bb_initrd_ptr ?bb \<le> 2 ^ 51"
    "\<forall>e \<in> set es. entry_ok e" "holds (k_pm k) (bb_initrd_ptr ?bb) (concat (map entry_bytes es) @ replicate pad 0)"
    "bb_initrd_size ?bb = length (concat (map entry_bytes es)) + pad"
    using assms(2) unfolding archive_pre_def k_def by metis
  note I = x86_crate.initrd_pages [OF assms(1,2), folded n_def]
  have "n * 4096 \<le> bb_initrd_size ?bb + 4095" by (simp add: n_def page_count_def round_up_def)
  then have pre: "map_pre X INITRD_START (bb_initrd_ptr ?bb) n {} m"
    using m(2,3,6,7) A(2-4) I(1,2) by (simp add: map_pre_def n_def INITRD_START_def KVMSPACE_def)
  obtain initrd m' where i: "initrd_init X ?bb (k_pm k) m = Some (Some initrd, m')" "map_post X INITRD_START (bb_initrd_ptr ?bb) n {} m m'"
    "\<forall>path. entry_agrees (vread X m' (k_pm k)) (lookup_entry es path) (initrd path)"
    using x86_crate.initrd_init_ok [OF assms(1) pre [unfolded n_def] A(1) _ A(3) _ A(5-7)] A(2,4) unfolding n_def by auto
  obtain b where b: "console_init (Some initrd) = Some b" using console_starts by blast
  obtain H l where H: "cfgtb_init (pl_handlers p) = Some (Some H)" "H sig_APIC = Some (l @ [apic_cfgtb_acpi_handler])"
    using cfgtb_starts by blast
  define k1 where "k1 = k\<lparr>k_mem := m', k_initrd := Some initrd, k_file := vread X m' (k_pm k)\<rparr>"
  obtain f sc where k1: "draw 0 3 (0, 0, 255) k1 = k1\<lparr>k_fb := f, k_screen := sc\<rparr>" using draw_devices by blast
  have "screen_ok 1 4 k1" using assms(3) by (simp add: screen_ok_def k1_def k_def)
  then obtain p' where "start_tables B X p = Some p' \<and> pl_k p' = k1\<lparr>k_fb := f, k_screen := sc\<rparr> \<and> pl_heap p' = heap_new \<and>
      pl_idt p' = interrupts_init (pl_idt p) \<and> pl_handlers p' = Some H \<and> pl_cpu p' = pl_cpu p"
    using that i(1) b H(1) assms(4) m(1) k1
    by (simp add: start_tables_def Let_def k_def [symmetric] k1_def [symmetric] pdbg_draw [where w = 1 and h = 4])
  moreover have "mp_inv X m'" "2 \<le> vc_room (m_vcache m')" using i(2) m(3) by (simp_all add: map_post_def moved_def)
  moreover have "heap_ok X heap_new m'" using x86_crate.heap_ok_kept [OF assms(1) i(2) I(1) m(4) I(3)] .
  moreover have "path_ok X m' a \<and> (page_aligned a \<longrightarrow> pagemap X m' a = 0)" if "a < 2 ^ 47" for a
    using x86_crate.user_kept [OF assms(1) i(2) I(1) that] m(5) that by (simp add: INITRD_START_def)
  ultimately show ?thesis using i(3) H(2)
    by (intro exI [of _ p'] exI [of _ m'] exI [of _ initrd] exI [of _ f] exI [of _ sc] exI [of _ H] exI [of _ l]) (simp add: k1_def k_def)
qed


text \<open>A machine with one region of memory, a small screen and the archive of the theory Initrd.\<close>

definition demo_boot :: boot where
  "demo_boot = \<lparr>b_bb = boot_bb\<lparr>bb_initrd_ptr := 0x200000, bb_initrd_size := 3072, bb_fb_width := 4, bb_fb_height := 8, bb_fb_scanline := 16\<rparr>,
     b_fb_virt = 0x1000, b_dev = (\<lambda>_ _. 0), b_depth = 3\<rparr>"

definition demo_off :: "Descriptor option list platform" where
  "demo_off = demo_platform\<lparr>pl_k := demo_kernel\<lparr>k_fb := None, k_pm := demo_pm, k_initrd := None\<rparr>\<rparr>"

lemma demo_screen_pre: "screen_pre demo_boot (pl_k demo_off)"
  by (simp add: screen_pre_def demo_boot_def demo_off_def from_bootboot_def format_try_into_def boot_bb_def demo_bb_def fb_ok_def)

lemma demo_memory_pre: "memory_pre x86_ref (b_bb demo_boot) boot_pfa (k_mem (pl_k demo_off))"
proof -
  have e: "bb_size (b_bb demo_boot) = bb_size boot_bb" "bb_mmap (b_bb demo_boot) = bb_mmap boot_bb" by (simp_all add: demo_boot_def)
  have "mmap_ok (b_bb demo_boot)" using boot_mmap_ok unfolding mmap_ok_def mmap_indices_def e .
  moreover have "scan_entry x86_ref (b_bb demo_boot) = scan_entry x86_ref boot_bb" by (simp add: fun_eq_iff scan_entry_def e)
  then have "phys_init x86_ref (b_bb demo_boot) = Some boot_pfa" using boot_phys_init unfolding phys_init_def e by simp
  moreover have "boot_tables x86_ref boot_pfa (k_mem (pl_k demo_off))" "m_tables (k_mem (pl_k demo_off)) f i = 0" for f i
    using boot_big_tables by (simp_all add: demo_off_def demo_kernel_def big_same demo_machine_def)
  moreover have "segments boot_pfa = [(0x100000, boot_seg)]" "page_count (pfa_size boot_pfa) = 1" "page_count (bb_initrd_size (b_bb demo_boot)) = 1"
    by (simp_all add: boot_pfa_def demo_boot_def page_count_def round_up_def)
  ultimately show ?thesis by (simp add: memory_pre_def boot_free)
qed

lemma demo_archive_pre: "archive_pre (b_bb demo_boot) (k_pm (pl_k demo_off)) demo_archive"
proof -
  have "holds demo_pm 0x200000 (concat (map entry_bytes demo_archive) @ replicate 1024 0)"
    unfolding holds_def by (rule nth_equalityI) (simp_all add: demo_pm_def Let_def demo_archive_ok(2))
  then show ?thesis using demo_archive_ok
    by (simp add: archive_pre_def demo_boot_def demo_off_def)
qed


section \<open>The tables of the cores\<close>

text \<open>The tables \<open>ignite\<close> allocates, each with the size of an element and its address.\<close>

definition kernel_tables :: "'g gdt_ops \<Rightarrow> (nat \<times> nat) list" where
  "kernel_tables G = [(8, STACK_TABLE_VPTR), (size_kgdt G, GDT_TABLE_PTR), (size_tss G, TSS_TABLE_PTR),
     (ERROR_STACK_SIZE, NMI_STACKS_VPTR), (ERROR_STACK_SIZE, DF_STACKS_VPTR)]"

definition table_pages :: "nat \<Rightarrow> nat \<times> nat \<Rightarrow> nat set" where
  "table_pages n t = pages (snd t) (page_count (n * fst t))"

definition tables_cost :: "nat \<Rightarrow> (nat \<times> nat) list \<Rightarrow> nat" where
  "tables_cost n ts = (\<Sum>t\<leftarrow>ts. 4 * page_count (n * fst t))"

text \<open>A page of kernel data.\<close>

definition kernel_page :: "x86 \<Rightarrow> machine \<Rightarrow> nat \<Rightarrow> bool" where
  "kernel_page X m a \<longleftrightarrow> pte_frame X (pagemap X m a) \<noteq> None \<and> pte_flags X (pagemap X m a) = {PRESENT, WRITABLE, GLOBAL}"

definition table_ok :: "nat \<Rightarrow> nat \<times> nat \<Rightarrow> bool" where
  "table_ok n t \<longleftrightarrow> page_aligned (snd t) \<and> KVMSPACE + VCACHE_SIZE \<le> snd t \<and> snd t + 2 ^ 42 \<le> 2 ^ 64 \<and> n * fst t \<le> 2 ^ 41"

lemma ignite_tables_fold: "ignite_tables X G n m = fold_opt (\<lambda>t. valloc_ktable X (fst t) (snd t) n) (kernel_tables G) m"
proof -
  have "fold_opt f (x # xs) = (\<lambda>s. Option.bind (f x s) (fold_opt f xs))" "fold_opt f [] = Some"
    for f :: "nat \<times> nat \<Rightarrow> machine \<Rightarrow> machine option" and x xs by (simp_all add: fun_eq_iff)
  then show ?thesis by (simp add: ignite_tables_def kgdt_init_def kernel_tables_def)
qed

lemma table_range:
  assumes "table_ok n t"
  shows "range_ok (snd t) (page_count (n * fst t))" "KVMSPACE < snd t" "canonical (snd t)"
proof -
  have "page_count (n * fst t) * 4096 \<le> n * fst t + 4095" by (simp add: page_count_def round_up_def)
  then have "snd t + page_count (n * fst t) * 4096 \<le> 2 ^ 64" using assms by (simp add: table_ok_def)
  then show "range_ok (snd t) (page_count (n * fst t))" "KVMSPACE < snd t" "canonical (snd t)"
    using assms by (auto simp: table_ok_def range_ok_def canonical_def KVMSPACE_def VCACHE_SIZE_def)
qed

context x86_crate
begin

lemma valloc_ktable_ok:
  assumes "table_ok n t" "alloc_pre X (snd t) (page_count (n * fst t)) {WRITABLE} m"
  shows "\<exists>fs m'. valloc_ktable X (fst t) (snd t) n m = Some m' \<and> length fs = page_count (n * fst t) \<and>
    alloc_post X (snd t) fs {WRITABLE} m m'"
proof -
  obtain fs m' where m': "valloc X (snd t) (page_count (n * fst t)) {WRITABLE} m = Some m'" "length fs = page_count (n * fst t)"
    "alloc_post X (snd t) fs {WRITABLE} m m'" using valloc_ok [OF assms(2)] by blast
  have "align_up X (n * fst t) 4096 = Some (round_up (n * fst t) 4096)"
    using align_up_eq [of 12 "n * fst t"] assms(1) round_up_less [of 4096 "n * fst t"] by (simp add: table_ok_def)
  then have "valloc_ktable X (fst t) (snd t) n m = Some m'"
    using m'(1) assms(1) table_range(3) [OF assms(1)]
    by (simp add: valloc_ktable_def valloc_size_def page_count_def table_ok_def crate_eqs mul64_def)
  with m' show ?thesis by blast
qed

lemma kernel_pages_new:
  assumes "table_ok n t" "length fs = page_count (n * fst t)" "alloc_post X (snd t) fs {WRITABLE} m m'" "a \<in> table_pages n t"
  shows "kernel_page X m' a"
proof -
  have "page_flags (snd t) {WRITABLE} = {PRESENT, WRITABLE, GLOBAL}"
    using table_range(2) [OF assms(1)] by (auto simp: page_flags_def)
  then show ?thesis using assms(2-4) by (auto simp: table_pages_def pages_def alloc_post_def kernel_page_def)
qed

lemma kernel_page_kept:
  assumes "table_ok n t" "length fs = page_count (n * fst t)" "alloc_post X (snd t) fs {WRITABLE} m m'"
    and "kernel_page X m a" "canonical a" "page_aligned a"
  shows "kernel_page X m' a"
proof (cases "a \<in> table_pages n t")
  case False
  then have "(path X a, p1_index X a) \<notin> slots X (table_pages n t)"
    using slot_pages [OF table_range(1) [OF assms(1)] assms(5,6)] by (simp add: table_pages_def)
  moreover have "moved X {} (slots X (table_pages n t)) (4 * length fs) m m'"
    using assms(2,3) by (simp add: table_pages_def alloc_post_def)
  ultimately have "pagemap X m' a = pagemap X m a" by (rule pagemap_moved [rotated])
  with assms(4) show ?thesis by (simp add: kernel_page_def)
qed (rule kernel_pages_new [OF assms(1-3)])

lemma ktables_ok:
  assumes "\<forall>t \<in> set ts. table_ok n t" "mp_inv X m" "2 \<le> vc_room (m_vcache m)"
    and "\<forall>t \<in> set ts. \<forall>a \<in> table_pages n t. path_ok X m a" "tables_cost n ts \<le> card (free_frames (m_phys m))"
    and "\<forall>a \<in> A. kernel_page X m a \<and> canonical a \<and> page_aligned a"
  shows "\<exists>m'. fold_opt (\<lambda>t. valloc_ktable X (fst t) (snd t) n) ts m = Some m' \<and> mp_inv X m' \<and> 2 \<le> vc_room (m_vcache m') \<and>
    (\<forall>b. path_ok X m b \<longrightarrow> path_ok X m' b) \<and> card (free_frames (m_phys m)) \<le> card (free_frames (m_phys m')) + tables_cost n ts \<and>
    (\<forall>a \<in> A \<union> (\<Union>t \<in> set ts. table_pages n t). kernel_page X m' a)"
  using assms
proof (induction ts arbitrary: m A)
  case Nil
  then show ?case by (simp add: tables_cost_def)
next
  case (Cons t ts)
  have t: "table_ok n t" using Cons.prems by simp
  have "alloc_pre X (snd t) (page_count (n * fst t)) {WRITABLE} m"
    using Cons.prems(2-5) table_range [OF t] t by (simp add: alloc_pre_def table_pages_def tables_cost_def table_ok_def)
  from valloc_ktable_ok [OF t this] obtain fs m1 where m1: "valloc_ktable X (fst t) (snd t) n m = Some m1"
    "length fs = page_count (n * fst t)" "alloc_post X (snd t) fs {WRITABLE} m m1" by blast
  have mv: "mp_inv X m1" "2 \<le> vc_room (m_vcache m1)" "\<forall>b. path_ok X m b \<longrightarrow> path_ok X m1 b"
    "card (free_frames (m_phys m)) \<le> card (free_frames (m_phys m1)) + 4 * page_count (n * fst t)"
    using m1(2,3) Cons.prems(3) by (simp_all add: alloc_post_def moved_def)
  have "kernel_page X m1 a \<and> canonical a \<and> page_aligned a" if "a \<in> A \<union> table_pages n t" for a
  proof (cases "a \<in> table_pages n t")
    case True
    then show ?thesis using kernel_pages_new [OF t m1(2,3)] range_ok_page [OF table_range(1) [OF t]]
      by (auto simp: table_pages_def pages_def)
  next
    case False
    with that Cons.prems(6) have "kernel_page X m a" "canonical a" "page_aligned a" by auto
    then show ?thesis using kernel_page_kept [OF t m1(2,3)] by simp
  qed
  then have A: "\<forall>a \<in> A \<union> table_pages n t. kernel_page X m1 a \<and> canonical a \<and> page_aligned a" by blast
  have "\<forall>t \<in> set ts. \<forall>a \<in> table_pages n t. path_ok X m1 a" using Cons.prems(4) mv(3) by auto
  moreover have "tables_cost n ts \<le> card (free_frames (m_phys m1))" using Cons.prems(5) mv(4) by (simp add: tables_cost_def)
  moreover have "\<forall>t \<in> set ts. table_ok n t" using Cons.prems(1) by simp
  ultimately obtain m' where m': "fold_opt (\<lambda>t. valloc_ktable X (fst t) (snd t) n) ts m1 = Some m'" "mp_inv X m'"
    "2 \<le> vc_room (m_vcache m')" "\<forall>b. path_ok X m1 b \<longrightarrow> path_ok X m' b"
    "card (free_frames (m_phys m1)) \<le> card (free_frames (m_phys m')) + tables_cost n ts"
    "\<forall>a \<in> (A \<union> table_pages n t) \<union> (\<Union>t \<in> set ts. table_pages n t). kernel_page X m' a"
    using Cons.IH [OF _ mv(1,2) _ _ A] by blast
  show ?case
    using m1(1) m' mv(3,4) by (intro exI [of _ m']) (simp add: tables_cost_def)
qed

end

section \<open>All cores\<close>

text \<open>What the primary core finds when it has read the ACPI tables.\<close>

definition ignite_pre :: "x86 \<Rightarrow> 'g gdt_ops \<Rightarrow> nat \<Rightarrow> env \<Rightarrow> nat \<Rightarrow> 'g platform \<Rightarrow> bool" where
  "ignite_pre X G h E st p \<longleftrightarrow> (let k = pl_k p; n = k_numcores k; m = k_mem k in
     env_ok X h E st \<and> is_primary (e_core E) k \<and> screen_ok 114 h k \<and>
     n \<le> 256 \<and> n * size_kgdt G \<le> 2 ^ 41 \<and> mp_inv X m \<and> 2 \<le> vc_room (m_vcache m) \<and>
     (\<forall>t \<in> set (kernel_tables G). \<forall>a \<in> table_pages n t. path_ok X m a) \<and> path_ok X m APIC_VBASE \<and>
     tables_cost n (kernel_tables G) + 3 \<le> card (free_frames (m_phys m)) \<and>
     (\<forall>cfg \<in> set (once [] (APIC_CONFIG (pl_apic p))). nmi_pin cfg \<le> 1))"

text \<open>A core in the event loop, with everything it needs.\<close>

definition core_runs :: "env \<Rightarrow> nat \<Rightarrow> 'g platform \<Rightarrow> bool" where
  "core_runs E st p \<longleftrightarrow> (let core = e_core E; k = pl_k p in
     cpu_ready E (pl_gdt p core) (pl_cpu p core) \<and> tss_ready core st (pl_tss p core) \<and> pl_stack p core = st \<and>
     k_gdt k core = selectors \<and> k_procs k core = Some ((ProcInfo_new core st)\<lparr>schedule_quantum := wake_quantum E\<rparr>) \<and>
     (\<exists>l ws. k_lapic k core = l @ apic_writes (wake_quantum E) @ ws \<and> set (map fst ws) \<subseteq> {0x350, 0x360}))"

text \<open>The other cores, one after the other, each until it is in the event loop.\<close>

definition start_others :: "x86 \<Rightarrow> 'g gdt_ops \<Rightarrow> env list \<Rightarrow> 'g platform \<Rightarrow> 'g platform option" where
  "start_others X G Es p = fold_opt (\<lambda>E p. do {
     (r, p) \<leftarrow> wait E X G p;
     _ \<leftarrow> rassert (r = Loops);
     Some p }) Es p"

lemma core_ready_runs:
  assumes "core_ready E st p p'" "k_lapic (pl_k p') (e_core E) = k_lapic (pl_k p) (e_core E) @ apic_writes (wake_quantum E) @ ws"
    "set (map fst ws) \<subseteq> {0x350, 0x360}"
  shows "core_runs E st p'"
proof -
  note r = assms(1) [unfolded core_ready_def Let_def]
  have "k_gdt (pl_k p') (e_core E) = selectors"
    "k_procs (pl_k p') (e_core E) = Some ((ProcInfo_new (e_core E) st)\<lparr>schedule_quantum := wake_quantum E\<rparr>)"
    using only_devicesD(1,2) [OF conjunct1 [OF r]] by simp_all
  then show ?thesis using r assms(2,3) by (auto simp: core_runs_def Let_def)
qed

lemma core_runs_kept:
  assumes "core_ready E st p p'" "e_core F \<noteq> e_core E" "core_runs F sf p"
  shows "core_runs F sf p'"
proof -
  note r = assms(1) [unfolded core_ready_def Let_def]
  have "k_gdt (pl_k p') (e_core F) = k_gdt (pl_k p) (e_core F)" "k_procs (pl_k p') (e_core F) = k_procs (pl_k p) (e_core F)"
    using only_devicesD(1,2) [OF conjunct1 [OF r]] assms(2) by simp_all
  moreover have "same_core (e_core F) p p'" using r assms(2) by blast
  ultimately show ?thesis using assms(3) by (simp add: core_runs_def same_core_def Let_def)
qed

context crates
begin

lemma others_ok:
  assumes "\<forall>E \<in> set Es. env_ok X h E (st E) \<and> \<not> is_primary (e_core E) (pl_k p)" "distinct (map e_core Es)"
    and "screen_ok 114 h (pl_k p)" "pl_ignition p" "pl_proc_table p" "pl_late p" "pl_mapped p"
    and "\<forall>cfg \<in> set (once [] (APIC_CONFIG (pl_apic p))). nmi_pin cfg \<le> 1"
    and "\<forall>F \<in> Fs. core_runs F (st F) p \<and> e_core F \<notin> e_core ` set Es"
  shows "\<exists>p'. start_others X G Es p = Some p' \<and> (\<forall>F \<in> Fs \<union> set Es. core_runs F (st F) p') \<and> k_tasks (pl_k p') = k_tasks (pl_k p)"
  using assms
proof (induction Es arbitrary: p Fs)
  case Nil
  then show ?case by (simp add: start_others_def)
next
  case (Cons E Es)
  have "wake_pre X h E (st E) p" using Cons.prems by (simp add: wake_pre_def)
  from wakeup_ok [OF this] obtain p1 ws where w: "wakeup E X G p = Some (Loops, p1)" "core_ready E (st E) p p1"
    and f: "screen_ok 114 h (pl_k p1)" "pl_late p1" "pl_mapped p1" "pl_proc_table p1" "pl_ignition p1 = pl_ignition p" "pl_apic p1 = pl_apic p"
    and l: "k_lapic (pl_k p1) (e_core E) = k_lapic (pl_k p) (e_core E) @ apic_writes (wake_quantum E) @ ws"
      "set (map fst ws) \<subseteq> {0x350, 0x360}" by blast
  note d = only_devicesD [OF conjunct1 [OF w(2) [unfolded core_ready_def Let_def]]]
  have b: "k_bspid (pl_k p1) = k_bspid (pl_k p)" "k_tasks (pl_k p1) = k_tasks (pl_k p)" using d(3,5) by simp_all
  have r: "core_runs F (st F) p1 \<and> e_core F \<notin> e_core ` set Es" if "F \<in> insert E Fs" for F
  proof (cases "F = E")
    case True
    then show ?thesis using core_ready_runs [OF w(2) l] Cons.prems(2) by auto
  next
    case False
    then show ?thesis using core_runs_kept [OF w(2)] Cons.prems(9) that by auto
  qed
  have "\<exists>p'. start_others X G Es p1 = Some p' \<and> (\<forall>F \<in> insert E Fs \<union> set Es. core_runs F (st F) p') \<and>
      k_tasks (pl_k p') = k_tasks (pl_k p1)"
    by (rule Cons.IH) (use Cons.prems f b r in \<open>auto simp: is_primary_def\<close>)
  then obtain p' where "start_others X G Es p1 = Some p'" "\<forall>F \<in> insert E Fs \<union> set Es. core_runs F (st F) p'"
    "k_tasks (pl_k p') = k_tasks (pl_k p1)" by blast
  then show ?case using Cons.prems(4) w(1) b(2) by (intro exI [of _ p']) (simp add: start_others_def wait_def)
qed

lemma ignite_ok:
  assumes pre: "ignite_pre X G h E st p"
  shows "\<exists>m p'. ignite_tables X G (k_numcores (pl_k p)) (k_mem (pl_k p)) = Some m \<and>
    (\<forall>t \<in> set (kernel_tables G). \<forall>a \<in> table_pages (k_numcores (pl_k p)) t. kernel_page X m a) \<and>
    ignite E X G p = Some (Loops, p') \<and> core_runs E st p' \<and> screen_ok 114 h (pl_k p') \<and> pl_ignition p' \<and> pl_proc_table p' \<and>
    pl_late p' \<and> pl_mapped p' \<and> pl_apic p' = pl_apic p \<and> k_bspid (pl_k p') = k_bspid (pl_k p) \<and> k_tasks (pl_k p') = []"
proof -
  define k n where "k = pl_k p" and "n = k_numcores k"
  note P = pre [unfolded ignite_pre_def Let_def, folded k_def, folded n_def]
  have t: "\<forall>t \<in> set (kernel_tables G). table_ok n t"
    using P size_tss_eq by (simp add: kernel_tables_def table_ok_def STACK_TABLE_VPTR_def GDT_TABLE_PTR_def TSS_TABLE_PTR_def
        NMI_STACKS_VPTR_def DF_STACKS_VPTR_def KVMSPACE_def VCACHE_SIZE_def)
  have "tables_cost n (kernel_tables G) \<le> card (free_frames (m_phys (k_mem k)))" using P by simp
  from ktables_ok [OF t _ _ _ this, of "{}"] P obtain m where m: "ignite_tables X G n (k_mem k) = Some m" "mp_inv X m"
    "2 \<le> vc_room (m_vcache m)" "\<forall>b. path_ok X (k_mem k) b \<longrightarrow> path_ok X m b"
    "card (free_frames (m_phys (k_mem k))) \<le> card (free_frames (m_phys m)) + tables_cost n (kernel_tables G)"
    "\<forall>a \<in> (\<Union>t \<in> set (kernel_tables G). table_pages n t). kernel_page X m a"
    unfolding ignite_tables_fold by auto
  define c where "c = e_core E"
  define k1 where "k1 = draw 3 (c + 1) (128, 255, 255) (draw 2 (c + 1) (255, 128, 255) (draw 1 (c + 1) (255, 255, 128)
    (task_init (k\<lparr>k_mem := m\<rparr>))))"
  define p1 where "p1 = p\<lparr>pl_proc_table := True, pl_ignition := True, pl_k := k1\<rparr>"
  have h: "c < 256" "21 + c \<le> h" using P by (simp_all add: env_ok_def c_def)
  have s: "screen_ok 114 h k1" using P by (simp add: k1_def task_init_def)
  have i: "ignite E X G p = wakeup E X G p1"
    using m(1) P h by (simp add: ignite_def Let_def k_def [symmetric] n_def [symmetric] c_def [symmetric] add64_def
        pdbg_draw [where w = 114 and h = h] task_init_def k1_def p1_def)
  have "map_pre X APIC_VBASE APIC_BASE 1 {} m"
    using m(2-5) P by (simp add: map_pre_def range_ok_def APIC_VBASE_def APIC_BASE_def KVMSPACE_def)
  then have "wake_pre X h E st p1"
    using P s by (simp add: wake_pre_def p1_def k1_def is_primary_def task_init_def k_def)
  from wakeup_ok [OF this] obtain p' ws where w: "wakeup E X G p1 = Some (Loops, p')" "core_ready E st p1 p'"
    and f: "screen_ok 114 h (pl_k p')" "pl_late p'" "pl_mapped p'" "pl_proc_table p'" "pl_ignition p' = pl_ignition p1" "pl_apic p' = pl_apic p1"
    and l: "k_lapic (pl_k p') (e_core E) = k_lapic (pl_k p1) (e_core E) @ apic_writes (wake_quantum E) @ ws"
      "set (map fst ws) \<subseteq> {0x350, 0x360}" by blast
  note d = only_devicesD [OF conjunct1 [OF w(2) [unfolded core_ready_def Let_def]]]
  have "k_bspid (pl_k p') = k_bspid k" "k_tasks (pl_k p') = []" using d(3,5) by (simp_all add: p1_def k1_def task_init_def)
  then show ?thesis using m(1,6) i w(1) f core_ready_runs [OF w(2) l]
    by (intro exI [of _ m] exI [of _ p']) (simp add: k_def n_def p1_def)
qed

end


text \<open>Two cores; the stack of the second lies below that of the first.\<close>

definition demo_env2 :: env where
  "demo_env2 = demo_env\<lparr>e_core := 1, e_xptr := 0xFFFFFFFFFFFFEF00, e_pinfo_adr := 0xFFFF808000000200\<rparr>"

definition demo_stacks :: "env \<Rightarrow> nat" where
  "demo_stacks E = (if e_core E = 0 then 0 else 0xFFFFFFFFFFFFF000)"

definition demo_dark :: "Descriptor option list platform" where
  "demo_dark = demo_platform\<lparr>pl_k := (pl_k demo_platform)\<lparr>k_numcores := 2\<rparr>, pl_proc_table := False, pl_ignition := False\<rparr>"

lemma demo_envs: "env_ok x86_ref 22 demo_env 0" "env_ok x86_ref 22 demo_env2 0xFFFFFFFFFFFFF000"
proof -
  have "env_ok x86_ref 21 demo_env 0" using demo_wake_pre by (simp add: wake_pre_def)
  moreover have "stack x86_ref 0xFFFFFFFFFFFFEF00 (2 ^ 12) = Some 0xFFFFFFFFFFFFF000"
    using ref.stack_eq [of 12 1 "0xFFFFFFFFFFFFEF00"] by (simp add: boot_stack_def)
  ultimately show "env_ok x86_ref 22 demo_env 0" "env_ok x86_ref 22 demo_env2 0xFFFFFFFFFFFFF000"
    by (simp_all add: env_ok_def demo_env2_def demo_env_def canonical_def)
qed

lemma demo_ignite_pre: "ignite_pre x86_ref gdt_ref 22 demo_env 0 demo_dark"
proof -
  have "tables_cost 2 (kernel_tables gdt_ref) = 44"
    by (simp add: tables_cost_def kernel_tables_def gdt_ref_def page_count_def round_up_def)
  moreover have "is_primary (e_core demo_env) (pl_k demo_platform)" "screen_ok 114 22 (pl_k demo_platform)"
    "\<forall>cfg \<in> set (once [] (APIC_CONFIG (pl_apic demo_platform))). nmi_pin cfg \<le> 1" "k_mem (pl_k demo_platform) = big_machine"
    by (simp_all add: demo_env_def demo_platform_def demo_kernel_def is_primary_def screen_ok_def fb_ok_def demo_fb_def once_def)
  ultimately show ?thesis
    using demo_envs(1) big_machine_inv demo_vc_map(5) big_free_frames(1)
    by (simp add: ignite_pre_def Let_def demo_dark_def big_path_ok is_primary_def screen_ok_def) (simp add: gdt_ref_def)
qed


end
