(* ===== verification/Spec2Isabelle.thy ===== *)
theory Spec2Isabelle
  imports Start
begin

text \<open>
  A verification development for HeliumOS, a small x86-64 kernel in Rust with its user space
  interface. All paths below are under \<open>src/\<close>.

  \<^bold>\<open>The program.\<close> The boot loader starts every core in \<open>_start\<close> (\<open>kernel/src/main.rs\<close>). The primary core
  initialises memory, the interrupt table, the ramdisk and the configuration tables, and then
  releases the other cores; each sets up its stacks, descriptor table, processor entry and local
  APIC and ends in the event loop. From then on a core runs kernel code in three ways: the timer
  interrupt saves the user program, lets the scheduler choose a task and continues one; a system
  call does the same around its handler; a page fault in the heap maps more of it. Memory has four
  layers: the bitmap allocator of frames, the cache of windows through which a frame that holds a
  page table is reached, the mapper that edits the tables, and the interface the rest of the kernel
  calls.

  \<^bold>\<open>Conventions.\<close>
  \<^item> A kernel function is a function on explicit state with a result in \<open>'a option\<close>: \<^const>\<open>None\<close> is
    a panic, that is a failed assertion, an unwrap of nothing, an index out of range or an arithmetic
    overflow, as in a debug build. A Rust \<open>Option\<close> or \<open>Result\<close> is a value inside it.
  \<^item> Addresses and sizes are natural numbers with the checked operations of the theory Prelude;
    page table entries, bitmaps, registers and colours are words.
  \<^item> Code that is not in the repository is an argument. The crate x86_64 is the record \<open>x86\<close> with the
    laws of the locale \<open>x86_crate\<close>, its descriptor tables are \<open>gdt_ops\<close> with \<open>gdt_crate\<close>; the instances
    \<open>x86_ref\<close> and \<open>gdt_ref\<close> are the ones the witnesses use. What a device answers (the interval timer, the
    local timer, the I/O APICs) and which locks are free is an argument as well.
  \<^item> Page tables are a map from frames to 512 entries. The processor may still hold translations
    that were changed since the last flush; \<open>m_stale\<close> and \<open>m_gstale\<close> are the pages for which it may,
    the second those with a global translation. The other frames are bytes of physical memory.
  \<^item> Writes to the local APIC and to ports are logs of offsets and values.
  \<^item> Lines that are printed are not part of the models, except in the theory Start.

  \<^bold>\<open>Theories and sources.\<close>
  \<^item> Prelude: checked arithmetic, indexing, loops, and lemmas on lists, counting and rounding.
    X86_Crate: the crate. Bytes: memory as bytes and packed structures.
  \<^item> Bootboot (\<open>kernel/src/bootboot.rs\<close>), Frame_Allocator (the contract of the allocator), Phys and
    Phys_Init (\<open>kernel/src/mem/phys.rs\<close>): allocation and release refine a stack of free frames; the
    initialisation returns and establishes the invariant.
  \<^item> Window_Cache (the contract of the cache) and VCache (\<open>kernel/src/mem/virt/vcache.rs\<close>): which
    windows are held and what the processor sees through them.
  \<^item> Mapper (\<open>kernel/src/mem/virt/mapper.rs\<close>): the tables as a tree of distinct frames; \<open>map\<close> maps
    exactly what it is asked to, flushes it and protects kernel pages. Mem (\<open>kernel/src/mem/mod.rs\<close>,
    \<open>heap.rs\<close>): allocation of pages and growth of the heap. Virt_Init: the start of all this from the
    tables of the boot loader.
  \<^item> Tar, Initrd (\<open>kernel/src/fs\<close>) and Elf (\<open>kernel/src/elf.rs\<close>): what is read is what was laid out.
  \<^item> Memory_Map and Exec (\<open>kernel/src/proc/task.rs\<close>): the memory of a task, and \<open>exec\<close>, which gives
    it the content of its file in frames nobody else has.
  \<^item> Context (\<open>timer.asm\<close>, \<open>syscall.asm\<close>, \<open>TaskProcState::apply\<close>, \<open>event_loop\<close>): the assembly on an
    interpreter of its instructions; a program that is interrupted is continued with its registers.
  \<^item> Sched (\<open>task.rs\<close>, \<open>lapic/timer.rs\<close>): the tick and the exit of a task as functions, and as a step
    relation in which the steps of several cores interleave between the points where a lock is
    taken; an invariant by rule induction gives each running task to exactly one core, and the
    functions are sequences of these steps.
  \<^item> Syscall (\<open>kernel/src/proc/syscall.rs\<close>, \<open>userspace\<close>): both sides of the register interface.
  \<^item> Framebuffer (\<open>kernel/src/dev/framebuffer.rs\<close>) and Lapic (\<open>kernel/src/proc/apic/regmap.rs\<close>): drawing,
    and the layout and use of the registers.
  \<^item> Acpi (\<open>kernel/src/acpi\<close>, \<open>cfgtb.rs\<close>): the tables of the firmware, the walk over them and the
    registration of interrupt controllers. Interrupts (\<open>kernel/src/interrupts\<close>): the gates and the
    page fault handler. Apic (\<open>kernel/src/proc/apic/mod.rs\<close>, \<open>interrupts/pic.rs\<close>): start and calibration of the
    local APIC. Gdt (\<open>kernel/src/mem/gdt.rs\<close>) and Proc (\<open>kernel/src/proc/mod.rs\<close>): the tables of a core
    and its start. Start (\<open>main.rs\<close>, \<open>debug.rs\<close>, \<open>sys.rs\<close>, \<open>early_heap.rs\<close>): the whole start, from the boot
    loader to the ACPI tables and from there to all cores in the event loop.

  \<^bold>\<open>State.\<close> The record \<open>machine\<close> of the theory Mapper holds the allocator, the window cache, the page tables and the
  stale translations. The record \<open>kernel\<close> of the theory Exec adds the tasks (\<open>k_tasks\<close> is the list \<open>TASKS\<close>,
  \<open>k_store\<close> what its references point to), the table of processors, the ramdisk and the devices. The record
  \<open>platform\<close> of the theory Gdt adds the processors' registers and tables and the flags the cores wait for.

  \<^bold>\<open>Loops and fuel.\<close> Loops are folds over the ranges the code runs over, or recursions: the loops over
  the ramdisk and over the program headers end by a measure, the address and the index that grow. The loop over the
  entries of the MADT is a partial function, because an entry of length zero keeps it running; that it
  returns on a table that is laid out well is proved. The walk over the ACPI tables, which does not end in the
  code when a table lists itself, has its depth as an argument, and no bound is claimed for it. The
  wait for the interval timer consumes a list of readings; that it ends is proved for readings that
  fall far enough.

  \<^bold>\<open>What the properties show.\<close> The property of this theory joins the loader, the memory of a task
  and the mapper: what the processor reads in user mode is the file. The others are with their
  components: functional behaviour and errors of every operation of memory, loader and ramdisk;
  invariants kept by all of them; round trips of layouts, registers and contexts; the exclusiveness
  and progress of scheduling; the start of memory, of the kernel and of all cores. Lemmas beside them
  show where the code does not do what it means to.

  \<^bold>\<open>Not modelled.\<close>
  \<^item> The allocator inside the kernel heap is the crate linked_list_allocator. Vectors, maps and
    reference counts of the standard library are values; an allocation never fails and does not fault.
  \<^item> Locks are not operations of their own: a critical section is one step, which locks are free is an
    argument, and a lock that is never released shows as a core that waits.
  \<^item> Cores that start do so one after the other, with the primary one first; the code lets them overlap
    up to the flags they wait for.
  \<^item> Of the start, the part between the ramdisk and the release of the cores, the walk over the ACPI
    tables, has its own theorems but is not composed with the two parts beside it.
  \<^item> Formatting of messages, \<open>kernel/src/utils.rs\<close> (a pointer cast) and the two demonstration
    programs of \<open>userspace\<close>, whose calls are those of the system call interface.
\<close>

text \<open>
  C1. A task sees its file. After \<open>exec\<close> has loaded a file and the map of the new task has been
  applied on a core where no map is active, what the processor reads in user mode at the address
  of a segment is the content of the file, followed by zeros.
\<close>

theorem task_sees_file:
  assumes "x86_crate X" and "exec_pre X core elf k"
    and "\<forall>i j. i < j \<and> j < length (exec_blocks (k_file k) elf) \<longrightarrow>
      block_range (exec_blocks (k_file k) elf ! i) \<inter> block_range (exec_blocks (k_file k) elf ! j) = {}"
    and "7 * sum_list (map block_pages (exec_blocks (k_file k) elf)) \<le> card (free_frames (m_phys (k_mem k)))"
    and "\<forall>a<2 ^ 47. path_ok X (k_mem k) a" and "active_mapping pinfo = None"
  shows "\<exists>k' t m'. exec X core elf k = Some (Success (k_idcount k + 1), k') \<and>
    k_store k' (k_idcount k + 1) = Some t \<and>
    map_apply X (memory_map t) (pinfo, k_mem k') = Some (pinfo\<lparr>active_mapping := Some (map_id (memory_map t))\<rparr>, m') \<and>
    mp_inv X m' \<and>
    (\<forall>p \<in> set (headers_from (k_file k) elf 0). ph_ptype p = PT_Load \<longrightarrow>
       (\<forall>j<ph_mem_size p. let a = ph_vadr p + j in
          vread X m' (k_pm k') a = (if j < ph_file_size p then k_file k (ef_adr elf + ph_offset p + j) else 0) \<and>
          {PRESENT, USER_ACCESSIBLE} \<subseteq> pte_flags X (pagemap X m' (a - a mod 4096)) \<and>
          (WRITABLE \<in> pte_flags X (pagemap X m' (a - a mod 4096)) \<longleftrightarrow> writable p) \<and>
          a - a mod 4096 \<notin> m_stale m' \<union> m_gstale m'))"
proof -
  obtain k' t fss where e: "exec X core elf k = Some (Success (k_idcount k + 1), k')"
    "k_store k' = (k_store k)(k_idcount k + 1 \<mapsto> t)"
    and L: "loaded X core (k_mem k) (k_pm k) (exec_blocks (k_file k) elf) fss (memory_map t, k_mem k', k_pm k')"
    by (rule x86_crate.exec_task [OF assms(1,2)])
  obtain m' where m': "apply_all X (mappings (memory_map t)) (k_mem k') = Some m'"
    and post: "apply_post X (mappings (memory_map t)) (k_mem k') m'"
    using x86_crate.loaded_apply [OF assms(1,2) L assms(4,5)] by blast
  note P = post [unfolded apply_post_def]
  have "let a = ph_vadr p + j in
      vread X m' (k_pm k') a = (if j < ph_file_size p then k_file k (ef_adr elf + ph_offset p + j) else 0) \<and>
      {PRESENT, USER_ACCESSIBLE} \<subseteq> pte_flags X (pagemap X m' (a - a mod 4096)) \<and>
      (WRITABLE \<in> pte_flags X (pagemap X m' (a - a mod 4096)) \<longleftrightarrow> writable p) \<and>
      a - a mod 4096 \<notin> m_stale m' \<union> m_gstale m'"
    if p: "p \<in> set (headers_from (k_file k) elf 0)" "ph_ptype p = PT_Load" and j: "j < ph_mem_size p" for p j
    using loaded_segment [OF L assms(2,3) p j] applied_byte [OF post, of "ph_vadr p + j"]
    by (auto simp: Let_def task_byte_def round_down_minus memory_flags_def split: option.splits)
  moreover have "map_apply X (memory_map t) (pinfo, k_mem k') =
      Some (pinfo\<lparr>active_mapping := Some (map_id (memory_map t))\<rparr>, m')"
    using m' assms(6) by (simp add: map_apply_def)
  ultimately show ?thesis using e P by (intro exI [of _ k'] exI [of _ t] exI [of _ m']) simp
qed

theorem task_sees_file_witness:
  "\<exists>k' t m'. exec x86_ref 0 demo_elf demo_kernel = Some (Success 1, k') \<and> k_store k' 1 = Some t \<and>
     map_apply x86_ref (memory_map t) (demo_pinfo, k_mem k') = Some (demo_pinfo\<lparr>active_mapping := Some (map_id (memory_map t))\<rparr>, m') \<and>
     vread x86_ref m' (k_pm k') 0x401000 = 0x7f"
proof -
  have f: "k_file demo_kernel = demo_file" "k_idcount demo_kernel = 0" "k_mem demo_kernel = big_machine"
    by (simp_all add: demo_kernel_def)
  have h: "demo_ph \<in> set (headers_from (k_file demo_kernel) demo_elf 0)" "ph_ptype demo_ph = PT_Load"
      "0 < ph_mem_size demo_ph"
    by (simp_all add: f demo_headers) (simp_all add: demo_ph_def PT_Load_def)
  have "7 * sum_list (map block_pages (exec_blocks (k_file demo_kernel) demo_elf)) \<le>
      card (free_frames (m_phys (k_mem demo_kernel)))"
    by (simp add: f demo_blocks ref.stack_block_ok big_free_frames)
  moreover have "\<forall>a<2 ^ 47. path_ok x86_ref (k_mem demo_kernel) a" by (simp add: f big_path_ok)
  moreover have "active_mapping demo_pinfo = None" by (simp add: demo_pinfo_def)
  ultimately obtain k' t m' where r: "exec x86_ref 0 demo_elf demo_kernel = Some (Success (k_idcount demo_kernel + 1), k')"
    "k_store k' (k_idcount demo_kernel + 1) = Some t"
    "map_apply x86_ref (memory_map t) (demo_pinfo, k_mem k') = Some (demo_pinfo\<lparr>active_mapping := Some (map_id (memory_map t))\<rparr>, m')"
    "\<forall>p \<in> set (headers_from (k_file demo_kernel) demo_elf 0). ph_ptype p = PT_Load \<longrightarrow>
       (\<forall>j<ph_mem_size p. let a = ph_vadr p + j in
          vread x86_ref m' (k_pm k') a = (if j < ph_file_size p then k_file demo_kernel (ef_adr demo_elf + ph_offset p + j) else 0) \<and>
          {PRESENT, USER_ACCESSIBLE} \<subseteq> pte_flags x86_ref (pagemap x86_ref m' (a - a mod 4096)) \<and>
          (WRITABLE \<in> pte_flags x86_ref (pagemap x86_ref m' (a - a mod 4096)) \<longleftrightarrow> writable p) \<and>
          a - a mod 4096 \<notin> m_stale m' \<union> m_gstale m')"
    using task_sees_file [OF ref.x86_crate_axioms demo_exec_pre demo_disjoint] by blast
  have "vread x86_ref m' (k_pm k') (ph_vadr demo_ph + 0) =
      (if 0 < ph_file_size demo_ph then demo_file (ef_adr demo_elf + ph_offset demo_ph + 0) else 0)"
    using r(4) h unfolding f Let_def by blast
  moreover have "demo_file 64 = 0x7f"
    by (simp add: demo_file_def demo_mem_def header_bytes_of_def) (simp add: demo_header_def)
  ultimately show ?thesis using r(1-3) by (auto simp: f demo_ph_def demo_elf_def)
qed

end
